(* ===== verification/Prelude.thy ===== *)
theory Prelude
  imports Main "HOL-Library.Word" "HOL-Library.Monad_Syntax"
begin

unbundle bit_operations_syntax

text \<open>
  Shared vocabulary of the development: the machine integers of the C code, the
  byte-addressed physical memory with its little-endian accessors, address
  ranges, and the counting loops over page addresses.  Every component theory
  builds on the lemmas collected here; the collection \<open>mem_simps\<close> holds
  the rewrite rules that read through memory updates.
\<close>

named_theorems mem_simps
named_theorems layout_simps

section \<open>Machine integers\<close>

type_synonym u8 = "8 word"
type_synonym u16 = "16 word"
type_synonym u32 = "32 word"
type_synonym u64 = "64 word"

text \<open>A byte address space: the flat view the kernel has of physical memory.\<close>

type_synonym memory = "u32 \<Rightarrow> u8"

text \<open>
  Addresses the linker chooses, the parameters every run of the kernel has:
  \<open>linker.ld\<close> places the image from \<open>kernel_start\<close> up to
  \<open>kernel_end\<close>; the others are the addresses of C objects and of the
  assembly stubs of \<open>asm/irq_stub.asm\<close>.
\<close>

record linker =
  kernel_start :: u32
  kernel_end :: u32
  addr_gdt :: u32
  addr_tss :: u32
  addr_idt :: u32
  irq_stub :: "nat \<Rightarrow> u32"
  page_fault_stub :: u32
  addr_ramfs_files :: u32
  addr_ramfs_ops :: u32
  addr_root_path :: u32

text \<open>A layout as \<open>linker.ld\<close> produces it: an image of 64 KiB at 2 MiB.\<close>

definition linker0 :: linker where
  "linker0 = \<lparr>kernel_start = 0x200000, kernel_end = 0x210000, addr_gdt = 0x205000,
     addr_tss = 0x206000, addr_idt = 0x207000, irq_stub = (\<lambda>n. 0x201000 + of_nat n),
     page_fault_stub = 0x202000, addr_ramfs_files = 0x208000,
     addr_ramfs_ops = 0x20A000, addr_root_path = 0x20B000\<rparr>"

lemma linker0_simps [simp]:
  "kernel_start linker0 = 0x200000" "kernel_end linker0 = 0x210000" "addr_gdt linker0 = 0x205000"
  "addr_tss linker0 = 0x206000" "addr_idt linker0 = 0x207000" "irq_stub linker0 n = 0x201000 + of_nat n"
  "page_fault_stub linker0 = 0x202000" "addr_ramfs_files linker0 = 0x208000"
  "addr_ramfs_ops linker0 = 0x20A000" "addr_root_path linker0 = 0x20B000"
  by (simp_all add: linker0_def)

section \<open>Address ranges\<close>

text \<open>The \<open>n\<close> addresses from \<open>a\<close> upwards (wrapping like the hardware).\<close>

definition span :: "u32 \<Rightarrow> nat \<Rightarrow> u32 set" where
  "span a n = {x. unat (x - a) < n}"

lemma span_iff: "x \<in> span a n \<longleftrightarrow> unat (x - a) < n"
  by (simp add: span_def)

lemma span_empty [simp]: "span a 0 = {}"
  by (simp add: span_def)

lemma span_mono: "n \<le> k \<Longrightarrow> span a n \<subseteq> span a k"
  by (auto simp: span_iff)

lemma unat_bound32: "unat (x :: u32) < 4294967296"
  using unsigned_less [of x] by simp

lemma unat_of_nat32: "n < 2 ^ 32 \<Longrightarrow> unat (of_nat n :: u32) = n"
  by (simp add: unat_of_nat take_bit_nat_eq_self)

text \<open>A counter below its bound does not wrap.\<close>

lemma unat_inc: "(i :: 'a::len word) < n \<Longrightarrow> unat (i + 1) = Suc (unat i)"
  using less_trans_Suc [of "unat i" "unat n" "2 ^ LENGTH('a)"] unsigned_less [of n]
  by (simp add: word_less_nat_alt unat_word_ariths)

lemma count_down [termination_simp]:
  "(i :: 'a::len word) < n \<Longrightarrow> unat n - unat (i + 1) < unat n - unat i"
  by (simp add: unat_inc) (simp add: word_less_nat_alt)

lemma span_nowrap:
  assumes "unat a + n \<le> 2 ^ 32"
  shows "x \<in> span a n \<longleftrightarrow> unat a \<le> unat x \<and> unat x < unat a + n"
proof (cases "a \<le> x")
  case True
  then have "unat (x - a) = unat x - unat a" and "unat a \<le> unat x"
    by (simp_all add: unat_sub word_le_nat_alt)
  then show ?thesis by (auto simp: span_iff)
next
  case False
  then have lt: "unat x < unat a" by (simp add: word_le_nat_alt)
  then have "unat (x - a) = unat x + 2 ^ 32 - unat a"
    by (simp add: unat_sub_if')
  with lt assms show ?thesis by (auto simp: span_iff)
qed

text \<open>Two ranges that do not wrap are disjoint when one ends before the other.\<close>

lemma span_disjoint:
  assumes "unat a + n \<le> 2 ^ 32" "unat b + k \<le> 2 ^ 32"
    and "unat a + n \<le> unat b \<or> unat b + k \<le> unat a"
  shows "span a n \<inter> span b k = {}"
  using assms(3) by (auto simp: span_nowrap [OF assms(1)] span_nowrap [OF assms(2)])

lemma span_subset:
  assumes "unat a + n \<le> 2 ^ 32" "unat b + k \<le> 2 ^ 32"
    and "unat b \<le> unat a" "unat a + n \<le> unat b + k"
  shows "span a n \<subseteq> span b k"
  using assms(3,4) by (auto simp: span_nowrap [OF assms(1)] span_nowrap [OF assms(2)])

lemma span_Suc: "span a (Suc n) = insert a (span (a + 1) n)"
proof (cases "Suc n \<le> 2 ^ 32")
  case True
  show ?thesis
  proof (rule set_eqI)
    fix x
    show "x \<in> span a (Suc n) \<longleftrightarrow> x \<in> insert a (span (a + 1) n)"
    proof (cases "x = a")
      case True
      then show ?thesis by (simp add: span_iff)
    next
      case False
      then have "x - a \<noteq> 0" by simp
      then have "unat (x - (a + 1)) = unat (x - a) - 1"
        by (metis diff_diff_eq unat_minus_one)
      moreover have "unat (x - a) \<noteq> 0" using \<open>x - a \<noteq> 0\<close> unat_eq_0 by blast
      ultimately show ?thesis using False by (auto simp: span_iff)
    qed
  qed
next
  case False
  then have "2 ^ 32 \<le> n" by simp
  then have "unat (y :: u32) < n" for y
    using order.strict_trans2 [OF unat_bound32 [of y]] by simp
  then show ?thesis by (auto simp: span_iff less_SucI)
qed

lemma span_add: "span a (k + n) = span a k \<union> span (a + of_nat k) n"
proof (induction k arbitrary: a)
  case (Suc k)
  show ?case by (simp add: span_Suc Suc algebra_simps)
qed simp

lemma span_tail_disjoint:
  assumes "k + n \<le> 2 ^ 32" "x \<in> span a k"
  shows "x \<notin> span (a + of_nat k) n"
proof (cases "n = 0")
  case False
  have d: "unat (x - a) < k" using assms(2) by (simp add: span_iff)
  have k: "unat (of_nat k :: u32) = k" using assms(1) False by (intro unat_of_nat32) simp
  have "unat (y - of_nat k) = unat y + 2 ^ 32 - k" if "unat y < k" for y :: u32
    using that by (simp add: unat_sub_if' k)
  from this [OF d] have "unat (x - (a + of_nat k)) = unat (x - a) + 2 ^ 32 - k"
    by (simp add: diff_diff_eq)
  then show ?thesis using assms(1) by (simp add: span_iff)
qed simp

lemma span4: "span a 4 = {a, a + 1, a + 2, a + 3}"
  by (simp add: span_Suc numeral_eq_Suc add.assoc)

lemma in_span_offset:
  assumes "n \<le> 2 ^ 32" "i < n"
  shows "a + of_nat i \<in> span a n"
  using assms by (simp add: span_iff unat_of_nat take_bit_eq_mod)

section \<open>Little-endian access to memory\<close>

definition rd32 :: "memory \<Rightarrow> u32 \<Rightarrow> u32" where
  "rd32 m a = ucast (m a) OR push_bit 8 (ucast (m (a + 1)))
     OR push_bit 16 (ucast (m (a + 2))) OR push_bit 24 (ucast (m (a + 3)))"

definition wr32 :: "memory \<Rightarrow> u32 \<Rightarrow> u32 \<Rightarrow> memory" where
  "wr32 m a v = m(a := ucast v, a + 1 := ucast (drop_bit 8 v),
     a + 2 := ucast (drop_bit 16 v), a + 3 := ucast (drop_bit 24 v))"

definition rd16 :: "memory \<Rightarrow> u32 \<Rightarrow> u16" where
  "rd16 m a = ucast (m a) OR push_bit 8 (ucast (m (a + 1)))"

definition wr16 :: "memory \<Rightarrow> u32 \<Rightarrow> u16 \<Rightarrow> memory" where
  "wr16 m a v = m(a := ucast v, a + 1 := ucast (drop_bit 8 v))"

definition rd64 :: "memory \<Rightarrow> u32 \<Rightarrow> u64" where
  "rd64 m a = ucast (rd32 m a) OR push_bit 32 (ucast (rd32 m (a + 4)))"

lemma rd32_wr32_same [simp, mem_simps]: "rd32 (wr32 m a v) a = v"
proof -
  have ne: "a + 1 \<noteq> a" "a + 2 \<noteq> a" "a + 3 \<noteq> a" "a + 2 \<noteq> a + 1" "a + 3 \<noteq> a + 1" "a + 3 \<noteq> a + 2"
    "a \<noteq> a + 1" "a \<noteq> a + 2" "a \<noteq> a + 3" "a + 1 \<noteq> a + 2" "a + 1 \<noteq> a + 3" "a + 2 \<noteq> a + 3"
    by simp_all
  let ?w = "ucast (ucast v :: u8) OR push_bit 8 (ucast (ucast (drop_bit 8 v) :: u8))
     OR push_bit 16 (ucast (ucast (drop_bit 16 v) :: u8))
     OR push_bit 24 (ucast (ucast (drop_bit 24 v) :: u8)) :: u32"
  have "rd32 (wr32 m a v) a = ?w"
    by (simp add: rd32_def wr32_def)
  also have "?w = v"
  proof (rule bit_word_eqI)
    fix n assume "n < LENGTH(32)"
    then consider "n < 8" | "8 \<le> n" "n < 16" | "16 \<le> n" "n < 24" | "24 \<le> n" "n < 32"
      by fastforce
    then show "bit ?w n = bit v n"
      by cases (auto simp: bit_simps)
  qed
  finally show ?thesis .
qed

lemma wr32_other: "x \<notin> span a 4 \<Longrightarrow> wr32 m a v x = m x"
  by (auto simp: wr32_def span4)

lemma rd32_cong: "(\<And>x. x \<in> span a 4 \<Longrightarrow> m x = m' x) \<Longrightarrow> rd32 m a = rd32 m' a"
  by (auto simp: rd32_def span4)

lemma rd32_wr32_disjoint [mem_simps]:
  "span a 4 \<inter> span b 4 = {} \<Longrightarrow> rd32 (wr32 m b v) a = rd32 m a"
  by (rule rd32_cong) (auto intro: wr32_other)

lemma rd32_fun_upd_other [mem_simps]: "b \<notin> span a 4 \<Longrightarrow> rd32 (m(b := v)) a = rd32 m a"
  by (rule rd32_cong) auto

lemma rd16_wr16_same [simp, mem_simps]: "rd16 (wr16 m a v) a = v"
proof -
  have "rd16 (wr16 m a v) a = ucast (ucast v :: u8) OR push_bit 8 (ucast (ucast (drop_bit 8 v) :: u8))"
    by (simp add: rd16_def wr16_def)
  also have "\<dots> = v" by (rule bit_word_eqI) (auto simp: bit_simps)
  finally show ?thesis .
qed

section \<open>Frames\<close>

text \<open>\<open>m'\<close> agrees with \<open>m\<close> on every address outside \<open>A\<close>.\<close>

definition only_changes :: "u32 set \<Rightarrow> memory \<Rightarrow> memory \<Rightarrow> bool" where
  "only_changes A m m' \<longleftrightarrow> (\<forall>x. x \<notin> A \<longrightarrow> m' x = m x)"

lemma only_changes_refl [simp, intro]: "only_changes A m m"
  by (simp add: only_changes_def)

lemma only_changes_trans:
  "only_changes A m m' \<Longrightarrow> only_changes B m' m'' \<Longrightarrow> only_changes (A \<union> B) m m''"
  by (simp add: only_changes_def)

lemma only_changes_mono: "only_changes A m m' \<Longrightarrow> A \<subseteq> B \<Longrightarrow> only_changes B m m'"
  by (auto simp: only_changes_def)

lemma only_changesD: "only_changes A m m' \<Longrightarrow> x \<notin> A \<Longrightarrow> m' x = m x"
  by (simp add: only_changes_def)

lemma only_changes_rd32:
  "only_changes A m m' \<Longrightarrow> span a 4 \<inter> A = {} \<Longrightarrow> rd32 m' a = rd32 m a"
  by (rule rd32_cong) (auto simp: only_changes_def)

lemma only_changes_wr32: "span a 4 \<subseteq> A \<Longrightarrow> only_changes A m (wr32 m a v)"
  by (auto simp: only_changes_def intro: wr32_other)

lemma only_changes_upd: "a \<in> A \<Longrightarrow> only_changes A m (m(a := v))"
  by (auto simp: only_changes_def)

section \<open>Loops over page addresses\<close>

text \<open>
  The C loop \<open>for (uint32_t addr = a; addr < e; addr += 4096) body\<close>.  The
  counter is a 32-bit integer, so the loop does not end when \<open>addr\<close> wraps
  before it reaches \<open>e\<close>; \<open>None\<close> is that case.
\<close>

partial_function (option) page_loop ::
  "(u32 \<Rightarrow> 's \<Rightarrow> 's) \<Rightarrow> u32 \<Rightarrow> u32 \<Rightarrow> 's \<Rightarrow> 's option" where
  "page_loop body a e s =
     (if a < e then page_loop body (a + 4096) e (body a s) else Some s)"

text \<open>The addresses the loop visits when it does not wrap.\<close>

definition page_count :: "u32 \<Rightarrow> u32 \<Rightarrow> nat" where
  "page_count a e = (unat e - unat a + 4095) div 4096"

definition page_seq :: "u32 \<Rightarrow> u32 \<Rightarrow> u32 list" where
  "page_seq a e = map (\<lambda>i. a + of_nat i * 4096) [0..<page_count a e]"

lemma page_seq_Nil: "\<not> a < e \<Longrightarrow> page_seq a e = []"
  by (simp add: page_seq_def page_count_def word_less_nat_alt)

lemma ceil_div_step:
  assumes "0 < (d :: nat)"
  shows "(d + 4095) div 4096 = Suc ((d - 4096 + 4095) div 4096)"
proof (cases "4096 \<le> d")
  case True
  then show ?thesis by (simp add: le_div_geq)
next
  case False
  with assms show ?thesis by (simp add: le_div_geq)
qed

lemma page_seq_Cons:
  assumes "a < e" "unat e + 4095 < 2 ^ 32"
  shows "page_seq a e = a # page_seq (a + 4096) e"
proof -
  have lt: "unat a < unat e" using assms(1) by (simp add: word_less_nat_alt)
  then have ua: "unat (a + 4096) = unat a + 4096"
    using assms(2) by (subst unat_plus_simple [THEN iffD1]) (auto simp: no_olen_add_nat)
  have "page_count a e = Suc (page_count (a + 4096) e)"
    using ceil_div_step [of "unat e - unat a"] lt by (simp add: page_count_def ua)
  moreover have "[0..<Suc n] = 0 # map Suc [0..<n]" for n
    by (simp add: upt_conv_Cons map_Suc_upt del: upt_Suc)
  ultimately show ?thesis
    by (simp add: page_seq_def algebra_simps del: upt_Suc)
qed

lemma page_loop_fold:
  assumes "unat e + 4095 < 2 ^ 32"
  shows "page_loop body a e s = Some (fold body (page_seq a e) s)"
proof (induction "unat e - unat a" arbitrary: a s rule: less_induct)
  case less
  show ?case
  proof (cases "a < e")
    case True
    then have lt: "unat a < unat e" by (simp add: word_less_nat_alt)
    then have "unat (a + 4096) = unat a + 4096"
      using assms by (subst unat_plus_simple [THEN iffD1]) (auto simp: no_olen_add_nat)
    then have "unat e - unat (a + 4096) < unat e - unat a" using lt by simp
    from less [OF this] show ?thesis
      using True by (simp add: page_loop.simps [of body a] page_seq_Cons [OF True assms])
  next
    case False
    then show ?thesis by (simp add: page_loop.simps page_seq_Nil)
  qed
qed

lemma set_page_seq:
  assumes "x \<in> set (page_seq a e)" "unat e + 4095 < 2 ^ 32"
  shows "\<exists>i. unat x = unat a + 4096 * i \<and> unat x < unat e"
proof -
  from assms(1) obtain i where i: "i < page_count a e" "x = a + of_nat i * 4096"
    by (auto simp: page_seq_def)
  have *: "unat a + 4096 * i < unat e" using i(1) unfolding page_count_def by linarith
  have "x = of_nat (unat a + 4096 * i)" using i(2) by (simp add: algebra_simps)
  then have "unat x = unat a + 4096 * i"
    using * by (simp only: unat_of_nat) (simp add: less_trans [OF _ unat_bound32])
  with * show ?thesis by auto
qed

lemma page_seqI:
  assumes "unat x = unat a + 4096 * i" "unat x < unat e"
  shows "x \<in> set (page_seq a e)"
proof -
  have "i < page_count a e" using assms unfolding page_count_def by linarith
  moreover have "x = of_nat (unat a + 4096 * i)" by (simp flip: assms(1))
  then have "x = a + of_nat i * 4096" by (simp add: algebra_simps)
  ultimately show ?thesis by (auto simp: page_seq_def)
qed

text \<open>A loop whose body may be undefined: run it on each element, stop at \<open>None\<close>.\<close>

primrec for_each :: "('a \<Rightarrow> 's \<Rightarrow> 's option) \<Rightarrow> 'a list \<Rightarrow> 's \<Rightarrow> 's option" where
  "for_each f [] s = Some s"
| "for_each f (x # xs) s = Option.bind (f x s) (for_each f xs)"

lemma for_each_Some:
  "(\<And>x s. x \<in> set xs \<Longrightarrow> f x s = Some (g x s)) \<Longrightarrow> for_each f xs s = Some (fold g xs s)"
  by (induction xs arbitrary: s) auto

section \<open>Physical pages\<close>

text \<open>The addresses of page frame \<open>i\<close>.\<close>

definition page_span :: "nat \<Rightarrow> u32 set" where
  "page_span i = span (of_nat (i * 4096)) 4096"

lemma unat_page_addr: "i < 2 ^ 20 \<Longrightarrow> unat (of_nat (i * 4096) :: u32) = i * 4096"
  by (rule unat_of_nat32) simp

lemma page_span_iff: "i < 2 ^ 20 \<Longrightarrow> x \<in> page_span i \<longleftrightarrow> unat x div 4096 = i"
  unfolding page_span_def
  by (subst span_nowrap; simp only: unat_page_addr) auto

lemma page_span_disjoint: "i < 2 ^ 20 \<Longrightarrow> j < 2 ^ 20 \<Longrightarrow> i \<noteq> j \<Longrightarrow> page_span i \<inter> page_span j = {}"
  by (auto simp: page_span_iff)

end
