(* ===== verification/Hal.thy ===== *)
theory Hal
  imports Prelude
begin

text \<open>
  The hardware abstraction of \<open>core/hal.c\<close>.  The record \<open>hw\<close> is the
  machine the kernel runs on: physical memory, the log of port accesses (oldest
  first), the control state the kernel changes, and the devices.  A device is
  not code of the repository: \<open>dev8\<close> and \<open>dev32\<close> are arbitrary
  functions that answer a port read from the whole history of port accesses.
  No operation of the model writes them.  Undefined behaviour of the C code is
  the value \<open>None\<close>.
\<close>

section \<open>The machine\<close>

datatype io_event = OutB u16 u8 | InB u16 u8 | OutL u16 u32 | InL u16 u32 | Hlt

record hw =
  mem :: memory
  iolog :: "io_event list"
  dev8 :: "io_event list \<Rightarrow> u16 \<Rightarrow> u8"
  dev32 :: "io_event list \<Rightarrow> u16 \<Rightarrow> u32"
  cr3 :: u32
  paging_on :: bool
  interrupts_on :: bool

definition log_io :: "io_event \<Rightarrow> 'a hw_scheme \<Rightarrow> 'a hw_scheme" where
  "log_io e s = s\<lparr>iolog := iolog s @ [e]\<rparr>"

definition x86Cli :: "'a hw_scheme \<Rightarrow> 'a hw_scheme" where
  "x86Cli s = s\<lparr>interrupts_on := False\<rparr>"

definition x86Sti :: "'a hw_scheme \<Rightarrow> 'a hw_scheme" where
  "x86Sti s = s\<lparr>interrupts_on := True\<rparr>"

definition Halt :: "'a hw_scheme \<Rightarrow> 'a hw_scheme" where
  "Halt s = log_io Hlt s"

definition x86write :: "u16 \<Rightarrow> u8 \<Rightarrow> 'a hw_scheme \<Rightarrow> 'a hw_scheme" where
  "x86write port val s = log_io (OutB port val) s"

definition x86read :: "u16 \<Rightarrow> 'a hw_scheme \<Rightarrow> u8 \<times> 'a hw_scheme" where
  "x86read port s = (let ret = dev8 s (iolog s) port in (ret, log_io (InB port ret) s))"

definition x86WriteL :: "u16 \<Rightarrow> u32 \<Rightarrow> 'a hw_scheme \<Rightarrow> 'a hw_scheme" where
  "x86WriteL port value s = log_io (OutL port value) s"

definition x86ReadL :: "u16 \<Rightarrow> 'a hw_scheme \<Rightarrow> u32 \<times> 'a hw_scheme" where
  "x86ReadL port s = (let ret = dev32 s (iolog s) port in (ret, log_io (InL port ret) s))"

definition x86IO_wait :: "'a hw_scheme \<Rightarrow> 'a hw_scheme" where
  "x86IO_wait s = log_io (OutB 0x80 0) s"

definition EnablePaging :: "u32 \<Rightarrow> 'a hw_scheme \<Rightarrow> 'a hw_scheme" where
  "EnablePaging addr s = s\<lparr>cr3 := addr, paging_on := True\<rparr>"

lemmas hw_io_defs = log_io_def x86write_def x86read_def x86WriteL_def x86ReadL_def
  x86IO_wait_def Halt_def Let_def

section \<open>Interrupt masks\<close>

abbreviation (input) PIC1_CMD :: u16 where "PIC1_CMD \<equiv> 0x20"
abbreviation (input) PIC1_DATA :: u16 where "PIC1_DATA \<equiv> 0x21"
abbreviation (input) PIC2_CMD :: u16 where "PIC2_CMD \<equiv> 0xA0"
abbreviation (input) PIC2_DATA :: u16 where "PIC2_DATA \<equiv> 0xA1"
abbreviation (input) PIC_EOI :: u8 where "PIC_EOI \<equiv> 0x20"

text \<open>The choice of port and bit that both mask functions make.\<close>

definition irq_port :: "u32 \<Rightarrow> u16 \<times> u32" where
  "irq_port irq_line = (if irq_line < 8 then (PIC1_DATA, irq_line) else (PIC2_DATA, irq_line - 8))"

definition x86IRQ_setmask :: "u32 \<Rightarrow> 'a hw_scheme \<Rightarrow> 'a hw_scheme" where
  "x86IRQ_setmask irq_line s =
     (if irq_line > 15 then s
      else let (port, line) = irq_port irq_line;
               (v, s1) = x86read port s;
               value = v OR push_bit (unat line) 1
           in x86write port value s1)"

text \<open>Without the range check a shift by 32 or more is reached: undefined in C.\<close>

definition x86IRQ_clearmask :: "u32 \<Rightarrow> 'a hw_scheme \<Rightarrow> 'a hw_scheme option" where
  "x86IRQ_clearmask irq_line s =
     (let (port, line) = irq_port irq_line
      in if line \<ge> 32 then None
         else let (v, s1) = x86read port s;
                  value = v AND NOT (push_bit (unat line) 1)
              in Some (x86write port value s1))"

section \<open>What the log says\<close>

text \<open>The byte last written to a port.\<close>

fun last_out :: "u16 \<Rightarrow> io_event list \<Rightarrow> u8 option" where
  "last_out p [] = None"
| "last_out p (e # es) =
     (case last_out p es of
        Some v \<Rightarrow> Some v
      | None \<Rightarrow> (case e of OutB q v \<Rightarrow> if q = p then Some v else None | _ \<Rightarrow> None))"

lemma last_out_append:
  "last_out p (xs @ ys) = (case last_out p ys of Some v \<Rightarrow> Some v | None \<Rightarrow> last_out p xs)"
  by (induction xs) (auto split: option.splits)

lemma last_out_snoc [simp]:
  "last_out p (xs @ [OutB q v]) = (if q = p then Some v else last_out p xs)"
  "last_out p (xs @ [InB q v]) = last_out p xs"
  "last_out p (xs @ [OutL q w]) = last_out p xs"
  "last_out p (xs @ [InL q w]) = last_out p xs"
  "last_out p (xs @ [Hlt]) = last_out p xs"
  by (simp_all add: last_out_append)

text \<open>
  Documented behaviour of the two 8259 interrupt controllers: once a mask has
  been written to a data port, reading that port returns it.
\<close>

definition pic_reads_back :: "'a hw_scheme \<Rightarrow> bool" where
  "pic_reads_back s \<longleftrightarrow> (\<forall>log p v. (p = PIC1_DATA \<or> p = PIC2_DATA) \<longrightarrow>
     last_out p log = Some v \<longrightarrow> dev8 s log p = v)"

text \<open>The mask a controller holds, read off the log.\<close>

definition irq_masked :: "'a hw_scheme \<Rightarrow> u32 \<Rightarrow> bool" where
  "irq_masked s irq_line = (let (port, line) = irq_port irq_line in
     case last_out port (iolog s) of Some v \<Rightarrow> bit v (unat line) | None \<Rightarrow> False)"

lemma pic_reads_backD:
  "pic_reads_back s \<Longrightarrow> p = PIC1_DATA \<or> p = PIC2_DATA \<Longrightarrow> last_out p log = Some v \<Longrightarrow> dev8 s log p = v"
  unfolding pic_reads_back_def by blast

lemma irq_port_cases:
  assumes "irq_line \<le> 15"
  obtains (pic1) "irq_port irq_line = (PIC1_DATA, irq_line)" "irq_line < 8" "unat irq_line < 8"
  | (pic2) "irq_port irq_line = (PIC2_DATA, irq_line - 8)" "8 \<le> irq_line" "unat (irq_line - 8) < 8"
      "unat (irq_line - 8) = unat irq_line - 8"
proof (cases "irq_line < 8")
  case True
  then show thesis using pic1 by (simp add: irq_port_def word_less_nat_alt)
next
  case False
  then have "8 \<le> unat irq_line" by (simp add: word_less_nat_alt)
  moreover have "unat irq_line \<le> 15" using assms by (simp add: word_le_nat_alt)
  moreover have "unat (irq_line - 8) = unat irq_line - 8"
    using False by (simp add: unat_sub linorder_not_less)
  ultimately show thesis using pic2 False by (simp add: irq_port_def)
qed

section \<open>Concrete machines\<close>

text \<open>A machine with empty memory and given devices, before any port access.\<close>

definition machine0 :: "(io_event list \<Rightarrow> u16 \<Rightarrow> u8) \<Rightarrow> hw" where
  "machine0 d = \<lparr>mem = (\<lambda>_. 0), iolog = [], dev8 = d, dev32 = (\<lambda>_ _. 0),
     cr3 = 0, paging_on = False, interrupts_on = False\<rparr>"

text \<open>Devices that answer a read with the byte last written to the port.\<close>

definition latch :: "io_event list \<Rightarrow> u16 \<Rightarrow> u8" where
  "latch log p = (case last_out p log of Some v \<Rightarrow> v | None \<Rightarrow> 0)"

lemma machine0_simps [simp]:
  "mem (machine0 d) = (\<lambda>_. 0)" "iolog (machine0 d) = []" "dev8 (machine0 d) = d"
  by (simp_all add: machine0_def)

lemma pic_reads_back_latch: "dev8 s = latch \<Longrightarrow> pic_reads_back s"
  by (simp add: pic_reads_back_def latch_def)

end
