(* ===== verification/Pic.thy ===== *)
theory Pic
  imports Hal
begin

text \<open>
  The 8259 interrupt controllers, \<open>core/io/pic.c\<close>: the initialisation
  sequence, end-of-interrupt and the status registers.  The facts say exactly
  which bytes reach which port, and what the mask functions of
  \<open>core/hal.c\<close> do to a controller that reads back its mask.
\<close>

section \<open>Operations\<close>

abbreviation (input) ICW1_ICW4 :: u8 where "ICW1_ICW4 \<equiv> 0x01"
abbreviation (input) ICW1_INIT :: u8 where "ICW1_INIT \<equiv> 0x10"
abbreviation (input) ICW4_8086 :: u8 where "ICW4_8086 \<equiv> 0x01"
abbreviation (input) PIC_READ_IRR :: u8 where "PIC_READ_IRR \<equiv> 0x0a"
abbreviation (input) PIC_READ_ISR :: u8 where "PIC_READ_ISR \<equiv> 0x0b"

definition pic_remap :: "u32 \<Rightarrow> u32 \<Rightarrow> 'a hw_scheme \<Rightarrow> 'a hw_scheme" where
  "pic_remap offset1 offset2 s0 = (let
     s = x86write PIC1_CMD (ICW1_INIT OR ICW1_ICW4) s0;
     s = x86IO_wait s;
     s = x86write PIC2_CMD (ICW1_INIT OR ICW1_ICW4) s;
     s = x86IO_wait s;
     s = x86write PIC1_DATA (ucast offset1) s;
     s = x86IO_wait s;
     s = x86write PIC2_DATA (ucast offset2) s;
     s = x86IO_wait s;
     s = x86write PIC1_DATA (push_bit 2 1) s;
     s = x86IO_wait s;
     s = x86write PIC2_DATA 2 s;
     s = x86IO_wait s;
     s = x86write PIC1_DATA ICW4_8086 s;
     s = x86IO_wait s;
     s = x86write PIC2_DATA ICW4_8086 s;
     s = x86IO_wait s;
     s = x86write PIC1_DATA 0xFB s;
     s = x86write PIC2_DATA 0xFF s
   in s)"

definition pic_disable :: "'a hw_scheme \<Rightarrow> 'a hw_scheme" where
  "pic_disable s = x86write PIC2_DATA 0xFF (x86write PIC1_DATA 0xFF s)"

definition pic_send_eoi :: "u8 \<Rightarrow> 'a hw_scheme \<Rightarrow> 'a hw_scheme" where
  "pic_send_eoi irq s =
     x86write PIC1_CMD PIC_EOI (if irq \<ge> 8 then x86write PIC2_CMD PIC_EOI s else s)"

text \<open>
  C leaves the order of the two reads open; the model reads the second
  controller first, as the expression is written.
\<close>

definition pic_get_irq_reg :: "u8 \<Rightarrow> 'a hw_scheme \<Rightarrow> u16 \<times> 'a hw_scheme" where
  "pic_get_irq_reg ocw3 s = (let
     s1 = x86write PIC1_CMD ocw3 s;
     s2 = x86write PIC2_CMD ocw3 s1;
     (hi, s3) = x86read PIC2_CMD s2;
     (lo, s4) = x86read PIC1_CMD s3
   in (push_bit 8 (ucast hi) OR ucast lo, s4))"

definition pic_get_irr :: "'a hw_scheme \<Rightarrow> u16 \<times> 'a hw_scheme" where
  "pic_get_irr = pic_get_irq_reg PIC_READ_IRR"

definition pic_get_isr :: "'a hw_scheme \<Rightarrow> u16 \<times> 'a hw_scheme" where
  "pic_get_isr = pic_get_irq_reg PIC_READ_ISR"

definition pic_init :: "'a hw_scheme \<Rightarrow> 'a hw_scheme" where
  "pic_init = pic_remap 0x20 0x28"

section \<open>Facts\<close>

lemma pic_init_state:
  "pic_init s = s\<lparr>iolog := iolog s @ [
     OutB PIC1_CMD 0x11, OutB 0x80 0, OutB PIC2_CMD 0x11, OutB 0x80 0,
     OutB PIC1_DATA 0x20, OutB 0x80 0, OutB PIC2_DATA 0x28, OutB 0x80 0,
     OutB PIC1_DATA 4, OutB 0x80 0, OutB PIC2_DATA 2, OutB 0x80 0,
     OutB PIC1_DATA 1, OutB 0x80 0, OutB PIC2_DATA 1, OutB 0x80 0,
     OutB PIC1_DATA 0xFB, OutB PIC2_DATA 0xFF]\<rparr>"
  by (simp add: pic_init_def pic_remap_def hw_io_defs)

lemma pic_init_masks:
  "last_out PIC1_DATA (iolog (pic_init s)) = Some 0xFB"
  "last_out PIC2_DATA (iolog (pic_init s)) = Some 0xFF"
  by (simp_all add: pic_init_state last_out_append)

lemma pic_send_eoi_log:
  "pic_send_eoi irq s = s\<lparr>iolog := iolog s @
     (if irq \<ge> 8 then [OutB PIC2_CMD PIC_EOI] else []) @ [OutB PIC1_CMD PIC_EOI]\<rparr>"
  by (simp add: pic_send_eoi_def hw_io_defs)

lemma setmask_state:
  assumes "pic_reads_back s" "irq_line \<le> 15" "irq_port irq_line = (p, l)"
    and "last_out p (iolog s) = Some v"
  shows "x86IRQ_setmask irq_line s =
    s\<lparr>iolog := iolog s @ [InB p v, OutB p (v OR push_bit (unat l) 1)]\<rparr>"
proof -
  have "p = PIC1_DATA \<or> p = PIC2_DATA" using assms(3) by (auto simp: irq_port_def split: if_splits)
  then have "dev8 s (iolog s) p = v" using pic_reads_backD [OF assms(1) _ assms(4)] by blast
  then show ?thesis using assms(2,3) by (simp add: x86IRQ_setmask_def hw_io_defs)
qed

lemma clearmask_state:
  assumes "pic_reads_back s" "irq_line \<le> 15" "irq_port irq_line = (p, l)"
    and "last_out p (iolog s) = Some v"
  shows "x86IRQ_clearmask irq_line s =
    Some (s\<lparr>iolog := iolog s @ [InB p v, OutB p (v AND NOT (push_bit (unat l) 1))]\<rparr>)"
proof -
  have "p = PIC1_DATA \<or> p = PIC2_DATA" using assms(3) by (auto simp: irq_port_def split: if_splits)
  then have "dev8 s (iolog s) p = v" using pic_reads_backD [OF assms(1) _ assms(4)] by blast
  moreover have "\<not> l \<ge> 32"
    using assms(2) by (rule irq_port_cases) (use assms(3) in \<open>auto simp: word_le_nat_alt\<close>)
  ultimately show ?thesis using assms(3) by (simp add: x86IRQ_clearmask_def hw_io_defs)
qed

text \<open>Both controllers have been given a mask.\<close>

definition pic_ready :: "'a hw_scheme \<Rightarrow> bool" where
  "pic_ready s \<longleftrightarrow> pic_reads_back s \<and>
     last_out PIC1_DATA (iolog s) \<noteq> None \<and> last_out PIC2_DATA (iolog s) \<noteq> None"

lemma pic_ready_port:
  assumes "pic_ready s" "irq_port n = (p, l)"
  obtains v where "last_out p (iolog s) = Some v"
  using assms by (auto simp: pic_ready_def irq_port_def split: if_splits)

lemma irq_port_inj:
  assumes "n \<le> 15" "k \<le> 15" "irq_port n = (p, l)" "irq_port k = (p, j)"
  shows "unat l = unat j \<longleftrightarrow> n = k"
  using assms(3,4) unfolding word_unat_eq_iff [symmetric]
  by (auto simp: irq_port_def split: if_splits)

text \<open>After a mask write, what the log says about any line.\<close>

lemma irq_masked_after_write:
  assumes "irq_port n = (p, l)" "n \<le> 15" "k \<le> 15"
    and "iolog s' = iolog s @ [InB p v, OutB p w]" "last_out p (iolog s) = Some v"
    and "\<And>i. i < 8 \<Longrightarrow> bit w i \<longleftrightarrow> (if i = unat l then b else bit v i)"
  shows "irq_masked s' k \<longleftrightarrow> (if k = n then b else irq_masked s k)"
proof -
  obtain q j where kp: "irq_port k = (q, j)" by fastforce
  have j8: "unat j < 8" using assms(3) by (rule irq_port_cases) (use kp in auto)
  show ?thesis
  proof (cases "q = p")
    case True
    have "unat j = unat l \<longleftrightarrow> k = n"
      using irq_port_inj [OF assms(3,2)] kp assms(1) True by blast
    then show ?thesis
      using True kp assms(1,5) assms(6) [OF j8]
      by (simp add: irq_masked_def assms(4) last_out_append)
  next
    case False
    then have "k \<noteq> n" using kp assms(1) by auto
    then show ?thesis using False kp by (simp add: irq_masked_def assms(4) last_out_append)
  qed
qed

lemma setmask_masked:
  assumes "pic_ready s" "n \<le> 15" "k \<le> 15"
  shows "irq_masked (x86IRQ_setmask n s) k \<longleftrightarrow> k = n \<or> irq_masked s k"
proof -
  obtain p l where pl: "irq_port n = (p, l)" by fastforce
  obtain v where v: "last_out p (iolog s) = Some v" using pic_ready_port [OF assms(1) pl] .
  have "unat l < 8" using assms(2) by (rule irq_port_cases) (use pl in auto)
  then have *: "bit (v OR push_bit (unat l) 1) i \<longleftrightarrow> (if i = unat l then True else bit v i)"
    if "i < 8" for i using that by (auto simp: bit_simps)
  have "x86IRQ_setmask n s =
      s\<lparr>iolog := iolog s @ [InB p v, OutB p (v OR push_bit (unat l) 1)]\<rparr>"
    using assms(1) setmask_state [OF _ assms(2) pl v] by (simp add: pic_ready_def)
  then have "iolog (x86IRQ_setmask n s) = iolog s @ [InB p v, OutB p (v OR push_bit (unat l) 1)]"
    by simp
  from irq_masked_after_write [OF pl assms(2,3) this v *] show ?thesis by auto
qed

lemma clearmask_masked:
  assumes "pic_ready s" "n \<le> 15" "k \<le> 15"
  obtains s' where "x86IRQ_clearmask n s = Some s'"
    "irq_masked s' k \<longleftrightarrow> k \<noteq> n \<and> irq_masked s k"
proof -
  obtain p l where pl: "irq_port n = (p, l)" by fastforce
  obtain v where v: "last_out p (iolog s) = Some v" using pic_ready_port [OF assms(1) pl] .
  let ?w = "v AND NOT (push_bit (unat l) 1)"
  have "unat l < 8" using assms(2) by (rule irq_port_cases) (use pl in auto)
  then have *: "bit ?w i \<longleftrightarrow> (if i = unat l then False else bit v i)"
    if "i < 8" for i using that by (auto simp: bit_simps)
  let ?s' = "s\<lparr>iolog := iolog s @ [InB p v, OutB p ?w]\<rparr>"
  have eq: "x86IRQ_clearmask n s = Some ?s'"
    using assms(1) clearmask_state [OF _ assms(2) pl v] by (simp add: pic_ready_def)
  have "iolog ?s' = iolog s @ [InB p v, OutB p ?w]" by simp
  from irq_masked_after_write [OF pl assms(2,3) this v *] eq that show thesis by auto
qed

section \<open>Properties\<close>

text \<open>
  Mask functions: on initialised controllers that read back their masks,
  \<open>x86IRQ_setmask\<close> masks exactly the line it is given and
  \<open>x86IRQ_clearmask\<close> unmasks exactly that line; the other fifteen lines
  keep their masks.
\<close>

theorem mask_functions_touch_one_line:
  assumes "pic_ready s" "n \<le> 15" "k \<le> 15"
  shows "(irq_masked (x86IRQ_setmask n s) k \<longleftrightarrow> k = n \<or> irq_masked s k) \<and>
    (\<exists>s'. x86IRQ_clearmask n s = Some s' \<and> (irq_masked s' k \<longleftrightarrow> k \<noteq> n \<and> irq_masked s k))"
  using setmask_masked [OF assms] clearmask_masked [OF assms] by metis

theorem mask_functions_touch_one_line_witness:
  "\<exists>s :: hw. pic_ready s \<and> irq_masked s 12 \<and> (\<exists>s'. x86IRQ_clearmask 12 s = Some s' \<and> \<not> irq_masked s' 12)"
proof -
  let ?s = "pic_init (machine0 latch)"
  have ready: "pic_ready ?s"
    using pic_init_masks [of "machine0 latch"]
    by (simp add: pic_ready_def pic_reads_back_latch pic_init_state)
  have "irq_masked ?s 12"
    by (simp add: irq_masked_def irq_port_def pic_init_masks)
  then show ?thesis
    using ready mask_functions_touch_one_line [OF ready, of 12 12] by auto
qed

text \<open>
  Range of the mask functions: a line above 15 leaves the controllers alone
  in \<open>x86IRQ_setmask\<close>; \<open>x86IRQ_clearmask\<close> has no such check and writes to
  the second controller, or shifts by 32 or more (undefined).
\<close>

theorem clearmask_lacks_range_check:
  "(\<forall>n > 15. x86IRQ_setmask n s = s) \<and>
   (\<forall>n > 15. x86IRQ_clearmask n s = (if n \<ge> 40 then None
      else Some (x86write PIC2_DATA (fst (x86read PIC2_DATA s) AND NOT (push_bit (unat (n - 8)) 1))
        (snd (x86read PIC2_DATA s)))))"
proof (intro conjI allI impI)
  fix n :: u32 assume n: "n > 15"
  then show "x86IRQ_setmask n s = s" by (simp add: x86IRQ_setmask_def)
  have "\<not> n < 8" and u: "unat (n - 8) = unat n - 8"
    using n by (auto simp: word_less_nat_alt unat_sub word_le_nat_alt)
  then have port: "irq_port n = (PIC2_DATA, n - 8)" by (simp add: irq_port_def)
  have "n - 8 \<ge> 32 \<longleftrightarrow> n \<ge> 40" using u n by (auto simp: word_le_nat_alt word_less_nat_alt)
  then show "x86IRQ_clearmask n s = (if n \<ge> 40 then None
      else Some (x86write PIC2_DATA (fst (x86read PIC2_DATA s) AND NOT (push_bit (unat (n - 8)) 1))
        (snd (x86read PIC2_DATA s))))"
    by (simp add: x86IRQ_clearmask_def port split: prod.splits)
qed

theorem clearmask_lacks_range_check_witness:
  "(16 :: u32) > 15 \<and> x86IRQ_setmask 16 (machine0 latch) = machine0 latch \<and>
   x86IRQ_clearmask 40 (machine0 latch) = None"
  using clearmask_lacks_range_check [of "machine0 latch"] by simp

end
