(* ===== verification/Desc.thy ===== *)
theory Desc
  imports Hal
begin

text \<open>
  The descriptor tables of \<open>core/gdt.c\<close> and \<open>core/idt.c\<close>: the
  records are the packed C structures field by field, and the decoding functions
  are the processor's reading of a descriptor.  The facts say that the fields
  encode what the caller passed and what tables the two init functions leave.
\<close>

section \<open>Data\<close>

record gdt_entry =
  limit_low :: u16
  base_low :: u16
  base_middle :: u8
  access :: u8
  granularity :: u8
  base_high :: u8

record desc_ptr =
  dp_limit :: u16
  dp_base :: u32

record tss_entry =
  prev_tss :: u32
  esp0 :: u32
  ss0 :: u32
  esp1 :: u32
  ss1 :: u32
  esp2 :: u32
  ss2 :: u32
  t_cr3 :: u32
  t_eip :: u32
  t_eflags :: u32
  t_eax :: u32
  t_ecx :: u32
  t_edx :: u32
  t_ebx :: u32
  t_esp :: u32
  t_ebp :: u32
  t_esi :: u32
  t_edi :: u32
  t_es :: u32
  t_cs :: u32
  t_ss :: u32
  t_ds :: u32
  t_fs :: u32
  t_gs :: u32
  t_ldt :: u32
  t_trap :: u16
  iomap_base :: u16

record idt_entry =
  i_base_low :: u16
  selector :: u16
  always0 :: u8
  i_flags :: u8
  i_base_high :: u16

text \<open>
  The tables, and the processor registers that \<open>lgdt\<close>, \<open>ltr\<close> and
  \<open>lidt\<close> load (\<open>asm/gdt_stub.asm\<close>, \<open>asm/idt_stub.asm\<close>).
\<close>

record desc_state = hw +
  gdt :: "gdt_entry list"
  gdtp :: desc_ptr
  tss :: tss_entry
  idt :: "idt_entry list"
  idtp :: desc_ptr
  gdtr :: "desc_ptr option"
  tr :: "u16 option"
  idtr :: "desc_ptr option"

definition gdt_entry0 :: gdt_entry where
  "gdt_entry0 = \<lparr>limit_low = 0, base_low = 0, base_middle = 0, access = 0, granularity = 0, base_high = 0\<rparr>"

definition idt_entry0 :: idt_entry where
  "idt_entry0 = \<lparr>i_base_low = 0, selector = 0, always0 = 0, i_flags = 0, i_base_high = 0\<rparr>"

definition tss0 :: tss_entry where
  "tss0 = \<lparr>prev_tss = 0, esp0 = 0, ss0 = 0, esp1 = 0, ss1 = 0, esp2 = 0, ss2 = 0, t_cr3 = 0,
     t_eip = 0, t_eflags = 0, t_eax = 0, t_ecx = 0, t_edx = 0, t_ebx = 0, t_esp = 0, t_ebp = 0,
     t_esi = 0, t_edi = 0, t_es = 0, t_cs = 0, t_ss = 0, t_ds = 0, t_fs = 0, t_gs = 0, t_ldt = 0,
     t_trap = 0, iomap_base = 0\<rparr>"

definition sizeof_tss :: u32 where
  "sizeof_tss = 104"

section \<open>Operations of \<open>gdt.c\<close>\<close>

definition gdt_make :: "u32 \<Rightarrow> u32 \<Rightarrow> u8 \<Rightarrow> u8 \<Rightarrow> gdt_entry" where
  "gdt_make base limit acc gran = \<lparr>
     limit_low = ucast (limit AND 0xFFFF),
     base_low = ucast (base AND 0xFFFF),
     base_middle = ucast (drop_bit 16 base AND 0xFF),
     access = acc,
     granularity = ucast ((drop_bit 16 limit AND 0x0F) OR (ucast gran AND 0xF0)),
     base_high = ucast (drop_bit 24 base AND 0xFF)\<rparr>"

text \<open>An index outside the array of six is undefined in C.\<close>

definition gdt_set_gate ::
  "int \<Rightarrow> u32 \<Rightarrow> u32 \<Rightarrow> u8 \<Rightarrow> u8 \<Rightarrow> 'a desc_state_scheme \<Rightarrow> 'a desc_state_scheme option" where
  "gdt_set_gate num base limit acc gran s =
     (if 0 \<le> num \<and> num < int (length (gdt s))
      then Some (s\<lparr>gdt := (gdt s)[nat num := gdt_make base limit acc gran]\<rparr>)
      else None)"

definition tss_init ::
  "linker \<Rightarrow> u32 \<Rightarrow> u16 \<Rightarrow> u32 \<Rightarrow> 'a desc_state_scheme \<Rightarrow> 'a desc_state_scheme option" where
  "tss_init L idx ss0v esp0v s =
     map_option (\<lambda>s. s\<lparr>tss := (tss s)\<lparr>ss0 := ucast ss0v, esp0 := esp0v, t_cs := 0x0b,
          t_ss := 0x13, t_ds := 0x13, t_es := 0x13, t_fs := 0x13, t_gs := 0x13,
          iomap_base := ucast sizeof_tss\<rparr>\<rparr>)
       (gdt_set_gate (sint idx) (addr_tss L) (sizeof_tss - 1) 0x89 0x40 (s\<lparr>tss := tss0\<rparr>))"

definition set_kernel_stack :: "u32 \<Rightarrow> 'a desc_state_scheme \<Rightarrow> 'a desc_state_scheme" where
  "set_kernel_stack stack s = s\<lparr>tss := (tss s)\<lparr>esp0 := stack\<rparr>\<rparr>"

definition gdt_flush :: "'a desc_state_scheme \<Rightarrow> 'a desc_state_scheme" where
  "gdt_flush s = s\<lparr>gdtr := Some (gdtp s)\<rparr>"

definition tss_flush :: "'a desc_state_scheme \<Rightarrow> 'a desc_state_scheme" where
  "tss_flush s = s\<lparr>tr := Some 0x2B\<rparr>"

definition gdt_init :: "linker \<Rightarrow> 'a desc_state_scheme \<Rightarrow> 'a desc_state_scheme option" where
  "gdt_init L s = do {
     let s = s\<lparr>gdtp := \<lparr>dp_limit = 8 * 6 - 1, dp_base = addr_gdt L\<rparr>\<rparr>;
     s \<leftarrow> gdt_set_gate 0 0 0 0 0 s;
     s \<leftarrow> gdt_set_gate 1 0 0xFFFFFFFF 0x9A 0xCF s;
     s \<leftarrow> gdt_set_gate 2 0 0xFFFFFFFF 0x92 0xCF s;
     s \<leftarrow> gdt_set_gate 3 0 0xFFFFFFFF 0xFA 0xCF s;
     s \<leftarrow> gdt_set_gate 4 0 0xFFFFFFFF 0xF2 0xCF s;
     s \<leftarrow> tss_init L 5 0x10 0 s;
     Some (tss_flush (gdt_flush s))
   }"

section \<open>Operations of \<open>idt.c\<close>\<close>

definition idt_make :: "u32 \<Rightarrow> u16 \<Rightarrow> u8 \<Rightarrow> idt_entry" where
  "idt_make base sel flags = \<lparr>
     i_base_low = ucast (base AND 0xFFFF),
     selector = sel,
     always0 = 0,
     i_flags = flags,
     i_base_high = ucast (drop_bit 16 base AND 0xFFFF)\<rparr>"

definition idt_set_gate ::
  "u8 \<Rightarrow> u32 \<Rightarrow> u16 \<Rightarrow> u8 \<Rightarrow> 'a desc_state_scheme \<Rightarrow> 'a desc_state_scheme" where
  "idt_set_gate num base sel flags s = s\<lparr>idt := (idt s)[unat num := idt_make base sel flags]\<rparr>"

definition idt_load :: "'a desc_state_scheme \<Rightarrow> 'a desc_state_scheme" where
  "idt_load s = s\<lparr>idtr := Some (idtp s)\<rparr>"

definition idt_init :: "linker \<Rightarrow> 'a desc_state_scheme \<Rightarrow> 'a desc_state_scheme" where
  "idt_init L s0 = (let
     s = s0\<lparr>idtp := \<lparr>dp_limit = 8 * 256 - 1, dp_base = addr_idt L\<rparr>\<rparr>;
     s = s\<lparr>idt := replicate 256 idt_entry0\<rparr>;
     s = idt_set_gate 14 (page_fault_stub L) 0x08 0x8E s;
     s = idt_set_gate 32 (irq_stub L 0) 0x08 0x8E s;
     s = idt_set_gate 33 (irq_stub L 1) 0x08 0x8E s;
     s = idt_set_gate 34 (irq_stub L 2) 0x08 0x8E s;
     s = idt_set_gate 35 (irq_stub L 3) 0x08 0x8E s;
     s = idt_set_gate 36 (irq_stub L 4) 0x08 0x8E s;
     s = idt_set_gate 37 (irq_stub L 5) 0x08 0x8E s;
     s = idt_set_gate 38 (irq_stub L 6) 0x08 0x8E s;
     s = idt_set_gate 39 (irq_stub L 7) 0x08 0x8E s;
     s = idt_set_gate 40 (irq_stub L 8) 0x08 0x8E s;
     s = idt_set_gate 41 (irq_stub L 9) 0x08 0x8E s;
     s = idt_set_gate 42 (irq_stub L 10) 0x08 0x8E s;
     s = idt_set_gate 43 (irq_stub L 11) 0x08 0x8E s;
     s = idt_set_gate 44 (irq_stub L 12) 0x08 0x8E s;
     s = idt_set_gate 45 (irq_stub L 13) 0x08 0x8E s;
     s = idt_set_gate 46 (irq_stub L 14) 0x08 0x8E s;
     s = idt_set_gate 47 (irq_stub L 15) 0x08 0x8E s
   in idt_load s)"

section \<open>How the processor reads a descriptor\<close>

definition gdt_base :: "gdt_entry \<Rightarrow> u32" where
  "gdt_base e = ucast (base_low e) OR push_bit 16 (ucast (base_middle e))
     OR push_bit 24 (ucast (base_high e))"

definition gdt_limit :: "gdt_entry \<Rightarrow> u32" where
  "gdt_limit e = ucast (limit_low e) OR push_bit 16 (ucast (granularity e AND 0x0F))"

definition gdt_flags :: "gdt_entry \<Rightarrow> u8" where
  "gdt_flags e = granularity e AND 0xF0"

definition idt_offset :: "idt_entry \<Rightarrow> u32" where
  "idt_offset e = ucast (i_base_low e) OR push_bit 16 (ucast (i_base_high e))"

definition idt_present :: "idt_entry \<Rightarrow> bool" where
  "idt_present e \<longleftrightarrow> bit (i_flags e) 7"

section \<open>Facts\<close>

lemma low_mask_bits:
  "(0xFFFF :: u32) = mask 16" "(0xFF :: u32) = mask 8" "(0x0F :: u32) = mask 4"
  "(0x0F :: u8) = mask 4" "(0xFFFFF :: u32) = mask 20"
  by (simp_all add: mask_eq_exp_minus_1)

lemma high_mask_bits: "(0xF0 :: u32) = push_bit 4 (mask 4)" "(0xF0 :: u8) = push_bit 4 (mask 4)"
  by (simp_all add: mask_eq_exp_minus_1 push_bit_eq_mult)

lemma gdt_base_make: "gdt_base (gdt_make base limit acc gran) = base"
proof (rule bit_word_eqI)
  fix n assume "n < LENGTH(32)"
  then consider "n < 16" | "16 \<le> n" "n < 24" | "24 \<le> n" "n < 32" by fastforce
  then show "bit (gdt_base (gdt_make base limit acc gran)) n = bit base n"
    by cases (auto simp: gdt_base_def gdt_make_def low_mask_bits bit_simps)
qed

lemma gdt_limit_make: "gdt_limit (gdt_make base limit acc gran) = limit AND 0xFFFFF"
proof (rule bit_word_eqI)
  fix n assume "n < LENGTH(32)"
  then consider "n < 16" | "16 \<le> n" "n < 20" | "20 \<le> n" "n < 32" by fastforce
  then show "bit (gdt_limit (gdt_make base limit acc gran)) n = bit (limit AND 0xFFFFF) n"
    unfolding gdt_limit_def gdt_make_def low_mask_bits high_mask_bits
    by cases (auto simp: bit_simps)
qed

lemma gdt_flags_make: "gdt_flags (gdt_make base limit acc gran) = gran AND 0xF0"
proof (rule bit_word_eqI)
  fix n assume "n < LENGTH(8)"
  then consider "n < 4" | "4 \<le> n" "n < 8" by fastforce
  then show "bit (gdt_flags (gdt_make base limit acc gran)) n = bit (gran AND 0xF0) n"
    unfolding gdt_flags_def gdt_make_def low_mask_bits high_mask_bits
    by cases (auto simp: bit_simps)
qed

lemma idt_offset_make: "idt_offset (idt_make base sel flags) = base"
proof (rule bit_word_eqI)
  fix n assume "n < LENGTH(32)"
  then consider "n < 16" | "16 \<le> n" "n < 32" by fastforce
  then show "bit (idt_offset (idt_make base sel flags)) n = bit base n"
    by cases (auto simp: idt_offset_def idt_make_def low_mask_bits bit_simps)
qed

lemma gdt_make_access [simp]: "access (gdt_make base limit acc gran) = acc"
  by (simp add: gdt_make_def)

lemmas gdt_decode = gdt_base_make gdt_limit_make gdt_flags_make

lemma six_entries:
  assumes "length xs = 6"
  obtains a b c d e f where "xs = [a, b, c, d, e, f]"
  using assms by (auto simp: numeral_eq_Suc length_Suc_conv)

lemma gdt_init_table:
  assumes "length (gdt s) = 6"
  shows "gdt_init L s = Some (s\<lparr>
      gdt := [gdt_make 0 0 0 0, gdt_make 0 0xFFFFFFFF 0x9A 0xCF, gdt_make 0 0xFFFFFFFF 0x92 0xCF,
        gdt_make 0 0xFFFFFFFF 0xFA 0xCF, gdt_make 0 0xFFFFFFFF 0xF2 0xCF,
        gdt_make (addr_tss L) (sizeof_tss - 1) 0x89 0x40],
      gdtp := \<lparr>dp_limit = 47, dp_base = addr_gdt L\<rparr>,
      tss := tss0\<lparr>ss0 := 0x10, esp0 := 0, t_cs := 0x0b, t_ss := 0x13, t_ds := 0x13, t_es := 0x13,
        t_fs := 0x13, t_gs := 0x13, iomap_base := 104\<rparr>,
      gdtr := Some \<lparr>dp_limit = 47, dp_base = addr_gdt L\<rparr>,
      tr := Some 0x2B\<rparr>)"
proof -
  obtain a b c d e f where "gdt s = [a, b, c, d, e, f]" using assms by (rule six_entries)
  then show ?thesis
    by (simp add: gdt_init_def gdt_set_gate_def tss_init_def tss_flush_def gdt_flush_def sizeof_tss_def)
qed

lemma idt_init_entries:
  "idt (idt_init L s) = map (\<lambda>v. if v = 14 then idt_make (page_fault_stub L) 0x08 0x8E
     else if 32 \<le> v \<and> v < 48 then idt_make (irq_stub L (v - 32)) 0x08 0x8E else idt_entry0) [0..<256]"
  (is "?l = map ?f _")
proof (rule nth_equalityI)
  have len: "length ?l = 256"
    by (simp add: idt_init_def idt_set_gate_def idt_load_def Let_def)
  then show "length ?l = length (map ?f [0..<256])" by simp
  fix v assume "v < length ?l"
  then have v: "v < 256" by (simp add: len)
  have far: "v \<noteq> 14" "v \<noteq> 32" "v \<noteq> 33" "v \<noteq> 34" "v \<noteq> 35" "v \<noteq> 36" "v \<noteq> 37" "v \<noteq> 38" "v \<noteq> 39"
    "v \<noteq> 40" "v \<noteq> 41" "v \<noteq> 42" "v \<noteq> 43" "v \<noteq> 44" "v \<noteq> 45" "v \<noteq> 46" "v \<noteq> 47"
    if "v \<noteq> 14 \<and> \<not> (32 \<le> v \<and> v < 48)" using that by auto
  have *: "v = 14 \<or> v = 32 \<or> v = 33 \<or> v = 34 \<or> v = 35 \<or> v = 36 \<or> v = 37 \<or> v = 38 \<or> v = 39 \<or>
    v = 40 \<or> v = 41 \<or> v = 42 \<or> v = 43 \<or> v = 44 \<or> v = 45 \<or> v = 46 \<or> v = 47 \<or>
    v \<noteq> 14 \<and> \<not> (32 \<le> v \<and> v < 48)" by arith
  have "?l ! v = ?f v"
    using * v
    by (elim disjE) (auto simp: far idt_init_def idt_set_gate_def idt_load_def Let_def nth_list_update)
  then show "?l ! v = map ?f [0..<256] ! v" using v by simp
qed

section \<open>Boot state\<close>

text \<open>The tables before initialisation: objects with static storage start as zero.\<close>

definition desc0 :: "hw \<Rightarrow> desc_state" where
  "desc0 h = hw.extend h (desc_state.fields (replicate 6 gdt_entry0) \<lparr>dp_limit = 0, dp_base = 0\<rparr> tss0
     (replicate 256 idt_entry0) \<lparr>dp_limit = 0, dp_base = 0\<rparr> None None None)"

lemma desc0_simps [simp]:
  "length (gdt (desc0 h)) = 6" "length (idt (desc0 h)) = 256"
  "mem (desc0 h) = mem h" "iolog (desc0 h) = iolog h" "dev8 (desc0 h) = dev8 h"
  by (simp_all add: desc0_def hw.defs desc_state.defs)

section \<open>Properties\<close>

text \<open>
  Segment descriptors: for an index inside the table \<open>gdt_set_gate\<close>
  stores a descriptor whose base, 20-bit limit, flag nibble and access byte, read
  the way the processor reads them, are the caller's; the other descriptors keep
  their value.  An index outside the table is the only undefined case.
\<close>

theorem gdt_set_gate_decodes:
  assumes "0 \<le> num" "num < int (length (gdt s))"
  shows "\<exists>s'. gdt_set_gate num base limit acc gran s = Some s' \<and>
    gdt_base (gdt s' ! nat num) = base \<and> gdt_limit (gdt s' ! nat num) = limit AND 0xFFFFF \<and>
    gdt_flags (gdt s' ! nat num) = gran AND 0xF0 \<and> access (gdt s' ! nat num) = acc \<and>
    (\<forall>i. i \<noteq> nat num \<longrightarrow> gdt s' ! i = gdt s ! i)"
  using assms by (simp add: gdt_set_gate_def gdt_decode nat_less_iff)

theorem gdt_set_gate_decodes_witness:
  "\<exists>s'. gdt_set_gate 5 0x12345678 103 0x89 0x40 (desc0 (machine0 latch)) = Some s' \<and>
    gdt_base (gdt s' ! 5) = 0x12345678 \<and> gdt_limit (gdt s' ! 5) = 103"
  using gdt_set_gate_decodes [of 5 "desc0 (machine0 latch)" "0x12345678" 103 "0x89" "0x40"] by auto

text \<open>
  The GDT after boot: \<open>gdt_init\<close> always succeeds.  Descriptors 1 to 4 are
  flat 4 GiB segments (base 0, limit 0xFFFFF in pages) for kernel code, kernel
  data, user code and user data; descriptor 5 is the task state segment, at the
  address and with the size of \<open>tss\<close>; the task register selects it, and the
  GDT register covers exactly the six descriptors.
\<close>

theorem gdt_init_segments:
  assumes "length (gdt s) = 6"
  shows "\<exists>s'. gdt_init L s = Some s' \<and>
    (\<forall>i \<in> {1, 2, 3, 4}. gdt_base (gdt s' ! i) = 0 \<and> gdt_limit (gdt s' ! i) = 0xFFFFF \<and>
       gdt_flags (gdt s' ! i) = 0xC0) \<and>
    map access (gdt s') = [0, 0x9A, 0x92, 0xFA, 0xF2, 0x89] \<and>
    gdt_base (gdt s' ! 5) = addr_tss L \<and> gdt_limit (gdt s' ! 5) + 1 = sizeof_tss \<and>
    tr s' = Some (8 * 5 + 3) \<and> ss0 (tss s') = 8 * 2 \<and>
    gdtr s' = Some \<lparr>dp_limit = 8 * 6 - 1, dp_base = addr_gdt L\<rparr>"
  unfolding gdt_init_table [OF assms] by (simp add: gdt_decode sizeof_tss_def)

theorem gdt_init_segments_witness:
  "\<exists>s'. gdt_init linker0 (desc0 (machine0 latch)) = Some s' \<and>
    gdt_base (gdt s' ! 5) = 0x206000 \<and> tr s' = Some 0x2B"
  using gdt_init_segments [of "desc0 (machine0 latch)" linker0] by auto

text \<open>
  Interrupt vectors: after \<open>idt_init\<close> the vectors with a present gate
  are 14, which leads to the page fault stub, and 32 to 47, which lead to the stubs
  of the sixteen lines in order; every gate uses the kernel code segment, and the
  IDT register covers exactly the 256 entries.
\<close>

theorem idt_init_vectors:
  "length (idt (idt_init L s)) = 256 \<and>
   (\<forall>v < 256. let e = idt (idt_init L s) ! v in
      (idt_present e \<longleftrightarrow> v = 14 \<or> 32 \<le> v \<and> v < 48) \<and>
      (idt_present e \<longrightarrow> selector e = 0x08 \<and>
         idt_offset e = (if v = 14 then page_fault_stub L else irq_stub L (v - 32)))) \<and>
   idtr (idt_init L s) = Some \<lparr>dp_limit = 8 * 256 - 1, dp_base = addr_idt L\<rparr>"
proof -
  have p: "idt_present (idt_make b 0x08 0x8E)" "selector (idt_make b 0x08 0x8E) = 0x08" for b
    by (simp_all add: idt_present_def idt_make_def)
  have n: "\<not> idt_present idt_entry0" by (simp add: idt_present_def idt_entry0_def)
  have "idtr (idt_init L s) = Some \<lparr>dp_limit = 8 * 256 - 1, dp_base = addr_idt L\<rparr>"
    by (simp add: idt_init_def idt_load_def idt_set_gate_def Let_def)
  then show ?thesis by (auto simp: idt_init_entries Let_def p n idt_offset_make)
qed

theorem idt_init_vectors_witness:
  "idt_present (idt (idt_init linker0 (desc0 (machine0 latch))) ! 44) \<and>
   idt_offset (idt (idt_init linker0 (desc0 (machine0 latch))) ! 44) = 0x20100C"
  using idt_init_vectors [of linker0 "desc0 (machine0 latch)"] by (auto simp: Let_def dest: spec [of _ 44])

end
