(* ===== verification/Irq.thy ===== *)
theory Irq
  imports Pic Desc
begin

text \<open>
  Interrupt dispatch (\<open>core/io/irq.c\<close>) and the system timer
  (\<open>core/io/timer.c\<close>).  A handler is a C function pointer; the model names
  the functions the kernel installs, and \<open>irq_handler\<close> takes the meaning
  of a name as an argument.  The locale \<open>interrupt_handlers\<close> is what the
  dispatcher relies on; it is interpreted on the kernel's handlers in the theory
  that defines them.
\<close>

section \<open>Dispatch\<close>

record registers =
  r_ds :: u32
  r_edi :: u32
  r_esi :: u32
  r_ebp :: u32
  r_esp :: u32
  r_ebx :: u32
  r_edx :: u32
  r_ecx :: u32
  r_eax :: u32
  int_no :: u32
  err_code :: u32
  r_eip :: u32
  r_cs :: u32
  r_eflags :: u32
  r_useresp :: u32
  r_ss :: u32

datatype irq_fn = Timer_handler | Kybrd_handler | Mouse_irq_handler

record irq_state = desc_state +
  irq_handlers :: "irq_fn option list"
  sys_ticks :: u64

definition irq_install_handler ::
  "int \<Rightarrow> irq_fn \<Rightarrow> 'a irq_state_scheme \<Rightarrow> 'a irq_state_scheme" where
  "irq_install_handler irq h s =
     (if irq \<ge> 0 \<and> irq < 16 then s\<lparr>irq_handlers := (irq_handlers s)[nat irq := Some h]\<rparr> else s)"

definition irq_uninstall_handler :: "int \<Rightarrow> 'a irq_state_scheme \<Rightarrow> 'a irq_state_scheme" where
  "irq_uninstall_handler irq s =
     (if irq \<ge> 0 \<and> irq < 16 then s\<lparr>irq_handlers := (irq_handlers s)[nat irq := None]\<rparr> else s)"

text \<open>A vector outside the table is undefined in C.\<close>

definition irq_handler ::
  "(irq_fn \<Rightarrow> registers \<Rightarrow> 'a irq_state_scheme \<Rightarrow> 'a irq_state_scheme option)
   \<Rightarrow> registers \<Rightarrow> 'a irq_state_scheme \<Rightarrow> 'a irq_state_scheme option" where
  "irq_handler call r s =
     (let irq_n = sint (int_no r - 32)
      in if irq_n < 0 \<or> irq_n \<ge> int (length (irq_handlers s)) then None
         else do {
           s \<leftarrow> (case irq_handlers s ! nat irq_n of Some h \<Rightarrow> call h r s | None \<Rightarrow> Some s);
           let s = (if irq_n \<ge> 8 then x86write PIC2_CMD PIC_EOI s else s);
           Some (x86write PIC1_CMD PIC_EOI s)
         })"

section \<open>Timer\<close>

text \<open>\<open>1193182 / freq\<close> traps when \<open>freq\<close> is zero.\<close>

definition setup_pit :: "u32 \<Rightarrow> 'a hw_scheme \<Rightarrow> 'a hw_scheme option" where
  "setup_pit freq s =
     (if freq = 0 then None
      else let d = 1193182 div freq;
               s = x86write 0x43 0x36 s;
               s = x86write 0x40 (ucast (d AND 0xFF)) s;
               s = x86write 0x40 (ucast (drop_bit 8 d AND 0xFF)) s
           in Some s)"

definition timer_handler :: "'a irq_state_scheme \<Rightarrow> 'a irq_state_scheme" where
  "timer_handler s = s\<lparr>sys_ticks := sys_ticks s + 1\<rparr>"

definition pit_init :: "'a irq_state_scheme \<Rightarrow> 'a irq_state_scheme option" where
  "pit_init s = do {
     let s = irq_install_handler 0 Timer_handler s;
     s \<leftarrow> x86IRQ_clearmask 0 s;
     setup_pit 1000 s
   }"

text \<open>
  \<open>ksleep\<close> halts until enough ticks have passed; \<open>wake\<close> is what the
  interrupt that ends a \<open>hlt\<close> does to the machine.
\<close>

partial_function (option) ksleep_loop ::
  "('a irq_state_scheme \<Rightarrow> 'a irq_state_scheme option) \<Rightarrow> u64 \<Rightarrow> 'a irq_state_scheme
   \<Rightarrow> 'a irq_state_scheme option" where
  "ksleep_loop wake target s =
     (if sys_ticks s < target
      then Option.bind (wake (Halt s)) (\<lambda>s'. ksleep_loop wake target s')
      else Some s)"

definition ksleep ::
  "('a irq_state_scheme \<Rightarrow> 'a irq_state_scheme option) \<Rightarrow> u32 \<Rightarrow> 'a irq_state_scheme
   \<Rightarrow> 'a irq_state_scheme option" where
  "ksleep wake ms s = ksleep_loop wake (sys_ticks s + ucast ms) s"

section \<open>Facts\<close>

lemma setup_pit_state:
  assumes "freq \<noteq> 0"
  shows "setup_pit freq s = Some (s\<lparr>iolog := iolog s @
    [OutB 0x43 0x36, OutB 0x40 (ucast (1193182 div freq)), OutB 0x40 (ucast (drop_bit 8 (1193182 div freq)))]\<rparr>)"
proof -
  have "ucast (d AND 0xFF) = (ucast d :: u8)" for d :: u32
  proof (rule bit_word_eqI)
    fix n assume "n < LENGTH(8)"
    then show "bit (ucast (d AND 0xFF) :: u8) n = bit (ucast d :: u8) n"
      unfolding low_mask_bits by (auto simp: bit_simps)
  qed
  then show ?thesis using assms by (simp add: setup_pit_def hw_io_defs)
qed

text \<open>The two bytes of the reload value, low byte first.\<close>

lemma two_bytes:
  "ucast (ucast d :: u8) OR push_bit 8 (ucast (ucast (drop_bit 8 d) :: u8)) = (take_bit 16 d :: u32)"
  (is "?w = _")
proof (rule bit_word_eqI)
  fix n assume n: "n < LENGTH(32)"
  consider "n < 8" | "8 \<le> n" "n < 16" | "16 \<le> n" by fastforce
  then show "bit ?w n = bit (take_bit 16 d) n"
    using n by cases (auto simp: bit_simps)
qed

lemma ksleep_loop_ticks:
  assumes tick: "\<And>t. P t \<Longrightarrow> \<exists>t'. wake (Halt t) = Some t' \<and> P t' \<and> sys_ticks t' = sys_ticks t + 1"
    and "P s" "sys_ticks s \<le> target"
  shows "\<exists>s'. ksleep_loop wake target s = Some s' \<and> P s' \<and> sys_ticks s' = target"
  using assms(2,3)
proof (induction "unat target - unat (sys_ticks s)" arbitrary: s rule: less_induct)
  case less
  show ?case
  proof (cases "sys_ticks s < target")
    case True
    then obtain t where t: "wake (Halt s) = Some t" "P t" "sys_ticks t = sys_ticks s + 1"
      using tick less.prems by blast
    have "unat (sys_ticks s + 1) = unat (sys_ticks s) + 1"
      using True by (simp add: unat_inc)
    then have "unat target - unat (sys_ticks t) < unat target - unat (sys_ticks s)" "sys_ticks t \<le> target"
      using True t(3) by (auto simp: word_less_nat_alt word_le_nat_alt)
    from less.hyps [OF this(1) t(2) this(2)] show ?thesis
      using True t(1) by (simp add: ksleep_loop.simps [of wake target s])
  next
    case False
    then show ?thesis using less.prems by (auto simp: ksleep_loop.simps)
  qed
qed

section \<open>What the dispatcher relies on\<close>

locale interrupt_handlers =
  fixes call :: "irq_fn \<Rightarrow> registers \<Rightarrow> 'a irq_state_scheme \<Rightarrow> 'a irq_state_scheme option"
    and ok :: "'a irq_state_scheme \<Rightarrow> bool"
  assumes call_defined: "ok s \<Longrightarrow> \<exists>s'. call h r s = Some s'"
    and call_ok: "ok s \<Longrightarrow> call h r s = Some s' \<Longrightarrow> ok s'"
    and call_table: "ok s \<Longrightarrow> call h r s = Some s' \<Longrightarrow> irq_handlers s' = irq_handlers s"
    and call_log: "ok s \<Longrightarrow> call h r s = Some s' \<Longrightarrow> \<exists>es. iolog s' = iolog s @ es"
    and ok_table: "ok s \<Longrightarrow> length (irq_handlers s) = 16"
    and ok_log: "ok s \<Longrightarrow> ok (log_io e s)"
begin

lemma dispatch:
  assumes "ok s" "n < 16" "int_no r = 32 + of_nat n"
  obtains s1 s' es where
    "(case irq_handlers s ! n of Some h \<Rightarrow> call h r s | None \<Rightarrow> Some s) = Some s1"
    "irq_handler call r s = Some s'"
    "s' = s1\<lparr>iolog := iolog s @ es @ (if 8 \<le> n then [OutB PIC2_CMD PIC_EOI] else []) @ [OutB PIC1_CMD PIC_EOI]\<rparr>"
    "iolog s1 = iolog s @ es" "irq_handlers s' = irq_handlers s" "ok s'"
proof -
  let ?c = "case irq_handlers s ! n of Some h \<Rightarrow> call h r s | None \<Rightarrow> Some s"
  obtain s1 where s1: "?c = Some s1"
    using call_defined [OF assms(1)] by (fastforce split: option.splits)
  have k: "irq_handlers s1 = irq_handlers s" "ok s1" "\<exists>es. iolog s1 = iolog s @ es"
    using s1 assms(1) call_table call_ok call_log by (auto split: option.splits)
  then obtain es where es: "iolog s1 = iolog s @ es" by blast
  have n: "sint (int_no r - 32) = int n"
    using assms(2) by (simp add: assms(3) signed_of_nat signed_take_bit_int_eq_self)
  let ?s' = "s1\<lparr>iolog := iolog s @ es @ (if 8 \<le> n then [OutB PIC2_CMD PIC_EOI] else []) @ [OutB PIC1_CMD PIC_EOI]\<rparr>"
  have h: "irq_handler call r s = Some ?s'"
    using s1 assms(2) by (simp add: irq_handler_def n ok_table [OF assms(1)] hw_io_defs es)
  have "ok ?s'"
    using ok_log [OF k(2), of "OutB PIC1_CMD PIC_EOI"]
      ok_log [OF ok_log [OF k(2), of "OutB PIC2_CMD PIC_EOI"], of "OutB PIC1_CMD PIC_EOI"]
    by (simp add: log_io_def es)
  then show thesis using that [OF s1 h refl es] k(1) by simp
qed

end

section \<open>Boot state\<close>

definition irqs0 :: "desc_state \<Rightarrow> irq_state" where
  "irqs0 d = desc_state.extend d (irq_state.fields (replicate 16 None) 0)"

lemma irqs0_simps [simp]:
  "irq_handlers (irqs0 d) = replicate 16 None" "sys_ticks (irqs0 d) = 0"
  "mem (irqs0 d) = mem d" "iolog (irqs0 d) = iolog d" "dev8 (irqs0 d) = dev8 d"
  by (simp_all add: irqs0_def desc_state.defs irq_state.defs)

section \<open>Properties\<close>

text \<open>
  Timer frequency: \<open>__setup_pit\<close> selects mode 3 of channel 0 and writes a
  reload value whose two bytes, low byte first, are the low 16 bits of
  \<open>1193182 / freq\<close>; the division by a zero frequency is its only failure.
\<close>

theorem setup_pit_reload:
  "setup_pit 0 s = None \<and>
   (freq \<noteq> 0 \<longrightarrow> (\<exists>lo hi. setup_pit freq s =
        Some (s\<lparr>iolog := iolog s @ [OutB 0x43 0x36, OutB 0x40 lo, OutB 0x40 hi]\<rparr>) \<and>
      ucast lo OR push_bit 8 (ucast hi) = take_bit 16 (1193182 div freq)))"
  using two_bytes [of "1193182 div freq"] by (auto simp: setup_pit_state) (simp add: setup_pit_def)

theorem setup_pit_reload_witness:
  "\<exists>lo hi. setup_pit 1000 (machine0 latch) = Some ((machine0 latch)\<lparr>iolog :=
      [OutB 0x43 0x36, OutB 0x40 lo, OutB 0x40 hi]\<rparr>) \<and>
    ucast lo OR push_bit 8 (ucast hi) = (1193 :: u32)"
  using setup_pit_reload [of "machine0 latch" 1000] by (auto simp: take_bit_eq_mod)

end
