(* ===== verification/Input.thy ===== *)
theory Input
  imports Irq
begin

text \<open>
  The input devices: the PS/2 mouse (\<open>drivers/mouse.c\<close>) and the keyboard
  (\<open>drivers/kybrd.c\<close>), and the meaning of the handler names that the
  dispatcher calls.  The invariant \<open>mouse_ok\<close> bounds the packet index, the
  position and the wheel; \<open>interrupt_handlers\<close> is interpreted here on the
  kernel's own handlers.
\<close>

section \<open>Mouse\<close>

abbreviation (input) MOUSE_DATA_PORT :: u16 where "MOUSE_DATA_PORT \<equiv> 0x60"
abbreviation (input) MOUSE_STATUS_PORT :: u16 where "MOUSE_STATUS_PORT \<equiv> 0x64"
abbreviation (input) MOUSE_CMD_ENABLE :: u8 where "MOUSE_CMD_ENABLE \<equiv> 0xA8"
abbreviation (input) MOUSE_CMD_WRITE :: u16 where "MOUSE_CMD_WRITE \<equiv> 0xD4"
abbreviation (input) MOUSE_RESET :: u8 where "MOUSE_RESET \<equiv> 0xFF"
abbreviation (input) MOUSE_ENABLE_DATA :: u8 where "MOUSE_ENABLE_DATA \<equiv> 0xF4"
abbreviation (input) SCREEN_WIDTH :: int where "SCREEN_WIDTH \<equiv> 1024"
abbreviation (input) SCREEN_HEIGHT :: int where "SCREEN_HEIGHT \<equiv> 768"

record input_state = irq_state +
  mouse_packet :: "u8 list"
  packet_index :: u8
  mouse_x :: int
  mouse_y :: int
  left :: bool
  right :: bool
  middle :: bool
  scroll :: int

partial_function (option) wait_for_input :: "'a hw_scheme \<Rightarrow> 'a hw_scheme option" where
  "wait_for_input s = (let (v, s1) = x86read MOUSE_STATUS_PORT s
     in if v AND 0x2 \<noteq> 0 then wait_for_input (Halt s1) else Some s1)"

text \<open>The arguments of the two writes are in the order the C code has them.\<close>

definition send_mouse_command :: "u8 \<Rightarrow> 'a hw_scheme \<Rightarrow> 'a hw_scheme option" where
  "send_mouse_command cmd s = do {
     s \<leftarrow> wait_for_input s;
     let s = x86write MOUSE_CMD_WRITE (ucast MOUSE_STATUS_PORT) s;
     s \<leftarrow> wait_for_input s;
     Some (x86write (ucast cmd) (ucast MOUSE_DATA_PORT) s)
   }"

definition process_packet :: "'a input_state_scheme \<Rightarrow> 'a input_state_scheme" where
  "process_packet s = (let
     dx = sint (mouse_packet s ! 1);
     dy = sint (mouse_packet s ! 2);
     ds = (if packet_index s = 4 then sint (mouse_packet s ! 3) else 0);
     x = mouse_x s + dx;
     y = mouse_y s - dy;
     x = (if x < 0 then 0 else x);
     y = (if y < 0 then 0 else y);
     x = (if x > SCREEN_WIDTH - 1 then SCREEN_WIDTH - 1 else x);
     y = (if y > SCREEN_HEIGHT - 1 then SCREEN_HEIGHT - 1 else y)
   in s\<lparr>mouse_x := x, mouse_y := y,
        left := (mouse_packet s ! 0 AND 0x1 \<noteq> 0),
        right := (mouse_packet s ! 0 AND 0x2 \<noteq> 0),
        middle := (mouse_packet s ! 0 AND 0x4 \<noteq> 0),
        scroll := ds\<rparr>)"

text \<open>Writing past the four bytes of the packet is undefined in C.\<close>

definition mouse_irq_handler :: "'a input_state_scheme \<Rightarrow> 'a input_state_scheme option" where
  "mouse_irq_handler s =
     (let (data, s) = x86read MOUSE_DATA_PORT s
      in if unat (packet_index s) \<ge> length (mouse_packet s) then None
         else let s = s\<lparr>mouse_packet := (mouse_packet s)[unat (packet_index s) := data],
                        packet_index := packet_index s + 1\<rparr>;
                  s = (if packet_index s = 3 \<or> packet_index s = 4
                       then (process_packet s)\<lparr>packet_index := 0\<rparr> else s)
              in Some (pic_send_eoi 12 s))"

definition mouse_init :: "'a irq_state_scheme \<Rightarrow> 'a irq_state_scheme option" where
  "mouse_init s = do {
     s \<leftarrow> send_mouse_command MOUSE_CMD_ENABLE s;
     s \<leftarrow> send_mouse_command MOUSE_RESET s;
     s \<leftarrow> send_mouse_command MOUSE_ENABLE_DATA s;
     Some (irq_install_handler 12 Mouse_irq_handler s)
   }"

definition mouse_get_x :: "'a input_state_scheme \<Rightarrow> int" where
  "mouse_get_x s = mouse_x s"

definition mouse_get_y :: "'a input_state_scheme \<Rightarrow> int" where
  "mouse_get_y s = mouse_y s"

definition mouse_left_pressed :: "'a input_state_scheme \<Rightarrow> bool" where
  "mouse_left_pressed s = left s"

definition mouse_right_pressed :: "'a input_state_scheme \<Rightarrow> bool" where
  "mouse_right_pressed s = right s"

definition mouse_middle_pressed :: "'a input_state_scheme \<Rightarrow> bool" where
  "mouse_middle_pressed s = middle s"

definition mouse_get_scroll :: "'a input_state_scheme \<Rightarrow> int" where
  "mouse_get_scroll s = scroll s"

section \<open>Keyboard\<close>

definition ky_scancodes :: "u8 list" where
  "ky_scancodes = [
     0, 27, 49, 50, 51, 52, 53, 54, 55, 56, 57, 48, 45, 61, 8,
     9, 113, 119, 101, 114, 116, 121, 117, 105, 111, 112, 91, 93, 10,
     0, 97, 115, 100, 102, 103, 104, 106, 107, 108, 59, 39, 96,
     0, 92, 122, 120, 99, 118, 98, 110, 109, 44, 46, 47,
     0, 42, 0, 32] @ replicate 70 0"

definition kybrd_handler :: "registers \<Rightarrow> 'a hw_scheme \<Rightarrow> 'a hw_scheme" where
  "kybrd_handler r s0 =
     (let (scancode, s) = x86read 0x60 s0
      in if scancode AND 0x80 \<noteq> 0 then s
         else if scancode \<ge> 128 then s
         else let k = ky_scancodes ! unat scancode
              in if k = 0 then s
                 else if k = 10 then s
                 else if k = 8 then s
                 else if k = 9 \<or> k = 27 then s
                 else s)"

definition kybrd_init :: "'a irq_state_scheme \<Rightarrow> 'a irq_state_scheme option" where
  "kybrd_init s = do {
     s \<leftarrow> x86IRQ_clearmask 1 s;
     Some (irq_install_handler 1 Kybrd_handler s)
   }"

section \<open>The kernel's handlers\<close>

fun call_handler :: "irq_fn \<Rightarrow> registers \<Rightarrow> 'a input_state_scheme \<Rightarrow> 'a input_state_scheme option" where
  "call_handler Timer_handler r s = Some (timer_handler s)"
| "call_handler Kybrd_handler r s = Some (kybrd_handler r s)"
| "call_handler Mouse_irq_handler r s = mouse_irq_handler s"

section \<open>Facts\<close>

lemma kybrd_handler_state:
  "kybrd_handler r s = s\<lparr>iolog := iolog s @ [InB 0x60 (dev8 s (iolog s) 0x60)]\<rparr>"
  by (simp add: kybrd_handler_def hw_io_defs)

text \<open>The states the mouse driver keeps: a packet is never longer than three bytes.\<close>

definition mouse_ok :: "'a input_state_scheme \<Rightarrow> bool" where
  "mouse_ok s \<longleftrightarrow> length (mouse_packet s) = 4 \<and> packet_index s < 3 \<and>
     0 \<le> mouse_x s \<and> mouse_x s < SCREEN_WIDTH \<and> 0 \<le> mouse_y s \<and> mouse_y s < SCREEN_HEIGHT \<and>
     scroll s = 0"

definition handlers_ok :: "'a input_state_scheme \<Rightarrow> bool" where
  "handlers_ok s \<longleftrightarrow> mouse_ok s \<and> length (irq_handlers s) = 16"

lemma u8_less3: "(i :: u8) < 3 \<Longrightarrow> i = 0 \<or> i = 1 \<or> i = 2"
  by (simp add: word_less_nat_alt word_unat_eq_iff) arith

lemma mouse_irq_handler_cases:
  assumes "mouse_ok s"
  shows "mouse_irq_handler s = Some (let
      d = dev8 s (iolog s) MOUSE_DATA_PORT;
      s1 = s\<lparr>iolog := iolog s @ [InB MOUSE_DATA_PORT d, OutB PIC2_CMD PIC_EOI, OutB PIC1_CMD PIC_EOI],
             mouse_packet := (mouse_packet s)[unat (packet_index s) := d],
             packet_index := packet_index s + 1\<rparr>
    in if packet_index s = 2 then (process_packet s1)\<lparr>packet_index := 0\<rparr> else s1)"
proof -
  have "unat (packet_index s) < 4"
    using assms by (simp add: mouse_ok_def word_less_nat_alt)
  moreover have "packet_index s = 0 \<or> packet_index s = 1 \<or> packet_index s = 2"
    using assms by (intro u8_less3) (simp add: mouse_ok_def)
  ultimately show ?thesis
    using assms
    by (elim disjE) (simp_all add: mouse_irq_handler_def mouse_ok_def hw_io_defs pic_send_eoi_def
        process_packet_def)
qed

lemma process_packet_ok:
  assumes "length (mouse_packet s) = 4" "packet_index s = 3"
  shows "mouse_ok ((process_packet s)\<lparr>packet_index := 0\<rparr>)"
  using assms by (simp add: mouse_ok_def process_packet_def Let_def)

lemma mouse_irq_handler_ok:
  assumes "mouse_ok s"
  obtains s' where "mouse_irq_handler s = Some s'" "mouse_ok s'"
    "irq_handlers s' = irq_handlers s" "\<exists>es. iolog s' = iolog s @ es"
proof -
  have i: "packet_index s = 0 \<or> packet_index s = 1 \<or> packet_index s = 2"
    using assms by (intro u8_less3) (simp add: mouse_ok_def)
  obtain s' where s': "mouse_irq_handler s = Some s'"
    using mouse_irq_handler_cases [OF assms] by blast
  have "mouse_ok s'"
    using i assms s' unfolding mouse_irq_handler_cases [OF assms]
    by (elim disjE) (auto simp: Let_def mouse_ok_def intro!: process_packet_ok [unfolded mouse_ok_def])
  moreover have "irq_handlers s' = irq_handlers s" "\<exists>es. iolog s' = iolog s @ es"
    using s' unfolding mouse_irq_handler_cases [OF assms]
    by (auto simp: Let_def process_packet_def split: if_splits)
  ultimately show thesis using that s' by blast
qed

lemma call_handler_ok:
  assumes "handlers_ok s"
  obtains s' where "call_handler h r s = Some s'" "handlers_ok s'"
    "irq_handlers s' = irq_handlers s" "\<exists>es. iolog s' = iolog s @ es"
proof (cases h)
  case Mouse_irq_handler
  have "mouse_ok s" using assms by (simp add: handlers_ok_def)
  from mouse_irq_handler_ok [OF this] that assms Mouse_irq_handler show thesis
    by (metis call_handler.simps(3) handlers_ok_def)
qed (use that assms in \<open>auto simp: kybrd_handler_state timer_handler_def handlers_ok_def mouse_ok_def\<close>)

interpretation kernel_irqs: interrupt_handlers call_handler handlers_ok
proof
  fix s :: "'a input_state_scheme" and h r s' e
  assume ok: "handlers_ok s"
  show "\<exists>s'. call_handler h r s = Some s'"
    using call_handler_ok [OF ok] by metis
  show "length (irq_handlers s) = 16" using ok by (simp add: handlers_ok_def)
  show "handlers_ok (log_io e s)" using ok by (simp add: handlers_ok_def mouse_ok_def log_io_def)
  assume "call_handler h r s = Some s'"
  then show "handlers_ok s'" "irq_handlers s' = irq_handlers s" "\<exists>es. iolog s' = iolog s @ es"
    using call_handler_ok [OF ok] by (metis option.inject)+
qed

section \<open>Boot state\<close>

definition input0 :: "irq_state \<Rightarrow> input_state" where
  "input0 i = irq_state.extend i
     (input_state.fields (replicate 4 0) 0 (SCREEN_WIDTH div 2) (SCREEN_HEIGHT div 2) False False False 0)"

lemma input0_simps [simp]:
  "irq_handlers (input0 i) = irq_handlers i" "sys_ticks (input0 i) = sys_ticks i"
  "mem (input0 i) = mem i" "iolog (input0 i) = iolog i" "dev8 (input0 i) = dev8 i"
  "mouse_packet (input0 i) = replicate 4 0" "packet_index (input0 i) = 0"
  by (simp_all add: input0_def irq_state.defs input_state.defs)

lemma input0_ok: "mouse_ok (input0 i)"
  by (simp add: mouse_ok_def input0_def irq_state.defs input_state.defs)

abbreviation boot_input :: "(io_event list \<Rightarrow> u16 \<Rightarrow> u8) \<Rightarrow> input_state" where
  "boot_input d \<equiv> input0 (irqs0 (desc0 (machine0 d)))"

lemma boot_handlers_ok: "handlers_ok (boot_input d)"
  by (simp add: handlers_ok_def input0_ok)

section \<open>Properties\<close>

text \<open>
  C28 (interrupt dispatch): an interrupt on any of the sixteen lines runs the
  handler installed for that line, if there is one, and no other; it always
  returns, acknowledges the second controller for lines 8 to 15 and the first
  controller always, after everything the handler wrote, and keeps the handler
  table and the handlers' invariant.
\<close>

theorem irq_handler_dispatches:
  assumes "handlers_ok s" "n < 16" "int_no r = 32 + of_nat n"
  shows "\<exists>s1 s' es.
    (case irq_handlers s ! n of Some h \<Rightarrow> call_handler h r s | None \<Rightarrow> Some s) = Some s1 \<and>
    iolog s1 = iolog s @ es \<and> irq_handler call_handler r s = Some s' \<and>
    s' = s1\<lparr>iolog := iolog s @ es @ (if 8 \<le> n then [OutB PIC2_CMD PIC_EOI] else []) @ [OutB PIC1_CMD PIC_EOI]\<rparr> \<and>
    irq_handlers s' = irq_handlers s \<and> handlers_ok s'"
  using kernel_irqs.dispatch [OF assms] by metis

definition regs0 :: registers where
  "regs0 = \<lparr>r_ds = 0, r_edi = 0, r_esi = 0, r_ebp = 0, r_esp = 0, r_ebx = 0, r_edx = 0, r_ecx = 0,
     r_eax = 0, int_no = 32, err_code = 0, r_eip = 0, r_cs = 8, r_eflags = 0, r_useresp = 0, r_ss = 0\<rparr>"

theorem irq_handler_dispatches_witness:
  "\<exists>s'. irq_handler call_handler (regs0\<lparr>int_no := 40\<rparr>) (boot_input latch) = Some s' \<and>
    iolog s' = [OutB 0xA0 0x20, OutB 0x20 0x20] \<and> handlers_ok s'"
  using irq_handler_dispatches [OF boot_handlers_ok, of 8 "regs0\<lparr>int_no := 40\<rparr>" latch] by auto



text \<open>
  Acknowledging the mouse: the mouse handler acknowledges both controllers
  itself, and the dispatcher does it again, so every mouse interrupt sends two
  end-of-interrupt commands to each controller, in this order.
\<close>

theorem mouse_interrupt_acknowledged_twice:
  assumes "handlers_ok s" "irq_handlers s ! 12 = Some Mouse_irq_handler" "int_no r = 44"
  shows "\<exists>s'. irq_handler call_handler r s = Some s' \<and> iolog s' = iolog s @
    [InB MOUSE_DATA_PORT (dev8 s (iolog s) MOUSE_DATA_PORT),
     OutB PIC2_CMD PIC_EOI, OutB PIC1_CMD PIC_EOI, OutB PIC2_CMD PIC_EOI, OutB PIC1_CMD PIC_EOI]"
proof -
  have ok: "mouse_ok s" using assms(1) by (simp add: handlers_ok_def)
  have "(12 :: nat) < 16" "int_no r = 32 + of_nat 12" using assms(3) by simp_all
  then obtain s1 s' es where r: "(case irq_handlers s ! 12 of Some h \<Rightarrow> call_handler h r s | None \<Rightarrow> Some s) = Some s1"
    "irq_handler call_handler r s = Some s'"
    "s' = s1\<lparr>iolog := iolog s @ es @ (if 8 \<le> (12::nat) then [OutB PIC2_CMD PIC_EOI] else []) @ [OutB PIC1_CMD PIC_EOI]\<rparr>"
    "iolog s1 = iolog s @ es"
    by (rule kernel_irqs.dispatch [OF assms(1)])
  have "iolog s1 = iolog s @ [InB MOUSE_DATA_PORT (dev8 s (iolog s) MOUSE_DATA_PORT),
      OutB PIC2_CMD PIC_EOI, OutB PIC1_CMD PIC_EOI]"
    using r(1) assms(2) mouse_irq_handler_cases [OF ok]
    by (auto simp: Let_def process_packet_def split: if_splits)
  then show ?thesis using r by simp
qed

theorem mouse_interrupt_acknowledged_twice_witness:
  "\<exists>s'. irq_handler call_handler (regs0\<lparr>int_no := 44\<rparr>)
      (irq_install_handler 12 Mouse_irq_handler (boot_input latch)) = Some s' \<and>
    iolog s' = [InB 0x60 0, OutB 0xA0 0x20, OutB 0x20 0x20, OutB 0xA0 0x20, OutB 0x20 0x20]"
proof -
  let ?s = "irq_install_handler 12 Mouse_irq_handler (boot_input latch)"
  have "handlers_ok ?s"
    using boot_handlers_ok [of latch] by (simp add: irq_install_handler_def handlers_ok_def mouse_ok_def)
  then show ?thesis using mouse_interrupt_acknowledged_twice [of ?s "regs0\<lparr>int_no := 44\<rparr>"]
    by (simp add: irq_install_handler_def latch_def)
qed

text \<open>
  C30 (mouse packets): the handler never leaves its packet buffer, keeps the
  cursor on the 1024 by 768 screen, and every third byte moves the cursor by the
  two signed displacements, clamped to the screen, and sets the buttons from the
  first byte; before the third byte the cursor does not move.  The wheel is never
  reported: it stays 0.
\<close>

theorem mouse_handler_moves_cursor:
  assumes "mouse_ok s"
  defines "d \<equiv> dev8 s (iolog s) MOUSE_DATA_PORT"
  shows "\<exists>s'. mouse_irq_handler s = Some s' \<and> mouse_ok s' \<and> mouse_get_scroll s' = 0 \<and>
    (if packet_index s = 2
     then mouse_get_x s' = max 0 (min 1023 (mouse_get_x s + sint (mouse_packet s ! 1))) \<and>
          mouse_get_y s' = max 0 (min 767 (mouse_get_y s - sint d)) \<and>
          (mouse_left_pressed s' \<longleftrightarrow> bit (mouse_packet s ! 0) 0) \<and>
          (mouse_right_pressed s' \<longleftrightarrow> bit (mouse_packet s ! 0) 1) \<and>
          (mouse_middle_pressed s' \<longleftrightarrow> bit (mouse_packet s ! 0) 2) \<and> packet_index s' = 0
     else mouse_get_x s' = mouse_get_x s \<and> mouse_get_y s' = mouse_get_y s \<and>
          packet_index s' = packet_index s + 1 \<and> mouse_packet s' ! unat (packet_index s) = d)"
proof -
  have b: "(w AND 1 \<noteq> 0) = bit w 0" "(w AND 2 \<noteq> 0) = bit w 1" "(w AND 4 \<noteq> 0) = bit w 2" for w :: u8
    by (simp_all add: bit_iff_and_push_bit_not_eq_0)
  obtain s' where s': "mouse_irq_handler s = Some s'" "mouse_ok s'"
    using mouse_irq_handler_ok [OF assms(1)] by metis
  have len: "length (mouse_packet s) = 4" "unat (packet_index s) < 4"
    using assms(1) by (auto simp: mouse_ok_def word_less_nat_alt)
  show ?thesis
  proof (cases "packet_index s = 2")
    case True
    then show ?thesis
      using s' len unfolding mouse_irq_handler_cases [OF assms(1)]
      by (auto simp: Let_def process_packet_def b d_def mouse_get_x_def mouse_get_y_def
          mouse_left_pressed_def mouse_right_pressed_def mouse_middle_pressed_def
          mouse_get_scroll_def max_def min_def nth_list_update)
  next
    case False
    then show ?thesis
      using s' len unfolding mouse_irq_handler_cases [OF assms(1)]
      by (auto simp: Let_def d_def mouse_get_x_def mouse_get_y_def mouse_get_scroll_def mouse_ok_def)
  qed
qed

theorem mouse_handler_moves_cursor_witness:
  "\<exists>s'. mouse_irq_handler ((boot_input (\<lambda>_ _. 0xFE))\<lparr>packet_index := 2, mouse_packet := [1, 5, 0, 0]\<rparr>) = Some s' \<and>
    mouse_get_x s' = 517 \<and> mouse_get_y s' = 386 \<and> mouse_left_pressed s'"
proof -
  let ?s = "(boot_input (\<lambda>_ _. 0xFE))\<lparr>packet_index := 2, mouse_packet := [1, 5, 0, 0]\<rparr>"
  have "mouse_ok ?s" "mouse_x ?s = 512" "mouse_y ?s = 384"
    using input0_ok [of "irqs0 (desc0 (machine0 (\<lambda>_ _. 0xFE)))"]
    by (simp_all add: mouse_ok_def) (simp_all add: input0_def irq_state.defs input_state.defs)
  with mouse_handler_moves_cursor [of ?s] show ?thesis
    by (auto simp: mouse_get_x_def mouse_get_y_def)
qed

section \<open>Initialising the devices\<close>

text \<open>A PS/2 controller whose input buffer is empty whenever its status is read.\<close>

definition ps2_idle :: "'a hw_scheme \<Rightarrow> bool" where
  "ps2_idle s \<longleftrightarrow> (\<forall>log. dev8 s log MOUSE_STATUS_PORT AND 2 = 0)"

lemma wait_for_input_idle:
  "ps2_idle s \<Longrightarrow> wait_for_input s =
    Some (s\<lparr>iolog := iolog s @ [InB MOUSE_STATUS_PORT (dev8 s (iolog s) MOUSE_STATUS_PORT)]\<rparr>)"
  by (subst wait_for_input.simps) (simp add: hw_io_defs ps2_idle_def)

definition is_out :: "io_event \<Rightarrow> bool" where
  "is_out e \<longleftrightarrow> (case e of OutB _ _ \<Rightarrow> True | _ \<Rightarrow> False)"

lemma mouse_init_state:
  assumes "ps2_idle s"
  obtains es where "mouse_init s = Some ((irq_install_handler 12 Mouse_irq_handler s)\<lparr>iolog := iolog s @ es\<rparr>)"
    "filter is_out es = [OutB 0xD4 0x64, OutB 0xA8 0x60, OutB 0xD4 0x64, OutB 0xFF 0x60,
      OutB 0xD4 0x64, OutB 0xF4 0x60]"
    "last_out PIC1_DATA es = None" "last_out PIC2_DATA es = None"
proof -
  have step: "\<exists>a b. send_mouse_command c (s\<lparr>iolog := l\<rparr>) = Some (s\<lparr>iolog := l @
      [InB MOUSE_STATUS_PORT a, OutB 0xD4 0x64, InB MOUSE_STATUS_PORT b, OutB p 0x60]\<rparr>)"
    if "ucast c = p" for c p l
  proof -
    have "ps2_idle (s\<lparr>iolog := l\<rparr>)" for l using assms by (simp add: ps2_idle_def)
    then show ?thesis using that
      by (auto simp: send_mouse_command_def wait_for_input_idle hw_io_defs)
  qed
  have ports: "ucast (0xA8 :: u8) = (0xA8 :: u16)" "ucast (0xFF :: u8) = (0xFF :: u16)"
    "ucast (0xF4 :: u8) = (0xF4 :: u16)" by simp_all
  let ?l = "\<lambda>l a b p. l @ [InB MOUSE_STATUS_PORT a, OutB 0xD4 0x64, InB MOUSE_STATUS_PORT b, OutB p 0x60]"
  obtain a b where 1: "send_mouse_command 0xA8 s = Some (s\<lparr>iolog := ?l (iolog s) a b 0xA8\<rparr>)"
    using step [OF ports(1), of "iolog s"] by auto
  let ?l1 = "?l (iolog s) a b 0xA8"
  obtain c d where 2: "send_mouse_command 0xFF (s\<lparr>iolog := ?l1\<rparr>) = Some (s\<lparr>iolog := ?l ?l1 c d 0xFF\<rparr>)"
    using step [OF ports(2), of ?l1] by blast
  let ?l2 = "?l ?l1 c d 0xFF"
  obtain e f where 3: "send_mouse_command 0xF4 (s\<lparr>iolog := ?l2\<rparr>) = Some (s\<lparr>iolog := ?l ?l2 e f 0xF4\<rparr>)"
    using step [OF ports(3), of ?l2] by blast
  show thesis
    by (rule that [of "[InB MOUSE_STATUS_PORT a, OutB 0xD4 0x64, InB MOUSE_STATUS_PORT b, OutB 0xA8 0x60,
        InB MOUSE_STATUS_PORT c, OutB 0xD4 0x64, InB MOUSE_STATUS_PORT d, OutB 0xFF 0x60,
        InB MOUSE_STATUS_PORT e, OutB 0xD4 0x64, InB MOUSE_STATUS_PORT f, OutB 0xF4 0x60]"])
      (use 1 2 3 in \<open>simp_all add: mouse_init_def irq_install_handler_def is_out_def\<close>)
qed

text \<open>
  Configuring the mouse: \<open>mouse_init\<close> passes its port and value arguments
  in the wrong order: with an idle controller it always returns, and the bytes it
  sends go to the ports 0xD4, 0xA8, 0xFF and 0xF4.  Nothing is written to the data
  port 0x60 or the command port 0x64, so the mouse is never enabled.
\<close>

theorem mouse_init_writes_wrong_ports:
  assumes "ps2_idle s"
  shows "\<exists>es s'. mouse_init s = Some s' \<and> iolog s' = iolog s @ es \<and>
    filter is_out es = [OutB 0xD4 0x64, OutB 0xA8 0x60, OutB 0xD4 0x64, OutB 0xFF 0x60,
      OutB 0xD4 0x64, OutB 0xF4 0x60] \<and>
    (\<forall>v. OutB MOUSE_DATA_PORT v \<notin> set es \<and> OutB MOUSE_STATUS_PORT v \<notin> set es)"
proof -
  obtain es where es: "mouse_init s = Some ((irq_install_handler 12 Mouse_irq_handler s)\<lparr>iolog := iolog s @ es\<rparr>)"
    and f: "filter is_out es = [OutB 0xD4 0x64, OutB 0xA8 0x60, OutB 0xD4 0x64, OutB 0xFF 0x60,
      OutB 0xD4 0x64, OutB 0xF4 0x60]"
    by (rule mouse_init_state [OF assms])
  have "OutB p v \<in> set es \<longleftrightarrow> OutB p v \<in> set (filter is_out es)" for p v
    by (simp add: is_out_def)
  then show ?thesis using es f by auto
qed

theorem mouse_init_writes_wrong_ports_witness:
  "\<exists>es s'. mouse_init (irqs0 (desc0 (machine0 (\<lambda>_ _. 0x1C)))) = Some s' \<and> iolog s' = es \<and>
    OutB 0x60 0xF4 \<notin> set es"
  using mouse_init_writes_wrong_ports [of "irqs0 (desc0 (machine0 (\<lambda>_ _. 0x1C)))"]
  by (auto simp: ps2_idle_def)

lemma clearmask_ready:
  assumes "pic_ready s" "n \<le> 15"
  obtains s' where "x86IRQ_clearmask n s = Some s'" "pic_ready s'"
    "\<exists>es. s' = s\<lparr>iolog := iolog s @ es\<rparr>"
    "\<And>k. k \<le> 15 \<Longrightarrow> irq_masked s' k \<longleftrightarrow> k \<noteq> n \<and> irq_masked s k"
proof -
  obtain p l where pl: "irq_port n = (p, l)" by fastforce
  obtain v where v: "last_out p (iolog s) = Some v" using pic_ready_port [OF assms(1) pl] .
  have "pic_reads_back s" using assms(1) by (simp add: pic_ready_def)
  note c = clearmask_state [OF this assms(2) pl v]
  show thesis
  proof (rule that [OF c])
    show "pic_ready (s\<lparr>iolog := iolog s @ [InB p v, OutB p (v AND NOT (push_bit (unat l) 1))]\<rparr>)"
      using assms(1) by (auto simp: pic_ready_def pic_reads_back_def last_out_append)
    show "irq_masked (s\<lparr>iolog := iolog s @ [InB p v, OutB p (v AND NOT (push_bit (unat l) 1))]\<rparr>) k
      \<longleftrightarrow> k \<noteq> n \<and> irq_masked s k" if "k \<le> 15" for k
      using clearmask_masked [OF assms that] c by (metis option.inject)
  qed blast
qed

lemma log_keeps_masks:
  assumes "last_out PIC1_DATA es = None" "last_out PIC2_DATA es = None"
  shows "irq_masked (s\<lparr>iolog := iolog s @ es\<rparr>) k = irq_masked s k"
    and "pic_ready (s\<lparr>iolog := iolog s @ es\<rparr>) = pic_ready s"
  using assms by (auto simp: irq_masked_def irq_port_def last_out_append pic_ready_def pic_reads_back_def)

text \<open>After \<open>pic_init\<close> only the cascade line is open.\<close>

lemma pic_init_lines:
  assumes "pic_reads_back s"
  shows "pic_ready (irq_install_handler 0 Timer_handler (pic_init s))"
    and "k \<le> 15 \<Longrightarrow> irq_masked (irq_install_handler 0 Timer_handler (pic_init s)) k \<longleftrightarrow> k \<noteq> 2"
proof -
  show "pic_ready (irq_install_handler 0 Timer_handler (pic_init s))"
    using assms by (simp add: pic_ready_def pic_reads_back_def irq_install_handler_def pic_init_state last_out_append)
  have "bit (0xFB :: u8) n \<longleftrightarrow> n \<noteq> 2" "bit (0xFF :: u8) n" if "n < 8" for n
    using that by (auto simp: numeral_eq_Suc less_Suc_eq)
  moreover have "unat k = 2 \<longleftrightarrow> k = 2" by (simp add: word_unat_eq_iff)
  moreover assume "k \<le> 15"
  ultimately show "irq_masked (irq_install_handler 0 Timer_handler (pic_init s)) k \<longleftrightarrow> k \<noteq> 2"
    by (cases rule: irq_port_cases [OF \<open>k \<le> 15\<close>])
      (auto simp: irq_masked_def irq_install_handler_def pic_init_state last_out_append)
qed


text \<open>Devices that latch what is written to them, with a PS/2 controller that is always idle.\<close>

definition devices0 :: "io_event list \<Rightarrow> u16 \<Rightarrow> u8" where
  "devices0 log p = (if p = MOUSE_STATUS_PORT then 0 else latch log p)"

lemma devices0_ok: "dev8 s = devices0 \<Longrightarrow> pic_reads_back s" "dev8 s = devices0 \<Longrightarrow> ps2_idle s"
  by (simp_all add: pic_reads_back_def ps2_idle_def devices0_def latch_def)


end
