(* ===== verification/CString.thy ===== *)
theory CString
  imports Prelude
begin

text \<open>
  The string functions of \<open>lib/string.c\<close> on byte-addressed memory, and the
  two C library functions the kernel declares in \<open>inc/heap.h\<close> and calls
  without defining them.  A C string is related to a list of bytes by
  \<open>cstr\<close>; the facts say what each loop computes on such strings, and that
  it ends.  A loop over a string that has no terminator does not end:
  \<open>None\<close>.
\<close>

section \<open>Operations\<close>

partial_function (option) strcmp :: "memory \<Rightarrow> u32 \<Rightarrow> u32 \<Rightarrow> int option" where
  "strcmp m a b =
     (if m a \<noteq> 0 \<and> m a = m b then strcmp m (a + 1) (b + 1)
      else Some (uint (m a) - uint (m b)))"

function strncpy_copy :: "memory \<Rightarrow> u32 \<Rightarrow> u32 \<Rightarrow> u32 \<Rightarrow> u32 \<Rightarrow> memory \<times> u32" where
  "strncpy_copy m dest src i n =
     (if i < n \<and> m (src + i) \<noteq> 0
      then strncpy_copy (m(dest + i := m (src + i))) dest src (i + 1) n else (m, i))"
  by pat_completeness auto
termination
  by (relation "measure (\<lambda>(m, d, r, i, n). unat n - unat i)")
    (auto simp: count_down)

function strncpy_pad :: "memory \<Rightarrow> u32 \<Rightarrow> u32 \<Rightarrow> u32 \<Rightarrow> memory" where
  "strncpy_pad m dest i n = (if i < n then strncpy_pad (m(dest + i := 0)) dest (i + 1) n else m)"
  by pat_completeness auto
termination
  by (relation "measure (\<lambda>(m, d, i, n). unat n - unat i)")
    (auto simp: count_down)

definition strncpy :: "memory \<Rightarrow> u32 \<Rightarrow> u32 \<Rightarrow> u32 \<Rightarrow> memory" where
  "strncpy m dest src n = (let (m1, i) = strncpy_copy m dest src 0 n in strncpy_pad m1 dest i n)"

declare strncpy_copy.simps [simp del] strncpy_pad.simps [simp del]

partial_function (option) strcpy_loop :: "memory \<Rightarrow> u32 \<Rightarrow> u32 \<Rightarrow> (memory \<times> u32) option" where
  "strcpy_loop m ptr src =
     (if m src \<noteq> 0 then strcpy_loop (m(ptr := m src)) (ptr + 1) (src + 1) else Some (m, ptr))"

definition strcpy :: "memory \<Rightarrow> u32 \<Rightarrow> u32 \<Rightarrow> memory option" where
  "strcpy m dest src = map_option (\<lambda>(m1, ptr). m1(ptr := 0)) (strcpy_loop m dest src)"

partial_function (option) strchr :: "memory \<Rightarrow> u32 \<Rightarrow> u8 \<Rightarrow> u32 option" where
  "strchr m str c =
     (if m str \<noteq> 0 then (if m str = c then Some str else strchr m (str + 1) c) else Some 0)"

partial_function (option) strlen_loop :: "memory \<Rightarrow> u32 \<Rightarrow> u32 \<Rightarrow> u32 option" where
  "strlen_loop m str len = (if m (str + len) \<noteq> 0 then strlen_loop m str (len + 1) else Some len)"

definition strlen :: "memory \<Rightarrow> u32 \<Rightarrow> u32 option" where
  "strlen m str = strlen_loop m str 0"

primrec memset_loop :: "memory \<Rightarrow> u32 \<Rightarrow> u8 \<Rightarrow> nat \<Rightarrow> memory" where
  "memset_loop m d v 0 = m"
| "memset_loop m d v (Suc n) = memset_loop (m(d := v)) (d + 1) v n"

definition memset :: "memory \<Rightarrow> u32 \<Rightarrow> u32 \<Rightarrow> u32 \<Rightarrow> memory" where
  "memset m dst val n = memset_loop m dst (ucast val) (unat n)"

text \<open>
  \<open>memcpy\<close> and \<open>memmove\<close> of the C library: the destination receives
  the bytes the source held before the call.
\<close>

definition memmove :: "memory \<Rightarrow> u32 \<Rightarrow> u32 \<Rightarrow> u32 \<Rightarrow> memory" where
  "memmove m dest src n = (\<lambda>x. if x \<in> span dest (unat n) then m (src + (x - dest)) else m x)"

definition memcpy :: "memory \<Rightarrow> u32 \<Rightarrow> u32 \<Rightarrow> u32 \<Rightarrow> memory" where
  "memcpy m dest src n = memmove m dest src n"

section \<open>Strings in memory\<close>

primrec cstr :: "memory \<Rightarrow> u32 \<Rightarrow> u8 list \<Rightarrow> bool" where
  "cstr m p [] \<longleftrightarrow> m p = 0"
| "cstr m p (c # cs) \<longleftrightarrow> m p = c \<and> c \<noteq> 0 \<and> cstr m (p + 1) cs"

text \<open>The order \<open>strcmp\<close> computes, on lists.\<close>

fun compare_bytes :: "u8 list \<Rightarrow> u8 list \<Rightarrow> int" where
  "compare_bytes [] [] = 0"
| "compare_bytes (x # xs) [] = uint x"
| "compare_bytes [] (y # ys) = - uint y"
| "compare_bytes (x # xs) (y # ys) = (if x = y then compare_bytes xs ys else uint x - uint y)"

section \<open>Facts\<close>

lemma cstr_unique: "cstr m p xs \<Longrightarrow> cstr m p ys \<Longrightarrow> xs = ys"
proof (induction xs arbitrary: p ys)
  case Nil
  then show ?case by (cases ys) auto
next
  case (Cons x xs)
  then show ?case by (cases ys) auto
qed

lemma cstr_cong:
  "(\<And>x. x \<in> span p (Suc (length xs)) \<Longrightarrow> m x = m' x) \<Longrightarrow> cstr m p xs = cstr m' p xs"
proof (induction xs arbitrary: p)
  case Nil
  then show ?case by (simp add: span_Suc)
next
  case (Cons x xs)
  have "m p = m' p" using Cons.prems by (simp add: span_Suc)
  moreover have "cstr m (p + 1) xs = cstr m' (p + 1) xs"
    using Cons.prems by (intro Cons.IH) (simp add: span_Suc [of p])
  ultimately show ?case by simp
qed

lemma strcmp_compare:
  "cstr m a xs \<Longrightarrow> cstr m b ys \<Longrightarrow> strcmp m a b = Some (compare_bytes xs ys)"
proof (induction xs ys arbitrary: a b rule: compare_bytes.induct)
  case (4 x xs y ys)
  then show ?case by (subst strcmp.simps) auto
qed (subst strcmp.simps; auto)+

lemma compare_bytes_eq_0: "0 \<notin> set xs \<Longrightarrow> 0 \<notin> set ys \<Longrightarrow> compare_bytes xs ys = 0 \<longleftrightarrow> xs = ys"
  by (induction xs ys rule: compare_bytes.induct) (auto simp: unsigned_eq_0_iff dest: unsigned_word_eqI)

lemma cstr_nonzero: "cstr m p xs \<Longrightarrow> 0 \<notin> set xs"
  by (induction xs arbitrary: p) auto

lemma strlen_loop_cstr:
  "cstr m (str + len) xs \<Longrightarrow> strlen_loop m str len = Some (len + of_nat (length xs))"
proof (induction xs arbitrary: len)
  case Nil
  then show ?case by (simp add: strlen_loop.simps)
next
  case (Cons x xs)
  then have "cstr m (str + (len + 1)) xs" by (simp add: add.assoc)
  from Cons.IH [OF this] Cons.prems show ?case
    by (subst strlen_loop.simps) (simp add: algebra_simps)
qed

lemma memset_loop_apply:
  "n \<le> 2 ^ 32 \<Longrightarrow> memset_loop m d v n x = (if x \<in> span d n then v else m x)"
proof (induction n arbitrary: m d)
  case 0
  then show ?case by simp
next
  case (Suc n)
  then have "memset_loop m d v (Suc n) x = (if x \<in> span (d + 1) n then v else (m(d := v)) x)"
    by simp
  then show ?case by (auto simp: span_Suc)
qed

lemma memset_apply [mem_simps]:
  "memset m d v n x = (if x \<in> span d (unat n) then ucast v else m x)"
  by (simp add: memset_def memset_loop_apply less_imp_le [OF unat_bound32, simplified])

lemma memset_only: "only_changes (span d (unat n)) m (memset m d v n)"
  by (simp add: only_changes_def memset_apply)

lemma memset_zero_rd32:
  assumes "span a 4 \<subseteq> span d (unat n)"
  shows "rd32 (memset m d 0 n) a = 0"
proof -
  have "rd32 (memset m d 0 n) a = rd32 (\<lambda>_. 0) a"
    using assms by (intro rd32_cong) (auto simp: memset_apply)
  also have "\<dots> = 0" by (simp add: rd32_def)
  finally show ?thesis .
qed

lemma strncpy_pad_apply:
  "strncpy_pad m dest i n x = (if x \<in> span (dest + i) (unat n - unat i) then 0 else m x)"
proof (induction m dest i n rule: strncpy_pad.induct)
  case (1 m dest i n)
  show ?case
  proof (cases "i < n")
    case True
    then have k: "unat n - unat i = Suc (unat n - unat (i + 1))"
      by (simp add: unat_inc) (simp add: word_less_nat_alt)
    have "strncpy_pad m dest i n x = strncpy_pad (m(dest + i := 0)) dest (i + 1) n x"
      using True by (subst strncpy_pad.simps) simp
    also have "\<dots> = (if x \<in> span (dest + (i + 1)) (unat n - unat (i + 1)) then 0 else (m(dest + i := 0)) x)"
      by (rule "1.IH" [OF True])
    finally show ?thesis by (auto simp: k span_Suc add.assoc)
  next
    case False
    then show ?thesis by (simp add: strncpy_pad.simps word_less_nat_alt)
  qed
qed

lemma strncpy_copy_apply:
  assumes "cstr m (src + i) ys" "i \<le> n"
    and "span (src + i) (Suc (length ys)) \<inter> span (dest + i) (unat n - unat i) = {}"
  shows "strncpy_copy m dest src i n =
    (\<lambda>x. if x \<in> span (dest + i) (min (length ys) (unat n - unat i)) then ys ! unat (x - (dest + i)) else m x,
     i + of_nat (min (length ys) (unat n - unat i)))"
  using assms
proof (induction ys arbitrary: m i)
  case Nil
  then show ?case by (simp add: strncpy_copy.simps)
next
  case (Cons y ys)
  show ?case
  proof (cases "i < n")
    case True
    let ?k = "unat n - unat (i + 1)" and ?m = "m(dest + i := y)"
    have k: "unat n - unat i = Suc ?k" using True
      by (simp add: unat_inc) (simp add: word_less_nat_alt)
    have d: "dest + i \<notin> span (src + i) (Suc (Suc (length ys)))"
      using Cons.prems(3) unfolding k by (auto simp: span_Suc [of "dest + i"])
    have "cstr m (src + (i + 1)) ys = cstr ?m (src + (i + 1)) ys"
      by (rule cstr_cong) (use d in \<open>auto simp: span_Suc [of "src + i"] add.assoc\<close>)
    then have "cstr ?m (src + (i + 1)) ys" using Cons.prems(1) by (simp add: add.assoc)
    moreover have "i + 1 \<le> n" using True by (simp add: inc_le)
    moreover have "span (src + (i + 1)) (Suc (length ys)) \<inter> span (dest + (i + 1)) ?k = {}"
      using Cons.prems(3) unfolding k
      by (auto simp: span_Suc [of "src + i"] span_Suc [of "dest + i"] add.assoc)
    ultimately have IH: "strncpy_copy ?m dest src (i + 1) n =
      (\<lambda>x. if x \<in> span (dest + (i + 1)) (min (length ys) ?k) then ys ! unat (x - (dest + (i + 1))) else ?m x,
       i + 1 + of_nat (min (length ys) ?k))" by (rule Cons.IH)
    have step: "strncpy_copy m dest src i n = strncpy_copy ?m dest src (i + 1) n"
      using True Cons.prems(1) by (subst strncpy_copy.simps) auto
    have dst: "(if x \<in> span (dest + (i + 1)) (min (length ys) ?k) then ys ! unat (x - (dest + (i + 1))) else ?m x)
      = (if x \<in> span (dest + i) (Suc (min (length ys) ?k)) then (y # ys) ! unat (x - (dest + i)) else m x)" for x
    proof (cases "x = dest + i")
      case True
      have "dest + i \<notin> span (dest + (i + 1)) (min (length ys) ?k)"
      proof -
        have "min (length ys) ?k \<le> unat n" by simp
        then have "1 + min (length ys) ?k \<le> 2 ^ 32" using unat_bound32 [of n] by simp
        from span_tail_disjoint [OF this, of "dest + i" "dest + i"] show ?thesis
          by (simp add: span_iff add.assoc)
      qed
      then show ?thesis using True by (simp add: span_Suc)
    next
      case False
      then have "x - (dest + i) \<noteq> 0" by simp
      then have "unat (x - (dest + i) - 1) = unat (x - (dest + i)) - 1" "0 < unat (x - (dest + i))"
        by (simp_all add: unat_minus_one unat_gt_0)
      then have "Suc (unat (x - (dest + i) - 1)) = unat (x - (dest + i))" by linarith
      moreover have "x - (dest + i) - 1 = x - (dest + (i + 1))" by simp
      ultimately have "unat (x - (dest + i)) = Suc (unat (x - (dest + (i + 1))))" by (simp only:)
      then show ?thesis using False by (simp add: span_iff)
    qed
    show ?thesis unfolding step IH k dst by (simp add: algebra_simps)
  next
    case False
    then have "unat n - unat i = 0" by (simp add: word_less_nat_alt)
    then show ?thesis using False by (simp add: strncpy_copy.simps)
  qed
qed

lemma strncpy_apply:
  assumes "cstr m src xs" "span src (Suc (length xs)) \<inter> span dest (unat n) = {}"
  shows "strncpy m dest src n x =
    (if x \<in> span dest (unat n)
     then if unat (x - dest) < length xs then xs ! unat (x - dest) else 0
     else m x)"
proof -
  let ?k = "min (length xs) (unat n)"
  have c: "strncpy_copy m dest src 0 n =
      (\<lambda>x. if x \<in> span dest ?k then xs ! unat (x - dest) else m x, of_nat ?k)"
    using strncpy_copy_apply [of m src 0 xs n dest] assms by (simp cong: if_cong)
  have k: "unat (of_nat ?k :: u32) = ?k"
    using unat_bound32 [of n] by (intro unat_of_nat32) (simp add: min_def)
  have sp: "span dest (unat n) = span dest ?k \<union> span (dest + of_nat ?k) (unat n - ?k)"
    using span_add [of dest ?k "unat n - ?k"] by simp
  have tail: "x \<notin> span (dest + of_nat ?k) (unat n - ?k)" if "x \<in> span dest ?k"
    by (rule span_tail_disjoint [OF _ that]) (use unat_bound32 [of n] in simp)
  consider (copied) "x \<in> span dest ?k" | (padded) "x \<in> span (dest + of_nat ?k) (unat n - ?k)"
    | (outside) "x \<notin> span dest (unat n)" "x \<notin> span dest ?k" "x \<notin> span (dest + of_nat ?k) (unat n - ?k)"
    using sp by blast
  then show ?thesis
  proof cases
    case copied
    then show ?thesis using tail [OF copied]
      by (simp add: strncpy_def c strncpy_pad_apply k) (simp add: span_iff)
  next
    case padded
    then have "x \<notin> span dest ?k" "x \<in> span dest (unat n)" using tail sp by blast+
    then show ?thesis using padded
      by (simp add: strncpy_def c strncpy_pad_apply k) (simp add: span_iff)
  next
    case outside
    then show ?thesis by (simp add: strncpy_def c strncpy_pad_apply k)
  qed
qed

lemma memmove_only: "only_changes (span d (unat n)) m (memmove m d src n)"
  by (simp add: only_changes_def memmove_def)

section \<open>Copying and searching\<close>

text \<open>Bytes stored one after the other.\<close>

primrec put_bytes :: "memory \<Rightarrow> u32 \<Rightarrow> u8 list \<Rightarrow> memory" where
  "put_bytes m p [] = m"
| "put_bytes m p (c # cs) = put_bytes (m(p := c)) (p + 1) cs"

lemma put_bytes_append:
  "put_bytes m p (xs @ ys) = put_bytes (put_bytes m p xs) (p + of_nat (length xs)) ys"
  by (induction xs arbitrary: m p) (simp_all add: algebra_simps)

lemma put_bytes_only: "only_changes (span p (length xs)) m (put_bytes m p xs)"
proof (induction xs arbitrary: m p)
  case (Cons c cs)
  have "only_changes {p} m (m(p := c))" by (simp add: only_changes_upd)
  from only_changes_trans [OF this Cons.IH [of "p + 1" "m(p := c)"]] show ?case
    by (simp add: span_Suc fun_upd_def)
qed simp

lemma put_bytes_first:
  assumes "length (c # cs) \<le> 2 ^ 32"
  shows "put_bytes m p (c # cs) p = c"
proof -
  have "p \<notin> span (p + 1) (length cs)"
    using span_tail_disjoint [of 1 "length cs" p p] assms by (simp add: span_iff)
  then show ?thesis using put_bytes_only [of "p + 1" cs "m(p := c)"]
    by (simp add: only_changes_def)
qed

lemma put_bytes_cstr:
  "0 \<notin> set xs \<Longrightarrow> Suc (length xs) \<le> 2 ^ 32 \<Longrightarrow> cstr (put_bytes m p (xs @ [0])) p xs"
proof (induction xs arbitrary: m p)
  case (Cons c cs)
  have "put_bytes m p (c # cs @ [0]) p = c"
    using put_bytes_first [of c "cs @ [0]"] Cons.prems(2) by simp
  then show ?case using Cons by (simp del: fun_upd_apply)
qed simp

lemma strcpy_loop_put:
  assumes "cstr m src xs" "span src (Suc (length xs)) \<inter> span ptr (length xs) = {}"
  shows "strcpy_loop m ptr src = Some (put_bytes m ptr xs, ptr + of_nat (length xs))"
  using assms
proof (induction xs arbitrary: m ptr src)
  case Nil
  then show ?case by (simp add: strcpy_loop.simps)
next
  case (Cons c cs)
  have "ptr \<notin> span (src + 1) (Suc (length cs))"
    using Cons.prems(2) by (auto simp: span_Suc)
  then have "cstr (m(ptr := c)) (src + 1) cs = cstr m (src + 1) cs"
    by (intro cstr_cong) auto
  then have c: "cstr (m(ptr := c)) (src + 1) cs" using Cons.prems(1) by (metis cstr.simps(2))
  have d: "span (src + 1) (Suc (length cs)) \<inter> span (ptr + 1) (length cs) = {}"
    using Cons.prems(2) by (auto simp: span_Suc)
  have "strcpy_loop m ptr src = strcpy_loop (m(ptr := c)) (ptr + 1) (src + 1)"
    using Cons.prems(1) by (subst strcpy_loop.simps) auto
  also have "\<dots> = Some (put_bytes (m(ptr := c)) (ptr + 1) cs, ptr + 1 + of_nat (length cs))"
    by (rule Cons.IH [OF c d])
  finally show ?case by (simp add: algebra_simps fun_upd_def)
qed

lemma strchr_first:
  "cstr m p xs \<Longrightarrow> strchr m p c =
    Some (if c \<in> set xs then p + of_nat (length (takeWhile (\<lambda>x. x \<noteq> c) xs)) else 0)"
proof (induction xs arbitrary: p)
  case Nil
  then show ?case by (simp add: strchr.simps)
next
  case (Cons x xs)
  then show ?case by (subst strchr.simps) (auto simp: algebra_simps)
qed

section \<open>Properties\<close>

text \<open>Two strings in memory, for the witnesses.\<close>

definition strings0 :: memory where
  "strings0 = put_bytes (put_bytes (\<lambda>_. 0) 0x1000 [110, 105, 107, 97, 0]) 0x2000 [110, 105, 108, 0]"

lemma strings0_cstr: "cstr strings0 0x1000 [110, 105, 107, 97]" "cstr strings0 0x2000 [110, 105, 108]"
  by (simp_all add: strings0_def)

text \<open>
  \<open>strcmp\<close>: on two terminated strings the loop ends, the result is 0
  exactly for equal strings, and otherwise it is the difference of the first bytes
  that differ, the terminator counting as 0.
\<close>

theorem strcmp_correct:
  assumes "cstr m a xs" "cstr m b ys"
  shows "\<exists>r. strcmp m a b = Some r \<and> (r = 0 \<longleftrightarrow> xs = ys) \<and>
    (\<forall>n. n \<le> length xs \<and> n \<le> length ys \<and> take n xs = take n ys \<and> (xs @ [0]) ! n \<noteq> (ys @ [0]) ! n \<longrightarrow>
       r = uint ((xs @ [0]) ! n) - uint ((ys @ [0]) ! n))"
proof -
  have diff: "compare_bytes xs ys = uint ((xs @ [0]) ! n) - uint ((ys @ [0]) ! n)"
    if "n \<le> length xs" "n \<le> length ys" "take n xs = take n ys" "(xs @ [0]) ! n \<noteq> (ys @ [0]) ! n" for n
    using that
  proof (induction xs ys arbitrary: n rule: compare_bytes.induct)
    case (4 x xs y ys)
    then show ?case by (cases n) auto
  qed auto
  show ?thesis
    using strcmp_compare [OF assms] compare_bytes_eq_0 diff cstr_nonzero assms by blast
qed

theorem strcmp_correct_witness:
  "strcmp strings0 0x1000 0x2000 = Some (- 1)"
  using strcmp_correct [OF strings0_cstr] by (auto dest!: spec [of _ 2])

text \<open>
  \<open>strlen\<close>, \<open>strchr\<close>: on a terminated string \<open>strlen\<close> returns its
  length and \<open>strchr\<close> the address of the first occurrence, or NULL; asked for
  the terminator itself \<open>strchr\<close> returns NULL.
\<close>

theorem strlen_strchr_correct:
  assumes "cstr m p xs"
  shows "strlen m p = Some (of_nat (length xs)) \<and>
    strchr m p c = Some (if c \<in> set xs then p + of_nat (length (takeWhile (\<lambda>x. x \<noteq> c) xs)) else 0) \<and>
    strchr m p 0 = Some 0"
  using strlen_loop_cstr [of m p 0 xs] strchr_first [OF assms] cstr_nonzero [OF assms] assms
  by (simp add: strlen_def)

theorem strlen_strchr_correct_witness:
  "strlen strings0 0x1000 = Some 4 \<and> strchr strings0 0x1000 107 = Some 0x1002"
  using strlen_strchr_correct [OF strings0_cstr(1), of 107] by simp

text \<open>
  \<open>strcpy\<close>: copying a terminated string to a buffer it does not overlap
  ends, leaves the same string in the buffer and writes exactly its bytes and
  terminator.
\<close>

theorem strcpy_copies:
  assumes "cstr m src xs" "span src (Suc (length xs)) \<inter> span dest (Suc (length xs)) = {}"
    and "length xs < 2 ^ 31"
  shows "\<exists>m'. strcpy m dest src = Some m' \<and> cstr m' dest xs \<and> cstr m' src xs \<and>
    only_changes (span dest (Suc (length xs))) m m'"
proof -
  let ?m = "put_bytes m dest (xs @ [0])"
  have "span dest (length xs) \<subseteq> span dest (Suc (length xs))" by (rule span_mono) simp
  then have "strcpy_loop m dest src = Some (put_bytes m dest xs, dest + of_nat (length xs))"
    using assms(2) by (intro strcpy_loop_put [OF assms(1)]) blast
  then have s: "strcpy m dest src = Some ?m"
    by (simp add: strcpy_def put_bytes_append)
  have o: "only_changes (span dest (Suc (length xs))) m ?m"
    using put_bytes_only [of dest "xs @ [0]" m] by simp
  then have "cstr ?m src xs = cstr m src xs"
    using assms(2) by (intro cstr_cong) (auto simp: only_changes_def)
  then show ?thesis using s o assms put_bytes_cstr cstr_nonzero [OF assms(1)] by auto
qed

theorem strcpy_copies_witness:
  "\<exists>m'. strcpy strings0 0x3000 0x1000 = Some m' \<and> cstr m' 0x3000 [110, 105, 107, 97]"
proof -
  have "span (0x1000 :: u32) (Suc (length [110 :: u8, 105, 107, 97])) \<inter>
      span 0x3000 (Suc (length [110 :: u8, 105, 107, 97])) = {}"
    by (rule span_disjoint) simp_all
  from strcpy_copies [OF strings0_cstr(1) this] show ?thesis by auto
qed

text \<open>
  \<open>strncpy\<close>: the buffer of \<open>n\<close> bytes receives the string, cut at
  \<open>n\<close> and padded with zeros, and nothing outside the buffer changes; the result is
  a terminated string exactly when the source is shorter than \<open>n\<close>.
\<close>

theorem strncpy_correct:
  assumes "cstr m src xs" "span src (Suc (length xs)) \<inter> span dest (unat n) = {}"
  shows "(\<forall>i < unat n. strncpy m dest src n (dest + of_nat i) = (if i < length xs then xs ! i else 0)) \<and>
    only_changes (span dest (unat n)) m (strncpy m dest src n)"
proof (intro conjI allI impI)
  fix i assume i: "i < unat n"
  then have "unat (of_nat i :: u32) = i"
    using unat_bound32 [of n] by (intro unat_of_nat32) simp
  then show "strncpy m dest src n (dest + of_nat i) = (if i < length xs then xs ! i else 0)"
    using i by (simp add: strncpy_apply [OF assms] span_iff)
next
  show "only_changes (span dest (unat n)) m (strncpy m dest src n)"
    by (simp add: only_changes_def strncpy_apply [OF assms])
qed

theorem strncpy_correct_witness:
  "strncpy strings0 0x3000 0x1000 6 0x3002 = 107 \<and> strncpy strings0 0x3000 0x1000 6 0x3005 = 0"
proof -
  have "span (0x1000 :: u32) (Suc (length [110 :: u8, 105, 107, 97])) \<inter> span 0x3000 (unat (6 :: u32)) = {}"
    by (rule span_disjoint) simp_all
  note c = strncpy_correct [OF strings0_cstr(1) this]
  have *: "i < 6 \<Longrightarrow> strncpy strings0 0x3000 0x1000 6 (0x3000 + of_nat i) =
      (if i < 4 then [110, 105, 107, 97] ! i else 0)" for i :: nat
    using c by simp
  show ?thesis using * [of 2] * [of 5] by simp
qed

end
