(* ===== verification/Stdio.thy ===== *)
theory Stdio
  imports Input CString "HOL-Library.Signed_Division"
begin

text \<open>
  The text console of \<open>lib/stdio.c\<close>: the cursor (the two static variables
  of \<open>putchar\<close>), the cells of VGA text memory, number formatting and
  \<open>EarlyLog\<close>.  Strings are the bytes before the terminator.  The buffer of
  \<open>itoa\<close> is its result; \<open>None\<close> is undefined behaviour or a loop that
  does not end.
\<close>

section \<open>Console\<close>

abbreviation (input) VGA_WIDTH :: int where "VGA_WIDTH \<equiv> 80"
abbreviation (input) VGA_HEIGHT :: int where "VGA_HEIGHT \<equiv> 25"

record console_state = input_state +
  vga :: u32
  con_x :: int
  con_y :: int

definition vga_at :: "int \<Rightarrow> int \<Rightarrow> u32" where
  "vga_at x y = of_int (0xB8000 + 2 * (y * VGA_WIDTH + x))"

definition InitStdio :: "'a console_state_scheme \<Rightarrow> 'a console_state_scheme" where
  "InitStdio s = s\<lparr>vga := vga_at 0 0\<rparr>"

text \<open>\<open>char\<close> is signed: the conversion to \<open>uint16_t\<close> extends the sign.\<close>

definition putchar :: "u8 \<Rightarrow> 'a console_state_scheme \<Rightarrow> 'a console_state_scheme" where
  "putchar c s0 = (let
     cell = vga_at (con_x s0) (con_y s0);
     s = (if c = 10 then s0\<lparr>con_x := 0, con_y := con_y s0 + 1\<rparr>
          else let s = s0\<lparr>mem := wr16 (mem s0) cell (scast c OR push_bit 8 0x0F),
                          con_x := con_x s0 + 1\<rparr>
               in if con_x s \<ge> VGA_WIDTH then s\<lparr>con_x := 0, con_y := con_y s + 1\<rparr> else s)
   in if con_y s \<ge> VGA_HEIGHT then s\<lparr>con_y := 0\<rparr> else s)"

fun Stdout :: "u8 list \<Rightarrow> 'a console_state_scheme \<Rightarrow> 'a console_state_scheme" where
  "Stdout [] s = s"
| "Stdout (c # cs) s = Stdout cs (putchar c s)"

section \<open>Numbers\<close>

definition INT_MIN :: int where
  "INT_MIN = - (2 ^ 31)"

text \<open>\<open>(digit < 10) ? ('0' + digit) : ('a' + digit - 10)\<close>, stored in a \<open>char\<close>.\<close>

definition digit_char :: "int \<Rightarrow> u8" where
  "digit_char digit = (if digit < 10 then of_int (48 + digit) else of_int (97 + digit - 10))"

partial_function (option) itoa_loop :: "int \<Rightarrow> int \<Rightarrow> u8 list \<Rightarrow> u8 list option" where
  "itoa_loop temp base buf =
     (if base = 0 then None
      else let buf' = buf @ [digit_char (temp smod base)]; temp' = temp sdiv base
           in if temp' \<noteq> 0 then itoa_loop temp' base buf' else Some buf')"

text \<open>Negating the smallest \<open>int\<close> overflows, which is undefined in C.\<close>

definition itoa :: "int \<Rightarrow> int \<Rightarrow> u8 list option" where
  "itoa val base =
     (let sign = (val < 0 \<and> base = 10)
      in if sign \<and> val = INT_MIN then None
         else do {
           ptr \<leftarrow> itoa_loop (if sign then - val else val) base [];
           Some (rev (if sign then ptr @ [45] else ptr))
         })"

section \<open>Formatted output\<close>

datatype varg = VInt u32 | VStr "u8 list"

text \<open>A character literal of the source.\<close>

definition chr :: "char \<Rightarrow> u8" where
  "chr c = of_nat (of_char c)"

definition bytes :: "string \<Rightarrow> u8 list" where
  "bytes = map chr"

text \<open>
  A missing or ill-typed argument, and a format that ends in \<open>%\<close>, are
  undefined in C.
\<close>

fun EarlyLog :: "u8 list \<Rightarrow> varg list \<Rightarrow> 'a console_state_scheme \<Rightarrow> 'a console_state_scheme option" where
  "EarlyLog [] args s = Some s"
| "EarlyLog (c # fmt) args s =
     (if c \<noteq> 37 then EarlyLog fmt args (putchar c s)
      else case fmt of
        [] \<Rightarrow> None
      | f # rest \<Rightarrow>
          (if f = 115 then
             (case args of VStr str # as \<Rightarrow> EarlyLog rest as (Stdout str s) | _ \<Rightarrow> None)
           else if f = 99 then
             (case args of VInt v # as \<Rightarrow> EarlyLog rest as (putchar (ucast v) s) | _ \<Rightarrow> None)
           else if f = 100 then
             (case args of VInt v # as \<Rightarrow>
                Option.bind (itoa (sint v) 10) (\<lambda>buf. EarlyLog rest as (Stdout buf s)) | _ \<Rightarrow> None)
           else if f = 120 then
             (case args of VInt v # as \<Rightarrow>
                Option.bind (itoa (sint v) 16) (\<lambda>buf. EarlyLog rest as (Stdout buf s)) | _ \<Rightarrow> None)
           else if f = 112 then
             (case args of VInt v # as \<Rightarrow>
                Option.bind (itoa (sint v) 16)
                  (\<lambda>buf. EarlyLog rest as (Stdout buf (putchar 120 (putchar 48 s)))) | _ \<Rightarrow> None)
           else if f = 37 then EarlyLog rest args (putchar 37 s)
           else EarlyLog rest args (putchar 63 s)))"

text \<open>The macros of \<open>inc/vga.h\<close> on the text console.\<close>

definition panic :: "string \<Rightarrow> 'a console_state_scheme \<Rightarrow> 'a console_state_scheme" where
  "panic str = Stdout (bytes str)"

definition WARN :: "string \<Rightarrow> 'a console_state_scheme \<Rightarrow> 'a console_state_scheme option" where
  "WARN str = EarlyLog (bytes ''[WARN] '') [VStr (bytes str)]"

section \<open>Facts\<close>

text \<open>The cursor stays on the screen, and only the 4000 bytes of text memory change.\<close>

definition con_ok :: "'a console_state_scheme \<Rightarrow> bool" where
  "con_ok s \<longleftrightarrow> 0 \<le> con_x s \<and> con_x s < VGA_WIDTH \<and> 0 \<le> con_y s \<and> con_y s < VGA_HEIGHT"

abbreviation vga_cells :: "u32 set" where
  "vga_cells \<equiv> span 0xB8000 4000"

lemma putchar_ok: "con_ok s \<Longrightarrow> con_ok (putchar c s)"
  by (auto simp: con_ok_def putchar_def Let_def)

lemma vga_at_cell:
  assumes "0 \<le> x" "x < VGA_WIDTH" "0 \<le> y" "y < VGA_HEIGHT"
  shows "unat (vga_at x y) = 753664 + 2 * (nat y * 80 + nat x)"
proof -
  have "vga_at x y = of_nat (753664 + 2 * (nat y * 80 + nat x))"
    using assms by (simp add: vga_at_def)
  moreover have "nat y * 80 + nat x < 2000" using assms by linarith
  then have "753664 + 2 * (nat y * 80 + nat x) < 2 ^ 32" by simp
  then have "unat (of_nat (753664 + 2 * (nat y * 80 + nat x)) :: u32) = 753664 + 2 * (nat y * 80 + nat x)"
    by (rule unat_of_nat32)
  ultimately show ?thesis by (simp only:)
qed

lemma wr16_only: "{a, a + 1} \<subseteq> A \<Longrightarrow> only_changes A m (wr16 m a v)"
  by (auto simp: only_changes_def wr16_def)

lemma putchar_only:
  assumes "con_ok s"
  shows "only_changes vga_cells (mem s) (mem (putchar c s))"
proof -
  let ?cell = "vga_at (con_x s) (con_y s)"
  have b: "0 \<le> con_x s" "con_x s < 80" "0 \<le> con_y s" "con_y s < 25"
    using assms by (auto simp: con_ok_def)
  have u: "unat ?cell = 753664 + 2 * (nat (con_y s) * 80 + nat (con_x s))"
    by (rule vga_at_cell) (use b in auto)
  moreover have "nat (con_y s) * 80 + nat (con_x s) < 2000" using b by linarith
  moreover have "unat (?cell + 1) = Suc (unat ?cell)"
    using u calculation(2) by (intro unat_inc [where n = "0xFFFFFFFF"]) (simp add: word_less_nat_alt)
  ultimately have "{?cell, ?cell + 1} \<subseteq> vga_cells" by (simp add: span_nowrap)
  then have "only_changes vga_cells (mem s) (wr16 (mem s) ?cell v)" for v
    by (rule wr16_only)
  then show ?thesis by (simp add: putchar_def Let_def)
qed

lemma Stdout_ok: "con_ok s \<Longrightarrow> con_ok (Stdout cs s)"
  by (induction cs arbitrary: s) (auto intro: putchar_ok)

lemma Stdout_only: "con_ok s \<Longrightarrow> only_changes vga_cells (mem s) (mem (Stdout cs s))"
proof (induction cs arbitrary: s)
  case (Cons c cs)
  then show ?case
    using only_changes_trans [OF putchar_only Cons.IH [OF putchar_ok]] by fastforce
qed simp

text \<open>\<open>putchar\<close> and \<open>Stdout\<close> are updates of memory and cursor only.\<close>

definition con_update :: "memory \<Rightarrow> int \<Rightarrow> int \<Rightarrow> 'a console_state_scheme \<Rightarrow> 'a console_state_scheme" where
  "con_update m x y s = s\<lparr>mem := m, con_x := x, con_y := y\<rparr>"

lemma putchar_update:
  "putchar c s = con_update (mem (putchar c s)) (con_x (putchar c s)) (con_y (putchar c s)) s"
  by (simp add: putchar_def con_update_def Let_def)

lemma con_update_twice: "con_update m x y (con_update m' x' y' s) = con_update m x y s"
  by (simp add: con_update_def)

lemma Stdout_update:
  "Stdout cs s = con_update (mem (Stdout cs s)) (con_x (Stdout cs s)) (con_y (Stdout cs s)) s"
proof (induction cs arbitrary: s)
  case Nil
  show ?case by (simp add: con_update_def)
next
  case (Cons c cs)
  show ?case
    by (subst (1) Stdout.simps, subst Cons.IH, subst (4) putchar_update) (simp add: con_update_twice)
qed

section \<open>Numbers printed and read back\<close>

text \<open>Reading a digit string, most significant digit first.\<close>

definition char_digit :: "u8 \<Rightarrow> int" where
  "char_digit c = (if c < 58 then uint c - 48 else uint c - 97 + 10)"

fun read_digits :: "int \<Rightarrow> u8 list \<Rightarrow> int" where
  "read_digits base [] = 0"
| "read_digits base (c # cs) = char_digit c * base ^ length cs + read_digits base cs"

definition digits_of :: "int \<Rightarrow> u8 list \<Rightarrow> bool" where
  "digits_of base cs \<longleftrightarrow> (\<forall>c \<in> set cs. \<exists>d. 0 \<le> d \<and> d < base \<and> c = digit_char d)"

lemma uint_digit_char:
  "0 \<le> d \<Longrightarrow> d < 16 \<Longrightarrow> uint (digit_char d) = (if d < 10 then 48 + d else 87 + d)"
  by (simp add: digit_char_def uint_word_of_int del: of_int_add of_int_diff)

lemma char_digit_char: "0 \<le> d \<Longrightarrow> d < 16 \<Longrightarrow> char_digit (digit_char d) = d"
  by (simp add: char_digit_def word_less_def uint_digit_char)

text \<open>The loop of \<open>itoa\<close> on a non-negative value, as a plain recursion.\<close>

function rev_digits :: "int \<Rightarrow> int \<Rightarrow> u8 list" where
  "rev_digits base t =
     digit_char (t mod base) # (if base > 1 \<and> t div base > 0 then rev_digits base (t div base) else [])"
  by pat_completeness auto
termination
  by (relation "measure (\<lambda>(base, t). nat t)")
    (auto simp: pos_imp_zdiv_pos_iff int_div_less_self)

declare rev_digits.simps [simp del]

lemma itoa_loop_digits:
  assumes "1 < base" "0 \<le> t"
  shows "itoa_loop t base buf = Some (buf @ rev_digits base t)"
  using assms(2)
proof (induction "nat t" arbitrary: t buf rule: less_induct)
  case less
  have q: "t sdiv base = t div base" "t smod base = t mod base"
    using assms(1) less.prems
    by (cases "t = 0"; simp add: signed_divide_int_def signed_modulo_int_def)+
  show ?case
  proof (cases "t div base = 0")
    case True
    then show ?thesis using assms(1)
      by (simp add: itoa_loop.simps rev_digits.simps q Let_def)
  next
    case False
    then have pos: "0 < t div base" using assms(1) less.prems
      by (metis order_le_less pos_imp_zdiv_nonneg_iff zero_less_one order_less_trans)
    then have "t div base < t"
      using assms(1) less.prems by (intro int_div_less_self) (auto simp: pos_imp_zdiv_pos_iff)
    then have "nat (t div base) < nat t" using pos by simp
    from less.hyps [OF this] pos assms(1) False show ?thesis
      by (subst itoa_loop.simps, subst rev_digits.simps) (simp add: q Let_def)
  qed
qed

lemma rev_digits_read:
  assumes "1 < base" "base \<le> 16" "0 \<le> t"
  shows "read_digits base (rev (rev_digits base t)) = t"
    and "digits_of base (rev_digits base t)"
proof -
  have app: "read_digits base (xs @ [c]) = read_digits base xs * base + char_digit c" for xs c
    by (induction xs) (auto simp: algebra_simps)
  have "read_digits base (rev (rev_digits base t)) = t \<and> digits_of base (rev_digits base t)"
    using assms(3)
  proof (induction "nat t" arbitrary: t rule: less_induct)
    case less
    have d: "char_digit (digit_char (t mod base)) = t mod base"
      using assms(1,2) by (intro char_digit_char) (auto intro: less_le_trans [OF pos_mod_bound])
    have "0 \<le> t mod base" "t mod base < base" using assms(1) by simp_all
    then have m: "\<exists>d\<ge>0. d < base \<and> digit_char (t mod base) = digit_char d" by blast
    show ?case
    proof (cases "0 < t div base")
      case False
      then have "t div base = 0" using assms(1) less.prems
        by (metis order_le_less pos_imp_zdiv_nonneg_iff zero_less_one order_less_trans)
      then have "t mod base = t" by (metis add.left_neutral div_mult_mod_eq mult_zero_left)
      then show ?thesis using False d m
        by (subst (1 2) rev_digits.simps) (auto simp: digits_of_def)
    next
      case True
      then have "t div base < t"
        using assms(1) less.prems by (intro int_div_less_self) (auto simp: pos_imp_zdiv_pos_iff)
      then have "nat (t div base) < nat t" using True by simp
      from less.hyps [OF this] True m assms(1) show ?thesis
        by (subst (1 2) rev_digits.simps) (auto simp: digits_of_def app d)
    qed
  qed
  then show "read_digits base (rev (rev_digits base t)) = t" "digits_of base (rev_digits base t)"
    by simp_all
qed

lemma digit_char_range:
  "0 \<le> d \<Longrightarrow> d < 16 \<Longrightarrow> 48 \<le> uint (digit_char d) \<and> uint (digit_char d) < 103"
  by (simp add: uint_digit_char)

lemma rev_digits_nonempty: "rev_digits base t \<noteq> []"
  by (subst rev_digits.simps) simp

text \<open>What \<open>itoa\<close> prints for a value that needs no sign.\<close>

lemma itoa_unsigned: "1 < base \<Longrightarrow> 0 \<le> t \<Longrightarrow> itoa t base = Some (rev (rev_digits base t))"
  by (simp add: itoa_def itoa_loop_digits)

lemma itoa_signed: "t < 0 \<Longrightarrow> t \<noteq> INT_MIN \<Longrightarrow> itoa t 10 = Some (45 # rev (rev_digits 10 (- t)))"
  by (simp add: itoa_def itoa_loop_digits)

text \<open>
  On a negative value with base 16 every remainder is negative or zero, and the
  characters stored are below the digits.
\<close>

lemma itoa_loop_negative:
  assumes "t < 0"
  shows "\<exists>cs. itoa_loop t 16 buf = Some (buf @ cs) \<and> cs \<noteq> [] \<and> uint (last cs) < 48"
  using assms
proof (induction "nat (- t)" arbitrary: t buf rule: less_induct)
  case less
  have q: "t sdiv 16 = - (- t div 16)" "t smod 16 = - (- t mod 16)"
    using less.prems by (simp_all add: signed_divide_int_def signed_modulo_int_def sgn_if)
  show ?case
  proof (cases "- t div 16 = 0")
    case True
    then have "- t < 16" using less.prems by (simp add: zdiv_eq_0_iff)
    then have m: "- t mod 16 = - t" using less.prems by simp
    have "uint (digit_char t) < 48"
      using less.prems \<open>- t < 16\<close> by (simp add: digit_char_def uint_word_of_int del: of_int_add)
    then show ?thesis using True
      by (subst itoa_loop.simps) (simp add: q m Let_def)
  next
    case False
    then have "nat (- (t sdiv 16)) < nat (- t)" "t sdiv 16 < 0"
      using less.prems by (auto simp: q)
    from less.hyps [OF this, of "buf @ [digit_char (t smod 16)]"] show ?thesis
      using False by (subst itoa_loop.simps) (auto simp: q Let_def)
  qed
qed

section \<open>What a format prints\<close>

text \<open>
  The bytes \<open>EarlyLog\<close> sends to the console for a format and its arguments,
  as a function of these alone.
\<close>

definition fmt_arg :: "u8 \<Rightarrow> varg \<Rightarrow> u8 list option" where
  "fmt_arg f a = (case a of
     VStr str \<Rightarrow> if f = 115 then Some str else None
   | VInt v \<Rightarrow> if f = 115 then None
       else if f = 99 then Some [ucast v]
       else if f = 100 then itoa (sint v) 10
       else if f = 120 then itoa (sint v) 16
       else map_option (\<lambda>h. 48 # 120 # h) (itoa (sint v) 16))"

definition takes_arg :: "u8 \<Rightarrow> bool" where
  "takes_arg f \<longleftrightarrow> f \<in> {115, 99, 100, 120, 112}"

fun render :: "u8 list \<Rightarrow> varg list \<Rightarrow> u8 list option" where
  "render [] args = Some []"
| "render (c # fmt) args =
     (if c \<noteq> 37 then map_option ((#) c) (render fmt args)
      else case fmt of
        [] \<Rightarrow> None
      | f # rest \<Rightarrow>
          if takes_arg f then
            (case args of
               [] \<Rightarrow> None
             | a # as \<Rightarrow> Option.bind (fmt_arg f a) (\<lambda>out. map_option ((@) out) (render rest as)))
          else map_option ((#) (if f = 37 then 37 else 63)) (render rest args))"

lemma EarlyLog_arg:
  assumes "takes_arg f"
  shows "EarlyLog (37 # f # rest) (a # as) s = Option.bind (fmt_arg f a) (\<lambda>out. EarlyLog rest as (Stdout out s))"
    and "EarlyLog (37 # f # rest) [] s = None"
proof -
  show "EarlyLog (37 # f # rest) [] s = None"
    using assms by (auto simp: takes_arg_def)
  show "EarlyLog (37 # f # rest) (a # as) s = Option.bind (fmt_arg f a) (\<lambda>out. EarlyLog rest as (Stdout out s))"
  proof (cases a)
    case (VStr str)
    then show ?thesis using assms by (auto simp: takes_arg_def fmt_arg_def)
  next
    case (VInt v)
    then show ?thesis using assms unfolding takes_arg_def
      by (elim insertE emptyE; cases "itoa (sint v) 16") (simp_all add: fmt_arg_def)
  qed
qed

lemma EarlyLog_no_arg:
  assumes "\<not> takes_arg f"
  shows "EarlyLog (37 # f # rest) args s = EarlyLog rest args (putchar (if f = 37 then 37 else 63) s)"
  using assms by (simp add: takes_arg_def)

lemma Stdout_append: "Stdout (xs @ ys) s = Stdout ys (Stdout xs s)"
  by (induction xs arbitrary: s) auto

lemma EarlyLog_renders: "EarlyLog fmt args s = map_option (\<lambda>out. Stdout out s) (render fmt args)"
proof (induction "length fmt" arbitrary: fmt args s rule: less_induct)
  case less
  show ?case
  proof (cases fmt)
    case Nil
    then show ?thesis by simp
  next
    case fmt: (Cons c cs)
    note IH = less.hyps [unfolded fmt]
    show ?thesis
    proof (cases "c = 37")
      case False
      then show ?thesis using IH [of cs] by (simp add: fmt option.map_comp comp_def)
    next
      case c: True
      show ?thesis
      proof (cases cs)
        case Nil
        then show ?thesis using c fmt by simp
      next
        case cs: (Cons f rest)
        have rest: "EarlyLog rest as t = map_option (\<lambda>out. Stdout out t) (render rest as)"
          for as and t :: "'a console_state_scheme"
          by (rule IH) (simp add: cs)
        show ?thesis
        proof (cases "takes_arg f")
          case False
          show ?thesis unfolding c fmt cs EarlyLog_no_arg [OF False] rest
            using False by (simp add: option.map_comp comp_def)
        next
          case f: True
          show ?thesis
          proof (cases args)
            case Nil
            show ?thesis unfolding c fmt cs Nil EarlyLog_arg(2) [OF f] using f by simp
          next
            case (Cons a as)
            show ?thesis unfolding c fmt cs Cons EarlyLog_arg(1) [OF f] rest
              using f by (cases "fmt_arg f a") (simp_all add: option.map_comp comp_def Stdout_append)
          qed
        qed
      qed
    qed
  qed
qed

section \<open>Boot state\<close>

definition console0 :: "input_state \<Rightarrow> console_state" where
  "console0 i = input_state.extend i (console_state.fields 0 0 0)"

lemma console0_simps [simp]:
  "con_x (console0 i) = 0" "con_y (console0 i) = 0" "mem (console0 i) = mem i"
  "iolog (console0 i) = iolog i" "dev8 (console0 i) = dev8 i"
  by (simp_all add: console0_def input_state.defs console_state.defs)

abbreviation boot_console :: console_state where
  "boot_console \<equiv> console0 (boot_input devices0)"

lemma boot_con_ok: "con_ok boot_console"
  by (simp add: con_ok_def)

section \<open>Properties\<close>

text \<open>The number of the cell under the cursor.\<close>

definition cell_index :: "'a console_state_scheme \<Rightarrow> int" where
  "cell_index s = con_y s * VGA_WIDTH + con_x s"

text \<open>
  One character: with the cursor on the screen, a plain ASCII character is
  stored as a white-on-black cell under the cursor and the cursor moves to the next
  cell, from the last one back to the first; a newline moves to the start of the
  next row, and stores nothing.
\<close>

theorem putchar_cell:
  assumes "con_ok s"
  shows "(c \<noteq> 10 \<and> c < 128 \<longrightarrow>
      rd16 (mem (putchar c s)) (vga_at (con_x s) (con_y s)) = ucast c OR 0x0F00 \<and>
      cell_index (putchar c s) = (cell_index s + 1) mod (VGA_WIDTH * VGA_HEIGHT)) \<and>
    (c = 10 \<longrightarrow> mem (putchar c s) = mem s \<and> con_x (putchar c s) = 0 \<and>
      con_y (putchar c s) = (con_y s + 1) mod VGA_HEIGHT)"
proof (intro conjI impI)
  have b: "0 \<le> con_x s" "con_x s < 80" "0 \<le> con_y s" "con_y s < 25"
    using assms by (auto simp: con_ok_def)
  show "cell_index (putchar c s) = (cell_index s + 1) mod (VGA_WIDTH * VGA_HEIGHT)" if "c \<noteq> 10 \<and> c < 128"
  proof (cases "con_x s = 79 \<and> con_y s = 24")
    case True
    then show ?thesis using that by (simp add: putchar_def cell_index_def)
  next
    case False
    then have "con_y s * 80 + con_x s + 1 < 2000" using b by linarith
    then have "(cell_index s + 1) mod (VGA_WIDTH * VGA_HEIGHT) = cell_index s + 1"
      using b by (simp add: cell_index_def mod_pos_pos_trivial)
    moreover have "cell_index (putchar c s) = cell_index s + 1"
      using that b False by (auto simp: putchar_def cell_index_def Let_def)
    ultimately show ?thesis by simp
  qed
  assume c: "c \<noteq> 10 \<and> c < 128"
  have "scast c = (ucast c :: u16)"
  proof (rule bit_word_eqI)
    fix n assume "n < LENGTH(16)"
    have "unat c < 128" using c by (simp add: word_less_nat_alt)
    then have "take_bit 7 c = c"
      by (simp add: word_unat_eq_iff unsigned_take_bit_eq take_bit_nat_eq_self)
    then have "\<not> bit c k" if "7 \<le> k" for k using that by (metis bit_take_bit_iff not_le)
    then show "bit (scast c :: u16) n = bit (ucast c :: u16) n"
      using \<open>n < LENGTH(16)\<close> by (auto simp: bit_simps min_def not_less)
  qed
  moreover have "push_bit 8 (0x0F :: u16) = 0x0F00" by (simp add: push_bit_eq_mult)
  ultimately show "rd16 (mem (putchar c s)) (vga_at (con_x s) (con_y s)) = ucast c OR 0x0F00"
    using c by (simp add: putchar_def Let_def)
next
  assume "c = 10"
  then show "mem (putchar c s) = mem s" "con_x (putchar c s) = 0"
    by (simp_all add: putchar_def Let_def)
  show "con_y (putchar c s) = (con_y s + 1) mod VGA_HEIGHT"
    using \<open>c = 10\<close> assms by (cases "con_y s = 24") (auto simp: putchar_def con_ok_def Let_def)
qed

theorem putchar_cell_witness:
  "rd16 (mem (putchar 65 boot_console)) (vga_at 0 0) = 0x0F41 \<and> cell_index (putchar 65 boot_console) = 1"
  using putchar_cell [OF boot_con_ok, of 65] by (simp add: cell_index_def)

text \<open>
  Console safety: whatever is printed, the cursor stays on the 80 by 25
  screen and no memory outside the 4000 bytes of VGA text memory changes; this
  holds of every \<open>EarlyLog\<close> call that returns.
\<close>

theorem console_output_confined:
  assumes "con_ok s"
  shows "con_ok (Stdout cs s) \<and> only_changes vga_cells (mem s) (mem (Stdout cs s)) \<and>
    (\<forall>s'. EarlyLog fmt args s = Some s' \<longrightarrow> con_ok s' \<and> only_changes vga_cells (mem s) (mem s'))"
  using assms Stdout_ok Stdout_only by (auto simp: EarlyLog_renders)

theorem console_output_confined_witness:
  "con_ok (Stdout (bytes ''nika'') boot_console) \<and>
   only_changes vga_cells (mem boot_console) (mem (Stdout (bytes ''nika'') boot_console))"
  using console_output_confined [OF boot_con_ok] by blast

text \<open>
  C35 (formats): \<open>EarlyLog\<close> prints exactly the bytes \<open>render\<close> gives for the
  format and its arguments, and is undefined exactly where \<open>render\<close> is; in
  particular the \<open>WARN\<close> macro, whose format has no conversion, prints its tag and
  drops its message.
\<close>

theorem EarlyLog_prints_rendering:
  "EarlyLog fmt args s = map_option (\<lambda>out. Stdout out s) (render fmt args) \<and>
   WARN msg s = Some (Stdout (bytes ''[WARN] '') s)"
proof -
  have "render (bytes ''[WARN] '') args = Some (bytes ''[WARN] '')" for args
    by (simp add: bytes_def chr_def of_char_def)
  then show ?thesis by (simp add: EarlyLog_renders WARN_def)
qed

text \<open>A printed decimal number, read back.\<close>

fun read_signed :: "int \<Rightarrow> u8 list \<Rightarrow> int" where
  "read_signed base (c # cs) = (if c = 45 then - read_digits base cs else read_digits base (c # cs))"
| "read_signed base [] = 0"



text \<open>
  Hexadecimal output of negative values: \<open>%x\<close> and \<open>%p\<close> pass a 32-bit
  value to \<open>itoa\<close> as \<open>int\<close>; from 0x80000000 on the text starts with a
  character below \<open>'0'\<close>, which is no hexadecimal digit.
\<close>

theorem itoa_hex_of_high_values:
  assumes "v \<ge> 0x80000000"
  shows "\<exists>c cs. render [37, 120] [VInt v] = Some (c # cs) \<and> c < 48"
proof -
  have "2147483648 \<le> unat v" "unat v < 4294967296"
    using assms unat_bound32 by (simp_all add: word_le_nat_alt)
  then have "unat v div 2 ^ 31 = 1" by (simp add: div_nat_eqI)
  then have "bit (unat v) 31" by (simp add: bit_iff_odd)
  then have "sint v < 0" by (simp add: bit_unsigned_iff flip: bit_last_iff)
  then obtain cs where cs: "itoa_loop (sint v) 16 [] = Some cs" "cs \<noteq> []" "uint (last cs) < 48"
    using itoa_loop_negative [of "sint v" "[]"] by auto
  then have "itoa (sint v) 16 = Some (last cs # rev (butlast cs))"
    by (cases cs rule: rev_cases) (simp_all add: itoa_def)
  moreover have "last cs < 48" using cs(3) by (simp add: word_less_def)
  ultimately show ?thesis by (simp add: takes_arg_def fmt_arg_def)
qed

theorem itoa_hex_of_high_values_witness:
  "\<exists>c cs. render [37, 120] [VInt 0xFFFFFFF0] = Some (c # cs) \<and> c < 48"
  using itoa_hex_of_high_values [of "0xFFFFFFF0"] by simp

end
