(* ===== verification/Pmm.thy ===== *)
theory Pmm
  imports Stdio
begin

text \<open>
  The physical memory manager, \<open>memory/pmm.c\<close>: the memory map taken from the
  boot loader, and a bitmap at physical address 1 MiB with one bit per page
  frame.  The bitmap is memory of the machine, read and written byte by byte as
  the code does.  Abstractly the manager is the set of free frames; the locale
  \<open>page_allocator\<close> is the contract the heap, the paging code and the process
  code rely on, interpreted here on \<open>pmm_alloc_page\<close>.
\<close>

section \<open>State\<close>

record MemoryBlock =
  Begin :: u32
  End :: u32
  mb_Type :: u32
  ACPI :: u32

record pmm_state = console_state +
  pmm_bitmap :: u32
  pmm_bitmap_size :: u32
  memMap :: "MemoryBlock list"
  memBlockCount :: u32
  total_pages :: u32

abbreviation (input) PAGE_SIZE :: u32 where "PAGE_SIZE \<equiv> 4096"
abbreviation (input) MULTIBOOT_BOOTLOADER_MAGIC :: u32 where "MULTIBOOT_BOOTLOADER_MAGIC \<equiv> 0x2BADB002"

section \<open>The memory map\<close>

text \<open>
  The fields of \<open>multiboot_info_t\<close> and of a memory map entry are read at their
  offsets (\<open>inc/multiboot.h\<close>).
\<close>

definition mb_flags :: "memory \<Rightarrow> u32 \<Rightarrow> u32" where
  "mb_flags m mbd = rd32 m mbd"

definition mb_mmap_length :: "memory \<Rightarrow> u32 \<Rightarrow> u32" where
  "mb_mmap_length m mbd = rd32 m (mbd + 44)"

definition mb_mmap_addr :: "memory \<Rightarrow> u32 \<Rightarrow> u32" where
  "mb_mmap_addr m mbd = rd32 m (mbd + 48)"

definition memmap_add :: "u32 \<Rightarrow> 'a pmm_state_scheme \<Rightarrow> 'a pmm_state_scheme" where
  "memmap_add mmmt s =
     (if rd32 (mem s) (mmmt + 20) = 1 \<and> memBlockCount s < 256 then
        let base = rd64 (mem s) (mmmt + 4);
            len = rd64 (mem s) (mmmt + 12);
            en = base + len
        in if base < 0x100000000 then
             let en = (if en > 0x100000000 then 0x100000000 else en)
             in s\<lparr>memMap := (memMap s)[unat (memBlockCount s) :=
                   \<lparr>Begin = ucast base, End = ucast en, mb_Type = 1, ACPI = 0\<rparr>],
                  memBlockCount := memBlockCount s + 1\<rparr>
           else s
      else s)"

partial_function (option) get_memmap_loop ::
  "u32 \<Rightarrow> u32 \<Rightarrow> 'a pmm_state_scheme \<Rightarrow> 'a pmm_state_scheme option" where
  "get_memmap_loop mbd i s =
     (if i < mb_mmap_length (mem s) mbd then
        let mmmt = mb_mmap_addr (mem s) mbd + i
        in get_memmap_loop mbd (i + (rd32 (mem s) mmmt + 4)) (memmap_add mmmt s)
      else Some s)"

definition get_memmap ::
  "u32 \<Rightarrow> u32 \<Rightarrow> 'a pmm_state_scheme \<Rightarrow> (int \<times> 'a pmm_state_scheme) option" where
  "get_memmap mbd magic s =
     (if magic \<noteq> MULTIBOOT_BOOTLOADER_MAGIC then Some (-1, panic ''Invalid magic number!\<newline>'' s)
      else if \<not> bit (mb_flags (mem s) mbd) 6 then Some (-2, panic ''No memory map from GRUB\<newline>'' s)
      else map_option (\<lambda>s. (0, s)) (get_memmap_loop mbd 0 s))"

section \<open>The bitmap\<close>

definition bm_test :: "memory \<Rightarrow> u32 \<Rightarrow> u32 \<Rightarrow> bool" where
  "bm_test m bm page \<longleftrightarrow> m (bm + page div 8) AND push_bit (unat (page mod 8)) 1 \<noteq> 0"

definition bm_set :: "memory \<Rightarrow> u32 \<Rightarrow> u32 \<Rightarrow> memory" where
  "bm_set m bm page = m(bm + page div 8 := m (bm + page div 8) OR push_bit (unat (page mod 8)) 1)"

definition bm_clear :: "memory \<Rightarrow> u32 \<Rightarrow> u32 \<Rightarrow> memory" where
  "bm_clear m bm page = m(bm + page div 8 := m (bm + page div 8) AND NOT (push_bit (unat (page mod 8)) 1))"

definition pmm_mark_free :: "u32 \<Rightarrow> 'a pmm_state_scheme \<Rightarrow> 'a pmm_state_scheme" where
  "pmm_mark_free addr s = s\<lparr>mem := bm_clear (mem s) (pmm_bitmap s) (addr div PAGE_SIZE)\<rparr>"

definition pmm_mark_used :: "u32 \<Rightarrow> 'a pmm_state_scheme \<Rightarrow> 'a pmm_state_scheme" where
  "pmm_mark_used addr s = s\<lparr>mem := bm_set (mem s) (pmm_bitmap s) (addr div PAGE_SIZE)\<rparr>"

definition pmm_reserve_kernel :: "linker \<Rightarrow> 'a pmm_state_scheme \<Rightarrow> 'a pmm_state_scheme option" where
  "pmm_reserve_kernel L s =
     page_loop (\<lambda>addr s. s\<lparr>mem := bm_set (mem s) (pmm_bitmap s) (addr div PAGE_SIZE)\<rparr>)
       (kernel_start L) (kernel_end L) s"

function pmm_alloc_loop :: "u32 \<Rightarrow> 'a pmm_state_scheme \<Rightarrow> u32 \<times> 'a pmm_state_scheme" where
  "pmm_alloc_loop i s =
     (if i < total_pages s then
        if \<not> bm_test (mem s) (pmm_bitmap s) i
        then (i * PAGE_SIZE, s\<lparr>mem := bm_set (mem s) (pmm_bitmap s) i\<rparr>)
        else pmm_alloc_loop (i + 1) s
      else (0, s))"
  by pat_completeness auto
termination
  by (relation "measure (\<lambda>(i, s). unat (total_pages s) - unat i)") (auto simp: count_down)

declare pmm_alloc_loop.simps [simp del]

definition pmm_alloc_page :: "'a pmm_state_scheme \<Rightarrow> u32 \<times> 'a pmm_state_scheme" where
  "pmm_alloc_page s = pmm_alloc_loop 0 s"

section \<open>Initialisation\<close>

definition count_pages :: "'a pmm_state_scheme \<Rightarrow> 'a pmm_state_scheme" where
  "count_pages s = fold (\<lambda>i s. let size = End (memMap s ! i) - Begin (memMap s ! i)
      in s\<lparr>total_pages := total_pages s + size div PAGE_SIZE\<rparr>) [0..<unat (memBlockCount s)] s"

definition free_blocks :: "'a pmm_state_scheme \<Rightarrow> 'a pmm_state_scheme option" where
  "free_blocks s = for_each (\<lambda>i s. page_loop pmm_mark_free (Begin (memMap s ! i)) (End (memMap s ! i)) s)
     [0..<unat (memBlockCount s)] s"

definition pmm_init ::
  "linker \<Rightarrow> u32 \<Rightarrow> u32 \<Rightarrow> 'a pmm_state_scheme \<Rightarrow> (int \<times> 'a pmm_state_scheme) option" where
  "pmm_init L mbd magic s = do {
     (_, s) \<leftarrow> get_memmap mbd magic s;
     let s = count_pages s;
     let s = s\<lparr>pmm_bitmap_size := (total_pages s + 7) div 8\<rparr>;
     let s = s\<lparr>pmm_bitmap := 0x100000\<rparr>;
     let s = s\<lparr>mem := memset (mem s) (pmm_bitmap s) 0xFF (pmm_bitmap_size s)\<rparr>;
     s \<leftarrow> free_blocks s;
     s \<leftarrow> pmm_reserve_kernel L s;
     let bitmap_start = pmm_bitmap s;
     let bitmap_end = bitmap_start + pmm_bitmap_size s;
     s \<leftarrow> page_loop (\<lambda>addr s. s\<lparr>mem := bm_set (mem s) (pmm_bitmap s) (addr div PAGE_SIZE)\<rparr>)
            bitmap_start bitmap_end s;
     let vga_page = 0xB8000 div PAGE_SIZE;
     let s = s\<lparr>mem := bm_set (mem s) (pmm_bitmap s) vga_page\<rparr>;
     Some (0, s)
   }"

section \<open>Facts about the bitmap\<close>

lemma bm_test_bit: "bm_test m bm page \<longleftrightarrow> bit (m (bm + page div 8)) (unat (page mod 8))"
  by (simp add: bm_test_def bit_iff_and_push_bit_not_eq_0)

text \<open>A bit number and a byte number identify the frame, whatever the bitmap's address.\<close>

lemma page_split:
  "page div 8 = q div 8 \<Longrightarrow> unat (page mod 8) = unat (q mod 8) \<Longrightarrow> page = (q :: u32)"
  by (metis word_mod_div_equality word_unat_eq_iff)

lemma bm_test_set [mem_simps]: "bm_test (bm_set m bm p) bm q \<longleftrightarrow> q = p \<or> bm_test m bm q"
  using page_split [of q p] by (auto simp: bm_test_bit bm_set_def bit_simps unat_mod)

lemma bm_test_clear [mem_simps]: "bm_test (bm_clear m bm p) bm q \<longleftrightarrow> q \<noteq> p \<and> bm_test m bm q"
  using page_split [of q p] by (auto simp: bm_test_bit bm_clear_def bit_simps unat_mod)

lemma bm_set_only: "only_changes {bm + page div 8} m (bm_set m bm page)"
  by (simp add: only_changes_def bm_set_def)

lemma bm_clear_only: "only_changes {bm + page div 8} m (bm_clear m bm page)"
  by (simp add: only_changes_def bm_clear_def)

lemma bm_test_cong: "m (bm + page div 8) = m' (bm + page div 8) \<Longrightarrow> bm_test m bm page = bm_test m' bm page"
  by (simp add: bm_test_bit)

text \<open>A byte of the bitmap that a frame below the total uses lies in the bitmap.\<close>

lemma bitmap_byte:
  assumes "unat page < unat (n :: u32)" "unat (n + 7) = unat n + 7"
  shows "bm + page div 8 \<in> span bm (unat ((n + 7) div 8))"
  using assms by (simp add: span_iff unat_div)

section \<open>Free frames\<close>

definition free_pages :: "'a pmm_state_scheme \<Rightarrow> nat set" where
  "free_pages s = {i. i < unat (total_pages s) \<and> \<not> bm_test (mem s) (pmm_bitmap s) (of_nat i)}"

definition bitmap_region :: "'a pmm_state_scheme \<Rightarrow> u32 set" where
  "bitmap_region s = span (pmm_bitmap s) (unat (pmm_bitmap_size s))"

definition pmm_inv :: "'a pmm_state_scheme \<Rightarrow> bool" where
  "pmm_inv s \<longleftrightarrow> unat (total_pages s) \<le> 2 ^ 20 \<and> pmm_bitmap_size s = (total_pages s + 7) div 8 \<and>
     (\<forall>i \<in> free_pages s. page_span i \<inter> bitmap_region s = {})"

lemma bitmap_region_mem [simp]: "bitmap_region (s\<lparr>mem := m\<rparr>) = bitmap_region s"
  by (simp add: bitmap_region_def)

lemma finite_free_pages [simp]: "finite (free_pages s)"
  by (simp add: free_pages_def)

lemma free_pages_bound: "pmm_inv s \<Longrightarrow> i \<in> free_pages s \<Longrightarrow> i < 2 ^ 20"
  by (auto simp: pmm_inv_def free_pages_def)

lemma free_pages_byte:
  assumes "pmm_inv s" "i < unat (total_pages s)"
  shows "pmm_bitmap s + of_nat i div 8 \<in> bitmap_region s"
proof -
  have "unat (of_nat i :: u32) = i" using assms unat_bound32 [of "total_pages s"]
    by (intro unat_of_nat32) simp
  moreover have "unat (total_pages s + 7) = unat (total_pages s) + 7"
    using assms(1) by (simp add: pmm_inv_def unat_word_ariths)
  ultimately show ?thesis
    using assms bitmap_byte [of "of_nat i" "total_pages s" "pmm_bitmap s"]
    by (simp add: bitmap_region_def pmm_inv_def)
qed

text \<open>Writes outside the bitmap do not change what is free.\<close>

lemma free_pages_mem:
  assumes "pmm_inv s" "only_changes A (mem s) m'" "A \<inter> bitmap_region s = {}"
  shows "free_pages (s\<lparr>mem := m'\<rparr>) = free_pages s"
proof -
  have "bm_test m' (pmm_bitmap s) (of_nat i) = bm_test (mem s) (pmm_bitmap s) (of_nat i)"
    if "i < unat (total_pages s)" for i
    using free_pages_byte [OF assms(1) that] assms(2,3)
    by (intro bm_test_cong) (auto simp: only_changes_def)
  then show ?thesis by (auto simp: free_pages_def)
qed

lemma pmm_inv_mem:
  assumes "pmm_inv s" "only_changes A (mem s) m'" "A \<inter> bitmap_region s = {}"
  shows "pmm_inv (s\<lparr>mem := m'\<rparr>)"
  using assms(1) unfolding pmm_inv_def free_pages_mem [OF assms] by simp

text \<open>The loop returns the least free frame from \<open>i\<close> on.\<close>

lemma pmm_alloc_loop_spec:
  assumes "\<And>j. j < unat i \<Longrightarrow> j \<notin> free_pages s"
  shows "pmm_alloc_loop i s = (if free_pages s = {} then (0, s)
    else (of_nat (Min (free_pages s)) * 4096,
          s\<lparr>mem := bm_set (mem s) (pmm_bitmap s) (of_nat (Min (free_pages s)))\<rparr>))"
  using assms
proof (induction i s rule: pmm_alloc_loop.induct)
  case (1 i s)
  show ?case
  proof (cases "i < total_pages s")
    case False
    then have "free_pages s = {}"
      using "1.prems" by (auto simp: free_pages_def word_less_nat_alt)
    with False show ?thesis by (simp add: pmm_alloc_loop.simps)
  next
    case True
    show ?thesis
    proof (cases "bm_test (mem s) (pmm_bitmap s) i")
      case True
      have "j \<notin> free_pages s" if "j < unat (i + 1)" for j
        using that "1.prems" [of j] True \<open>i < total_pages s\<close>
        by (cases "j = unat i") (auto simp: unat_inc free_pages_def)
      from "1.IH" [OF \<open>i < total_pages s\<close> _ this] True \<open>i < total_pages s\<close> show ?thesis
        by (simp add: pmm_alloc_loop.simps [of i])
    next
      case False
      then have i: "unat i \<in> free_pages s"
        using \<open>i < total_pages s\<close> by (simp add: free_pages_def word_less_nat_alt)
      then have "Min (free_pages s) = unat i"
        using "1.prems" by (intro Min_eqI) (auto intro: leI)
      then show ?thesis
        using i False \<open>i < total_pages s\<close> by (auto simp: pmm_alloc_loop.simps [of i])
    qed
  qed
qed

lemma pmm_alloc_page_spec:
  "pmm_alloc_page s = (if free_pages s = {} then (0, s)
    else (of_nat (Min (free_pages s) * 4096),
          s\<lparr>mem := bm_set (mem s) (pmm_bitmap s) (of_nat (Min (free_pages s)))\<rparr>))"
  unfolding pmm_alloc_page_def by (subst pmm_alloc_loop_spec) simp_all

lemma free_pages_set:
  assumes "i < 2 ^ 32" "unat (total_pages s) \<le> 2 ^ 20"
  shows "free_pages (s\<lparr>mem := bm_set (mem s) (pmm_bitmap s) (of_nat i)\<rparr>) = free_pages s - {i}"
proof -
  have "(of_nat j :: u32) = of_nat i \<longleftrightarrow> j = i" if "j < unat (total_pages s)" for j
  proof -
    have "unat (of_nat j :: u32) = j" "unat (of_nat i :: u32) = i"
      using that assms by (auto intro: unat_of_nat32)
    then show ?thesis by (auto simp: word_unat_eq_iff)
  qed
  then show ?thesis by (auto simp: free_pages_def bm_test_set)
qed

section \<open>The contract of the allocator\<close>

text \<open>Allocate \<open>n\<close> times in a row.\<close>

primrec iter_alloc :: "('s \<Rightarrow> u32 \<times> 's) \<Rightarrow> nat \<Rightarrow> 's \<Rightarrow> u32 list \<times> 's" where
  "iter_alloc alloc 0 s = ([], s)"
| "iter_alloc alloc (Suc n) s =
     (let (p, s1) = alloc s; (ps, s2) = iter_alloc alloc n s1 in (p # ps, s2))"

text \<open>
  What the clients of the allocator rely on: frames are handed out in increasing
  order, an allocation writes only the allocator's own memory, and clients may
  write any other memory.
\<close>

locale page_allocator =
  fixes alloc :: "'s \<Rightarrow> u32 \<times> 's"
    and frames :: "'s \<Rightarrow> nat set"
    and owned :: "'s \<Rightarrow> u32 set"
    and inv :: "'s \<Rightarrow> bool"
    and get_mem :: "'s \<Rightarrow> memory"
    and set_mem :: "memory \<Rightarrow> 's \<Rightarrow> 's"
  assumes frames_finite: "inv s \<Longrightarrow> finite (frames s)"
    and frames_bound: "inv s \<Longrightarrow> i \<in> frames s \<Longrightarrow> i < 2 ^ 20"
    and frames_owned: "inv s \<Longrightarrow> i \<in> frames s \<Longrightarrow> page_span i \<inter> owned s = {}"
    and alloc_empty: "inv s \<Longrightarrow> frames s = {} \<Longrightarrow> alloc s = (0, s)"
    and alloc_least: "inv s \<Longrightarrow> frames s \<noteq> {} \<Longrightarrow> \<exists>m'.
      alloc s = (of_nat (Min (frames s) * 4096), set_mem m' s) \<and>
      only_changes (owned s) (get_mem s) m' \<and>
      frames (set_mem m' s) = frames s - {Min (frames s)} \<and> inv (set_mem m' s)"
    and get_set: "get_mem (set_mem m s) = m"
    and owned_set: "owned (set_mem m s) = owned s"
    and write_keeps: "inv s \<Longrightarrow> only_changes A (get_mem s) m' \<Longrightarrow> A \<inter> owned s = {} \<Longrightarrow>
      inv (set_mem m' s) \<and> frames (set_mem m' s) = frames s"
begin

text \<open>One allocation, with everything a client needs to know about the frame.\<close>

lemma alloc_frame:
  assumes "inv s" "frames s \<noteq> {}"
  obtains m' where "alloc s = (of_nat (Min (frames s) * 4096), set_mem m' s)"
    "only_changes (owned s) (get_mem s) m'"
    "frames (set_mem m' s) = frames s - {Min (frames s)}" "inv (set_mem m' s)"
    "Min (frames s) \<in> frames s" "Min (frames s) < 2 ^ 20"
    "page_span (Min (frames s)) \<inter> owned s = {}"
    "\<And>x. x \<in> page_span (Min (frames s)) \<Longrightarrow> m' x = get_mem s x"
proof -
  have mem: "Min (frames s) \<in> frames s" using assms frames_finite by (intro Min_in) auto
  then have b: "Min (frames s) < 2 ^ 20" and d: "page_span (Min (frames s)) \<inter> owned s = {}"
    using assms(1) frames_bound frames_owned by blast+
  obtain m' where "alloc s = (of_nat (Min (frames s) * 4096), set_mem m' s)"
    "only_changes (owned s) (get_mem s) m'"
    "frames (set_mem m' s) = frames s - {Min (frames s)}" "inv (set_mem m' s)"
    using alloc_least [OF assms] by blast
  moreover from this(2) d have "m' x = get_mem s x" if "x \<in> page_span (Min (frames s))" for x
    using that by (auto simp: only_changes_def)
  ultimately show thesis using that mem b d by blast
qed

lemma iter_alloc_sorted:
  assumes "inv s" "n \<le> card (frames s)"
  shows "fst (iter_alloc alloc n s) =
      map (\<lambda>i. of_nat (i * 4096)) (take n (sorted_list_of_set (frames s)))"
    and "frames (snd (iter_alloc alloc n s)) = frames s - set (take n (sorted_list_of_set (frames s)))"
    and "inv (snd (iter_alloc alloc n s))"
proof -
  have "fst (iter_alloc alloc n s) =
      map (\<lambda>i. of_nat (i * 4096)) (take n (sorted_list_of_set (frames s))) \<and>
    frames (snd (iter_alloc alloc n s)) = frames s - set (take n (sorted_list_of_set (frames s))) \<and>
    inv (snd (iter_alloc alloc n s))"
    using assms
  proof (induction n arbitrary: s)
    case (Suc n)
    have fin: "finite (frames s)" and ne: "frames s \<noteq> {}"
      using Suc.prems frames_finite by auto
    obtain m' where m': "alloc s = (of_nat (Min (frames s) * 4096), set_mem m' s)"
      "frames (set_mem m' s) = frames s - {Min (frames s)}" "inv (set_mem m' s)"
      using alloc_least [OF Suc.prems(1) ne] by blast
    have "n \<le> card (frames (set_mem m' s))"
      using Suc.prems(2) fin ne by (simp add: m'(2) card_Diff_singleton)
    note IH = Suc.IH [OF m'(3) this]
    have "sorted_list_of_set (frames s) = Min (frames s) # sorted_list_of_set (frames s - {Min (frames s)})"
      using fin ne by (rule sorted_list_of_set_nonempty)
    moreover obtain ps s2 where "iter_alloc alloc n (set_mem m' s) = (ps, s2)" by fastforce
    ultimately show ?case using IH by (auto simp: m'(1,2))
  qed (simp add: assms(1))
  then show "fst (iter_alloc alloc n s) =
      map (\<lambda>i. of_nat (i * 4096)) (take n (sorted_list_of_set (frames s)))"
    "frames (snd (iter_alloc alloc n s)) = frames s - set (take n (sorted_list_of_set (frames s)))"
    "inv (snd (iter_alloc alloc n s))" by simp_all
qed

lemma iter_alloc_distinct:
  assumes "inv s" "n \<le> card (frames s)"
  shows "distinct (fst (iter_alloc alloc n s))"
proof -
  have "inj_on (\<lambda>i. of_nat (i * 4096) :: u32) (frames s)"
  proof (rule inj_onI)
    fix i j assume ij: "i \<in> frames s" "j \<in> frames s" "(of_nat (i * 4096) :: u32) = of_nat (j * 4096)"
    then have "i * 4096 = j * 4096" by (metis assms(1) frames_bound unat_page_addr)
    then show "i = j" by simp
  qed
  moreover have "set (take n (sorted_list_of_set (frames s))) \<subseteq> frames s"
    using frames_finite [OF assms(1)] by (metis set_sorted_list_of_set set_take_subset)
  ultimately show ?thesis
    by (simp add: iter_alloc_sorted(1) [OF assms] distinct_map inj_on_subset)
qed

end

lemma pmm_alloc_only:
  assumes "pmm_inv s" "free_pages s \<noteq> {}"
  shows "only_changes (bitmap_region s) (mem s) (bm_set (mem s) (pmm_bitmap s) (of_nat (Min (free_pages s))))"
proof -
  have "Min (free_pages s) \<in> free_pages s" using assms(2) by (intro Min_in) auto
  then have "Min (free_pages s) < unat (total_pages s)" by (simp add: free_pages_def)
  from free_pages_byte [OF assms(1) this] show ?thesis
    using only_changes_mono [OF bm_set_only] by blast
qed

lemma pmm_alloc_least:
  assumes "pmm_inv s" "free_pages s \<noteq> {}"
  shows "\<exists>m'. pmm_alloc_page s = (of_nat (Min (free_pages s) * 4096), s\<lparr>mem := m'\<rparr>) \<and>
      only_changes (bitmap_region s) (mem s) m' \<and>
      free_pages (s\<lparr>mem := m'\<rparr>) = free_pages s - {Min (free_pages s)} \<and> pmm_inv (s\<lparr>mem := m'\<rparr>)"
proof -
  let ?i = "Min (free_pages s)"
  let ?m = "bm_set (mem s) (pmm_bitmap s) (of_nat ?i)"
  have i: "?i \<in> free_pages s" using assms(2) by (intro Min_in) auto
  then have "?i < 2 ^ 32" using free_pages_bound [OF assms(1)] by fastforce
  moreover have t: "unat (total_pages s) \<le> 2 ^ 20" using assms(1) by (simp add: pmm_inv_def)
  ultimately have f: "free_pages (s\<lparr>mem := ?m\<rparr>) = free_pages s - {?i}" by (rule free_pages_set)
  moreover have "pmm_inv (s\<lparr>mem := ?m\<rparr>)"
    using assms(1) unfolding pmm_inv_def f by simp
  ultimately show ?thesis
    using assms(2) pmm_alloc_only [OF assms]
    by (intro exI [of _ ?m]) (simp add: pmm_alloc_page_spec del: of_nat_mult)
qed

interpretation kernel_pages:
  page_allocator pmm_alloc_page free_pages bitmap_region pmm_inv mem "\<lambda>m s. s\<lparr>mem := m\<rparr>"
proof
  fix s :: "'a pmm_state_scheme" and i A m m'
  assume inv: "pmm_inv s"
  show "finite (free_pages s)" by simp
  show "i \<in> free_pages s \<Longrightarrow> i < 2 ^ 20" by (rule free_pages_bound [OF inv])
  show "i \<in> free_pages s \<Longrightarrow> page_span i \<inter> bitmap_region s = {}"
    using inv by (simp add: pmm_inv_def)
  show "free_pages s = {} \<Longrightarrow> pmm_alloc_page s = (0, s)" by (simp add: pmm_alloc_page_spec)
  show "free_pages s \<noteq> {} \<Longrightarrow> \<exists>m'.
      pmm_alloc_page s = (of_nat (Min (free_pages s) * 4096), s\<lparr>mem := m'\<rparr>) \<and>
      only_changes (bitmap_region s) (mem s) m' \<and>
      free_pages (s\<lparr>mem := m'\<rparr>) = free_pages s - {Min (free_pages s)} \<and> pmm_inv (s\<lparr>mem := m'\<rparr>)"
    by (rule pmm_alloc_least [OF inv])
  show "only_changes A (mem s) m' \<Longrightarrow> A \<inter> bitmap_region s = {} \<Longrightarrow>
      pmm_inv (s\<lparr>mem := m'\<rparr>) \<and> free_pages (s\<lparr>mem := m'\<rparr>) = free_pages s"
    using inv pmm_inv_mem free_pages_mem by blast
qed simp_all

end
