(* ===== verification/PmmBoot.thy ===== *)
theory PmmBoot
  imports Pmm
begin

text \<open>
  What \<open>get_memmap\<close> and \<open>pmm_init\<close> of \<open>memory/pmm.c\<close> leave behind: the
  memory blocks collected from a well-formed memory map, and the exact set of
  free frames after initialisation.
\<close>

section \<open>The memory map of the boot loader\<close>

record mmap_entry =
  e_size :: u32
  e_addr :: u64
  e_len :: u64
  e_type :: u32

primrec mmap_at :: "memory \<Rightarrow> u32 \<Rightarrow> mmap_entry list \<Rightarrow> bool" where
  "mmap_at m a [] \<longleftrightarrow> True"
| "mmap_at m a (e # es) \<longleftrightarrow> rd32 m a = e_size e \<and> rd64 m (a + 4) = e_addr e \<and>
     rd64 m (a + 12) = e_len e \<and> rd32 m (a + 20) = e_type e \<and> mmap_at m (a + (e_size e + 4)) es"

definition mmap_bytes :: "mmap_entry list \<Rightarrow> nat" where
  "mmap_bytes es = (\<Sum>e\<leftarrow>es. unat (e_size e) + 4)"

text \<open>An entry the kernel keeps, and the block it becomes: clipped to 4 GiB.\<close>

definition usable_entry :: "mmap_entry \<Rightarrow> bool" where
  "usable_entry e \<longleftrightarrow> e_type e = 1 \<and> e_addr e < 0x100000000"

definition clip_entry :: "mmap_entry \<Rightarrow> MemoryBlock" where
  "clip_entry e = \<lparr>Begin = ucast (e_addr e), End = ucast (min (e_addr e + e_len e) 0x100000000),
     mb_Type = 1, ACPI = 0\<rparr>"

definition blocks :: "'a pmm_state_scheme \<Rightarrow> MemoryBlock list" where
  "blocks s = take (unat (memBlockCount s)) (memMap s)"

definition memmap_ok :: "'a pmm_state_scheme \<Rightarrow> bool" where
  "memmap_ok s \<longleftrightarrow> length (memMap s) = 256 \<and> unat (memBlockCount s) \<le> 256"

lemma memmap_add_mem [simp]: "mem (memmap_add mmmt s) = mem s"
  by (simp add: memmap_add_def Let_def)

lemma memmap_add_total [simp]: "total_pages (memmap_add mmmt s) = total_pages s"
  by (simp add: memmap_add_def Let_def)

lemma memmap_add_blocks:
  assumes "memmap_ok s" "mmap_at (mem s) a (e # es)"
  shows "blocks (memmap_add a s) =
      (if usable_entry e \<and> length (blocks s) < 256 then blocks s @ [clip_entry e] else blocks s)"
    and "memmap_ok (memmap_add a s)"
proof -
  have len: "length (blocks s) = unat (memBlockCount s)"
    using assms(1) by (simp add: blocks_def memmap_ok_def)
  have mn: "min x 0x100000000 = (if x > 0x100000000 then 0x100000000 else x)" for x :: u64
    by (cases "x \<le> 0x100000000") (auto simp: min_def not_less not_le)
  show "memmap_ok (memmap_add a s)"
    using assms(1) by (auto simp: memmap_add_def memmap_ok_def Let_def word_less_nat_alt unat_word_ariths)
  show "blocks (memmap_add a s) =
      (if usable_entry e \<and> length (blocks s) < 256 then blocks s @ [clip_entry e] else blocks s)"
  proof (cases "usable_entry e \<and> unat (memBlockCount s) < 256")
    case True
    then have "memmap_add a s = s\<lparr>memMap := (memMap s)[unat (memBlockCount s) := clip_entry e],
        memBlockCount := memBlockCount s + 1\<rparr>"
      using assms(2)
      by (simp add: memmap_add_def usable_entry_def clip_entry_def Let_def word_less_nat_alt mn)
    moreover have "unat (memBlockCount s + 1) = Suc (unat (memBlockCount s))"
      using True by (intro unat_inc [where n = 256]) (simp add: word_less_nat_alt)
    ultimately show ?thesis
      using True assms(1) len by (simp add: blocks_def memmap_ok_def take_Suc_conv_app_nth)
  next
    case False
    then have "memmap_add a s = s"
      using assms(2) by (auto simp: memmap_add_def usable_entry_def Let_def word_less_nat_alt)
    with False len show ?thesis by auto
  qed
qed

lemma mmap_bytes_Cons: "mmap_bytes (e # es) = unat (e_size e) + 4 + mmap_bytes es"
  by (simp add: mmap_bytes_def)

lemma get_memmap_loop_blocks:
  assumes "memmap_ok s" "mmap_at (mem s) (mb_mmap_addr (mem s) mbd + i) es"
    and "unat i + mmap_bytes es = unat (mb_mmap_length (mem s) mbd)"
  shows "\<exists>s'. get_memmap_loop mbd i s = Some s' \<and> memmap_ok s' \<and> mem s' = mem s \<and>
    total_pages s' = total_pages s \<and>
    blocks s' = take 256 (blocks s @ map clip_entry (filter usable_entry es))"
  using assms
proof (induction es arbitrary: i s)
  case Nil
  then have "\<not> i < mb_mmap_length (mem s) mbd" by (simp add: mmap_bytes_def word_less_nat_alt)
  then show ?case
    using Nil.prems(1) by (simp add: get_memmap_loop.simps blocks_def memmap_ok_def)
next
  case (Cons e es)
  let ?a = "mb_mmap_addr (mem s) mbd + i"
  let ?s = "memmap_add ?a s"
  let ?i = "i + (e_size e + 4)"
  have lt: "unat i + (unat (e_size e) + 4) < 2 ^ 32"
    using Cons.prems(3) unat_bound32 [of "mb_mmap_length (mem s) mbd"] by (simp add: mmap_bytes_Cons)
  then have ui: "unat ?i = unat i + (unat (e_size e) + 4)" by (simp add: unat_word_ariths)
  have guard: "i < mb_mmap_length (mem s) mbd"
    using Cons.prems(3) by (simp add: mmap_bytes_Cons word_less_nat_alt)
  have "memmap_ok ?s" by (rule memmap_add_blocks(2) [OF Cons.prems(1,2)])
  moreover have "mmap_at (mem ?s) (mb_mmap_addr (mem ?s) mbd + ?i) es"
    using Cons.prems(2) by (simp add: add.assoc)
  moreover have "unat ?i + mmap_bytes es = unat (mb_mmap_length (mem ?s) mbd)"
    using Cons.prems(3) ui by (simp add: mmap_bytes_Cons)
  ultimately obtain s' where s': "get_memmap_loop mbd ?i ?s = Some s'" "memmap_ok s'"
      "mem s' = mem ?s" "total_pages s' = total_pages ?s"
      "blocks s' = take 256 (blocks ?s @ map clip_entry (filter usable_entry es))"
    using Cons.IH by blast
  have step: "get_memmap_loop mbd i s = get_memmap_loop mbd ?i ?s"
    using guard Cons.prems(2) by (subst get_memmap_loop.simps) (simp add: Let_def)
  have "length (blocks s) \<le> 256" using Cons.prems(1) by (simp add: blocks_def memmap_ok_def)
  then have "take 256 (blocks ?s @ map clip_entry (filter usable_entry es)) =
      take 256 (blocks s @ map clip_entry (filter usable_entry (e # es)))"
    unfolding memmap_add_blocks(1) [OF Cons.prems(1,2)] by (simp add: take_Cons')
  then show ?case using s' step by auto
qed

section \<open>Marking ranges of frames\<close>

text \<open>
  The frames a loop \<open>for (addr = a; addr < e; addr += PAGE_SIZE)\<close> visits.
\<close>

definition range_frame :: "u32 \<Rightarrow> u32 \<Rightarrow> nat \<Rightarrow> bool" where
  "range_frame a e i \<longleftrightarrow> unat a div 4096 \<le> i \<and> unat a + 4096 * (i - unat a div 4096) < unat e"

lemma range_frame_seq:
  assumes "unat e + 4095 < 2 ^ 32" "i < 2 ^ 20"
  shows "(\<exists>x \<in> set (page_seq a e). of_nat i = x div PAGE_SIZE) \<longleftrightarrow> range_frame a e i"
proof -
  have eq: "(of_nat i = x div PAGE_SIZE) \<longleftrightarrow> i = unat x div 4096" for x
    using assms(2) by (auto simp: word_unat_eq_iff unat_div unat_of_nat32)
  show ?thesis unfolding eq
  proof
    assume "\<exists>x \<in> set (page_seq a e). i = unat x div 4096"
    then obtain x where x: "x \<in> set (page_seq a e)" "i = unat x div 4096" by blast
    then obtain k where "unat x = unat a + 4096 * k" "unat x < unat e"
      using set_page_seq [OF x(1) assms(1)] by blast
    with x(2) show "range_frame a e i" by (simp add: range_frame_def)
  next
    assume r: "range_frame a e i"
    define k where "k = i - unat a div 4096"
    let ?x = "of_nat (unat a + 4096 * k) :: u32"
    have lt: "unat a + 4096 * k < unat e" using r by (simp add: range_frame_def k_def)
    then have x: "unat ?x = unat a + 4096 * k"
      using unat_bound32 [of e] by (intro unat_of_nat32) simp
    have "?x \<in> set (page_seq a e)" by (rule page_seqI [OF x]) (use lt x in simp)
    moreover have "i = unat ?x div 4096" using r unfolding x by (simp add: range_frame_def k_def)
    ultimately show "\<exists>x \<in> set (page_seq a e). i = unat x div 4096" by blast
  qed
qed

definition set_all :: "u32 \<Rightarrow> u32 list \<Rightarrow> memory \<Rightarrow> memory" where
  "set_all bm xs m = fold (\<lambda>x m. bm_set m bm (x div PAGE_SIZE)) xs m"

definition clear_all :: "u32 \<Rightarrow> u32 list \<Rightarrow> memory \<Rightarrow> memory" where
  "clear_all bm xs m = fold (\<lambda>x m. bm_clear m bm (x div PAGE_SIZE)) xs m"

lemma bm_test_set_all:
  "bm_test (set_all bm xs m) bm q \<longleftrightarrow> bm_test m bm q \<or> (\<exists>x \<in> set xs. q = x div PAGE_SIZE)"
  by (induction xs arbitrary: m) (auto simp: set_all_def bm_test_set)

lemma bm_test_clear_all:
  "bm_test (clear_all bm xs m) bm q \<longleftrightarrow> bm_test m bm q \<and> \<not> (\<exists>x \<in> set xs. q = x div PAGE_SIZE)"
  by (induction xs arbitrary: m) (auto simp: clear_all_def bm_test_clear)

lemma page_loop_set:
  assumes "unat e + 4095 < 2 ^ 32"
  shows "page_loop (\<lambda>addr s. s\<lparr>mem := bm_set (mem s) (pmm_bitmap s) (addr div PAGE_SIZE)\<rparr>) a e s =
    Some (s\<lparr>mem := set_all (pmm_bitmap s) (page_seq a e) (mem s)\<rparr>)"
proof -
  have "fold (\<lambda>addr s. s\<lparr>mem := bm_set (mem s) (pmm_bitmap s) (addr div PAGE_SIZE)\<rparr>) xs s =
      s\<lparr>mem := set_all (pmm_bitmap s) xs (mem s)\<rparr>" for xs
    by (induction xs arbitrary: s) (simp_all add: set_all_def)
  then show ?thesis by (simp add: page_loop_fold [OF assms])
qed

lemma page_loop_clear:
  assumes "unat e + 4095 < 2 ^ 32"
  shows "page_loop pmm_mark_free a e s =
    Some (s\<lparr>mem := clear_all (pmm_bitmap s) (page_seq a e) (mem s)\<rparr>)"
proof -
  have "fold pmm_mark_free xs s = s\<lparr>mem := clear_all (pmm_bitmap s) xs (mem s)\<rparr>" for xs
    by (induction xs arbitrary: s) (simp_all add: clear_all_def pmm_mark_free_def)
  then show ?thesis by (simp add: page_loop_fold [OF assms])
qed

lemma map_nth_take: "n \<le> length xs \<Longrightarrow> map ((!) xs) [0..<n] = take n xs"
  by (rule nth_equalityI) simp_all

lemma blocks_nth: "memmap_ok s \<Longrightarrow> map ((!) (memMap s)) [0..<unat (memBlockCount s)] = blocks s"
  by (simp add: blocks_def memmap_ok_def map_nth_take)

text \<open>The two loops over the blocks, in closed form.\<close>

lemma count_pages_total:
  assumes "memmap_ok s"
  shows "count_pages s = s\<lparr>total_pages := total_pages s +
    (\<Sum>b\<leftarrow>blocks s. (End b - Begin b) div PAGE_SIZE)\<rparr>"
proof -
  have "fold (\<lambda>i s. let size = End (memMap s ! i) - Begin (memMap s ! i)
      in s\<lparr>total_pages := total_pages s + size div PAGE_SIZE\<rparr>) xs s =
    s\<lparr>total_pages := total_pages s + (\<Sum>b\<leftarrow>map ((!) (memMap s)) xs. (End b - Begin b) div PAGE_SIZE)\<rparr>" for xs
    by (induction xs arbitrary: s) (simp_all add: Let_def add.assoc)
  then show ?thesis unfolding count_pages_def by (simp only: blocks_nth [OF assms])
qed

lemma free_blocks_clear:
  assumes "memmap_ok s" "\<forall>b \<in> set (blocks s). unat (End b) + 4095 < 2 ^ 32"
  shows "free_blocks s = Some (s\<lparr>mem := clear_all (pmm_bitmap s)
    (concat (map (\<lambda>b. page_seq (Begin b) (End b)) (blocks s))) (mem s)\<rparr>)"
proof -
  have "for_each (\<lambda>i s. page_loop pmm_mark_free (Begin (memMap s ! i)) (End (memMap s ! i)) s) xs s =
    Some (s\<lparr>mem := clear_all (pmm_bitmap s)
      (concat (map (\<lambda>b. page_seq (Begin b) (End b)) (map ((!) (memMap s)) xs))) (mem s)\<rparr>)"
    if "\<forall>b \<in> set (map ((!) (memMap s)) xs). unat (End b) + 4095 < 2 ^ 32" for xs
    using that
  proof (induction xs arbitrary: s)
    case (Cons x xs)
    then show ?case by (simp add: page_loop_clear clear_all_def)
  qed (simp add: clear_all_def)
  from this [of "[0..<unat (memBlockCount s)]"] show ?thesis
    using assms(2) unfolding free_blocks_def blocks_nth [OF assms(1)] by blast
qed

section \<open>The state after initialisation\<close>

definition block_pages :: "MemoryBlock list \<Rightarrow> nat" where
  "block_pages bs = (\<Sum>b\<leftarrow>bs. unat (End b - Begin b) div 4096)"

lemma total_unat:
  "block_pages bs < 2 ^ 32 \<Longrightarrow> unat (\<Sum>b\<leftarrow>bs. (End b - Begin b) div PAGE_SIZE) = block_pages bs"
  by (induction bs) (auto simp: block_pages_def unat_word_ariths unat_div)

text \<open>The frames that are free after \<open>pmm_init\<close>, given the blocks and the image.\<close>

definition boot_free :: "linker \<Rightarrow> MemoryBlock list \<Rightarrow> nat set" where
  "boot_free L bs = {i. i < block_pages bs \<and> (\<exists>b \<in> set bs. range_frame (Begin b) (End b) i) \<and>
     \<not> range_frame (kernel_start L) (kernel_end L) i \<and>
     \<not> (256 \<le> i \<and> (i - 256) * 4096 < (block_pages bs + 7) div 8) \<and> i \<noteq> 184}"

lemma pmm_init_state:
  assumes "get_memmap mbd magic s = Some (r, s1)" "memmap_ok s1" "total_pages s1 = 0"
    and ends: "\<forall>b \<in> set (blocks s1). unat (End b) + 4095 < 2 ^ 32"
    and size: "block_pages (blocks s1) \<le> 2 ^ 20"
    and kernel: "unat (kernel_end L) + 4095 < 2 ^ 32"
  obtains s' where "pmm_init L mbd magic s = Some (0, s')"
    "unat (total_pages s') = block_pages (blocks s1)"
    "pmm_bitmap s' = 0x100000" "pmm_bitmap_size s' = (total_pages s' + 7) div 8"
    "mem s' = bm_set (set_all 0x100000 (page_seq 0x100000 (0x100000 + pmm_bitmap_size s'))
      (set_all 0x100000 (page_seq (kernel_start L) (kernel_end L))
        (clear_all 0x100000 (concat (map (\<lambda>b. page_seq (Begin b) (End b)) (blocks s1)))
          (memset (mem s1) 0x100000 0xFF (pmm_bitmap_size s'))))) 0x100000 184"
proof -
  let ?t = "\<Sum>b\<leftarrow>blocks s1. (End b - Begin b) div PAGE_SIZE"
  let ?n = "(?t + 7) div 8"
  have t: "unat ?t = block_pages (blocks s1)" using size by (intro total_unat) simp
  have "unat ?n < 2 ^ 18" using size by (simp add: unat_div unat_word_ariths t)
  then have n: "unat (0x100000 + ?n) + 4095 < 2 ^ 32" by (simp add: unat_word_ariths)
  let ?s = "s1\<lparr>total_pages := ?t, pmm_bitmap_size := ?n, pmm_bitmap := 0x100000,
    mem := memset (mem s1) 0x100000 0xFF ?n\<rparr>"
  have bl: "memmap_ok ?s" "blocks ?s = blocks s1"
    using assms(2) by (simp_all add: memmap_ok_def blocks_def)
  have vga: "0xB8000 div PAGE_SIZE = 184" by simp
  note free = free_blocks_clear [OF bl(1), unfolded bl(2), OF ends]
  show thesis
  proof (rule that)
    show "pmm_init L mbd magic s = Some (0, ?s\<lparr>mem :=
      bm_set (set_all 0x100000 (page_seq 0x100000 (0x100000 + ?n))
      (set_all 0x100000 (page_seq (kernel_start L) (kernel_end L))
        (clear_all 0x100000 (concat (map (\<lambda>b. page_seq (Begin b) (End b)) (blocks s1)))
          (memset (mem s1) 0x100000 0xFF ?n)))) 0x100000 184\<rparr>)"
      using free assms(1,3)
      by (simp add: pmm_init_def count_pages_total [OF assms(2)] pmm_reserve_kernel_def
          page_loop_set [OF kernel] page_loop_set [OF n] vga Let_def)
  qed (simp_all add: t)
qed

lemma ff_bits: "n < 8 \<Longrightarrow> bit (255 :: u8) n"
proof -
  have "(255 :: u8) = mask 8" by (simp add: mask_eq_exp_minus_1)
  then show "n < 8 \<Longrightarrow> bit (255 :: u8) n" by (simp only: bit_mask_iff) simp
qed

lemma pmm_init_free_inv:
  assumes "get_memmap mbd magic s = Some (r, s1)" "memmap_ok s1" "total_pages s1 = 0"
    and ends: "\<forall>b \<in> set (blocks s1). unat (End b) + 4095 < 2 ^ 32"
    and size: "block_pages (blocks s1) \<le> 2 ^ 20"
    and kernel: "unat (kernel_end L) + 4095 < 2 ^ 32"
  obtains s' where "pmm_init L mbd magic s = Some (0, s')"
    "free_pages s' = boot_free L (blocks s1)" "pmm_inv s'"
    "unat (total_pages s') = block_pages (blocks s1)" "pmm_bitmap s' = 0x100000"
proof -
  obtain s' where run: "pmm_init L mbd magic s = Some (0, s')"
    and tot: "unat (total_pages s') = block_pages (blocks s1)"
    and bm: "pmm_bitmap s' = 0x100000" and bs: "pmm_bitmap_size s' = (total_pages s' + 7) div 8"
    and m: "mem s' = bm_set (set_all 0x100000 (page_seq 0x100000 (0x100000 + pmm_bitmap_size s'))
      (set_all 0x100000 (page_seq (kernel_start L) (kernel_end L))
        (clear_all 0x100000 (concat (map (\<lambda>b. page_seq (Begin b) (End b)) (blocks s1)))
          (memset (mem s1) 0x100000 0xFF (pmm_bitmap_size s'))))) 0x100000 184"
    by (rule pmm_init_state [OF assms])
  let ?N = "block_pages (blocks s1)" and ?n = "pmm_bitmap_size s'"
  have plus7: "unat (total_pages s' + 7) = unat (total_pages s') + 7"
    using size tot by (simp add: unat_word_ariths)
  have n: "unat ?n = (?N + 7) div 8" by (simp add: bs unat_div plus7 tot)
  then have n18: "unat ?n < 2 ^ 18" using size by simp
  then have ne: "unat (0x100000 + ?n) = 0x100000 + unat ?n" by (simp add: unat_word_ariths)
  then have nend: "unat (0x100000 + ?n) + 4095 < 2 ^ 32" using n18 by simp
  have test: "bm_test (mem s') 0x100000 (of_nat i) \<longleftrightarrow>
      i = 184 \<or> (256 \<le> i \<and> (i - 256) * 4096 < unat ?n) \<or>
      range_frame (kernel_start L) (kernel_end L) i \<or>
      \<not> (\<exists>b \<in> set (blocks s1). range_frame (Begin b) (End b) i)" if i: "i < ?N" for i
  proof -
    have i20: "i < 2 ^ 20" using i size by simp
    have ui: "unat (of_nat i :: u32) = i" using i20 by (intro unat_of_nat32) simp
    have "(0x100000 :: u32) + of_nat i div 8 \<in> span 0x100000 (unat ?n)"
      using bitmap_byte [of "of_nat i" "total_pages s'" "0x100000"] i plus7 tot ui bs by simp
    then have full: "bm_test (memset (mem s1) 0x100000 0xFF ?n) 0x100000 (of_nat i)"
      using ff_bits by (simp add: bm_test_bit memset_apply unat_mod)
    have bmap: "(\<exists>x \<in> set (page_seq 0x100000 (0x100000 + ?n)). of_nat i = x div PAGE_SIZE) \<longleftrightarrow>
        256 \<le> i \<and> (i - 256) * 4096 < unat ?n"
      by (subst range_frame_seq [OF nend i20]) (auto simp: range_frame_def ne)
    have blk: "(\<exists>x \<in> set (concat (map (\<lambda>b. page_seq (Begin b) (End b)) (blocks s1))). of_nat i = x div PAGE_SIZE)
        \<longleftrightarrow> (\<exists>b \<in> set (blocks s1). range_frame (Begin b) (End b) i)"
      using range_frame_seq [OF _ i20] ends by fastforce
    have "(of_nat i = (184 :: u32)) \<longleftrightarrow> i = 184" by (simp add: word_unat_eq_iff ui)
    then show ?thesis
      unfolding m bm_test_set bm_test_set_all bm_test_clear_all bmap blk
        range_frame_seq [OF kernel i20] using full by blast
  qed
  then have free: "free_pages s' = boot_free L (blocks s1)"
    unfolding free_pages_def boot_free_def bm tot n [symmetric] by blast
  have "page_span i \<inter> bitmap_region s' = {}" if "i \<in> free_pages s'" for i
  proof -
    have i: "i < 2 ^ 20" "\<not> (256 \<le> i \<and> (i - 256) * 4096 < unat ?n)"
      using that size unfolding free boot_free_def n by auto
    have "x \<in> bitmap_region s' \<longleftrightarrow> 0x100000 \<le> unat x \<and> unat x < 0x100000 + unat ?n" for x
      unfolding bitmap_region_def bm by (subst span_nowrap) (use n18 in simp_all)
    then show ?thesis using i by (auto simp: page_span_iff)
  qed
  then have "pmm_inv s'" using size tot bs by (simp add: pmm_inv_def)
  then show thesis using that run free tot bm by blast
qed

section \<open>Boot state\<close>

definition pmm0 :: "console_state \<Rightarrow> pmm_state" where
  "pmm0 c = console_state.extend c
     (pmm_state.fields 0 0 (replicate 256 \<lparr>Begin = 0, End = 0, mb_Type = 0, ACPI = 0\<rparr>) 0 0)"

lemma pmm0_simps [simp]:
  "mem (pmm0 c) = mem c" "memBlockCount (pmm0 c) = 0" "total_pages (pmm0 c) = 0"
  "con_x (pmm0 c) = con_x c" "con_y (pmm0 c) = con_y c" "memmap_ok (pmm0 c)" "blocks (pmm0 c) = []"
  by (simp_all add: pmm0_def console_state.defs pmm_state.defs memmap_ok_def blocks_def)

text \<open>
  The information a boot loader leaves at 0x9000 on a machine with 128 MiB: low
  memory, the reserved hole below 1 MiB, and the memory above.
\<close>

definition grub_entries :: "mmap_entry list" where
  "grub_entries = [\<lparr>e_size = 20, e_addr = 0, e_len = 0x9F000, e_type = 1\<rparr>,
     \<lparr>e_size = 20, e_addr = 0x9F000, e_len = 0x61000, e_type = 2\<rparr>,
     \<lparr>e_size = 20, e_addr = 0x100000, e_len = 0x7F00000, e_type = 1\<rparr>]"

definition grub_memory :: memory where
  "grub_memory = (let m = wr32 (\<lambda>_. 0) 0x9000 0x40;
     m = wr32 m 0x902C 72;
     m = wr32 m 0x9030 0x9100;
     m = wr32 m 0x9100 20;
     m = wr32 m 0x910C 0x9F000;
     m = wr32 m 0x9114 1;
     m = wr32 m 0x9118 20;
     m = wr32 m 0x911C 0x9F000;
     m = wr32 m 0x9124 0x61000;
     m = wr32 m 0x912C 2;
     m = wr32 m 0x9130 20;
     m = wr32 m 0x9134 0x100000;
     m = wr32 m 0x913C 0x7F00000
   in wr32 m 0x9144 1)"

lemma grub_map:
  "mb_flags grub_memory 0x9000 = 0x40" "mb_mmap_length grub_memory 0x9000 = 72"
  "mb_mmap_addr grub_memory 0x9000 = 0x9100" "mmap_at grub_memory 0x9100 grub_entries"
  by (simp_all add: mb_flags_def mb_mmap_length_def mb_mmap_addr_def grub_entries_def rd64_def
      grub_memory_def rd32_def wr32_def Let_def push_bit_eq_mult)

definition boot_pmm :: pmm_state where
  "boot_pmm = (pmm0 boot_console)\<lparr>mem := grub_memory\<rparr>"

lemma boot_pmm_simps [simp]:
  "mem boot_pmm = grub_memory" "memBlockCount boot_pmm = 0" "total_pages boot_pmm = 0"
  "memmap_ok boot_pmm" "blocks boot_pmm = []"
  using pmm0_simps [of boot_console] by (simp_all add: boot_pmm_def memmap_ok_def blocks_def)

lemma grub_loaded:
  "bit (mb_flags (mem boot_pmm) 0x9000) 6" "mmap_bytes grub_entries = unat (mb_mmap_length (mem boot_pmm) 0x9000)"
  "mmap_at (mem boot_pmm) (mb_mmap_addr (mem boot_pmm) 0x9000) grub_entries"
  by (simp_all add: grub_map mmap_bytes_def) (simp_all add: grub_entries_def)

section \<open>Properties\<close>



text \<open>
  C15 (the free frames after boot): when the map is well formed, \<open>pmm_init\<close>
  returns 0 and leaves free exactly the frames of the usable blocks that do not
  belong to the kernel image, the bitmap or the VGA page and whose number is below
  the number of usable pages; frames at or above that number are lost, although the
  bitmap is indexed by absolute frame numbers.  The invariant of the allocator holds.
\<close>

theorem pmm_init_frees:
  assumes "get_memmap mbd magic s = Some (r, s1)" "memmap_ok s1" "total_pages s1 = 0"
    and "\<forall>b \<in> set (blocks s1). unat (End b) + 4095 < 2 ^ 32"
    and "block_pages (blocks s1) \<le> 2 ^ 20" "unat (kernel_end L) + 4095 < 2 ^ 32"
  shows "\<exists>s'. pmm_init L mbd magic s = Some (0, s') \<and> pmm_inv s' \<and>
    (\<forall>i. i \<in> free_pages s' \<longleftrightarrow> (\<exists>b \<in> set (blocks s1). range_frame (Begin b) (End b) i) \<and>
       i < block_pages (blocks s1) \<and> \<not> range_frame (kernel_start L) (kernel_end L) i \<and>
       \<not> (256 \<le> i \<and> (i - 256) * 4096 < (block_pages (blocks s1) + 7) div 8) \<and> i \<noteq> 184)"
proof -
  obtain s' where "pmm_init L mbd magic s = Some (0, s')"
    "free_pages s' = boot_free L (blocks s1)" "pmm_inv s'"
    by (rule pmm_init_free_inv [OF assms])
  then show ?thesis by (auto simp: boot_free_def)
qed

lemma boot_memmap:
  "\<exists>s1. get_memmap 0x9000 0x2BADB002 boot_pmm = Some (0, s1) \<and> memmap_ok s1 \<and> total_pages s1 = 0 \<and>
    blocks s1 = [\<lparr>Begin = 0, End = 0x9F000, mb_Type = 1, ACPI = 0\<rparr>,
      \<lparr>Begin = 0x100000, End = 0x8000000, mb_Type = 1, ACPI = 0\<rparr>]"
proof -
  obtain s' where "get_memmap_loop 0x9000 0 boot_pmm = Some s'" "memmap_ok s'"
    "total_pages s' = total_pages boot_pmm"
    "blocks s' = take 256 (blocks boot_pmm @ map clip_entry (filter usable_entry grub_entries))"
    using get_memmap_loop_blocks [of boot_pmm "0x9000" 0 grub_entries] grub_loaded by auto
  then show ?thesis using grub_loaded(1)
    by (simp add: get_memmap_def grub_entries_def usable_entry_def clip_entry_def min_def)
qed

theorem pmm_init_frees_witness:
  "\<exists>s'. pmm_init linker0 0x9000 0x2BADB002 boot_pmm = Some (0, s') \<and> pmm_inv s' \<and>
    0 \<in> free_pages s' \<and> 0x210 \<in> free_pages s' \<and> 0x200 \<notin> free_pages s' \<and>
    32671 \<notin> free_pages s' \<and> range_frame 0x100000 0x8000000 32671"
proof -
  obtain s1 where s1: "get_memmap 0x9000 0x2BADB002 boot_pmm = Some (0, s1)" "memmap_ok s1" "total_pages s1 = 0"
    and b: "blocks s1 = [\<lparr>Begin = 0, End = 0x9F000, mb_Type = 1, ACPI = 0\<rparr>,
      \<lparr>Begin = 0x100000, End = 0x8000000, mb_Type = 1, ACPI = 0\<rparr>]"
    using boot_memmap by blast
  have n: "block_pages (blocks s1) = 32671" by (simp add: b block_pages_def)
  have "\<forall>x \<in> set (blocks s1). unat (End x) + 4095 < 2 ^ 32" by (simp add: b)
  from pmm_init_frees [OF s1 this, of linker0] show ?thesis
    by (simp add: n) (auto simp: b range_frame_def)
qed

text \<open>
  A failing memory map is ignored: with a wrong magic number \<open>pmm_init\<close> still
  returns 0, the success code its caller checks, and no frame is free: every later
  allocation returns NULL.
\<close>

theorem pmm_init_ignores_errors:
  assumes "magic \<noteq> MULTIBOOT_BOOTLOADER_MAGIC" "memmap_ok s" "blocks s = []" "total_pages s = 0"
    and "unat (kernel_end L) + 4095 < 2 ^ 32"
  shows "\<exists>s'. pmm_init L mbd magic s = Some (0, s') \<and> pmm_alloc_page s' = (0, s')"
proof -
  let ?s = "panic ''Invalid magic number!\<newline>'' s"
  have m: "get_memmap mbd magic s = Some (- 1, ?s)" using assms(1) by (simp add: get_memmap_def)
  have up: "?s = con_update (mem ?s) (con_x ?s) (con_y ?s) s"
    unfolding panic_def by (rule Stdout_update)
  have k: "memMap ?s = memMap s" "memBlockCount ?s = memBlockCount s" "total_pages ?s = total_pages s"
    by (subst up, simp add: con_update_def)+
  then have b: "memmap_ok ?s" "blocks ?s = []" "total_pages ?s = 0"
    using assms(2-4) by (simp_all add: memmap_ok_def blocks_def)
  obtain s' where s': "pmm_init L mbd magic s = Some (0, s')" "free_pages s' = boot_free L (blocks ?s)"
    by (rule pmm_init_free_inv [OF m b(1,3) _ _ assms(5)]) (simp_all add: b block_pages_def)
  then have "free_pages s' = {}" by (simp add: b boot_free_def block_pages_def)
  then show ?thesis using s'(1) by (simp add: pmm_alloc_page_spec)
qed

theorem pmm_init_ignores_errors_witness:
  "\<exists>s'. pmm_init linker0 0x9000 0 boot_pmm = Some (0, s') \<and> pmm_alloc_page s' = (0, s')"
  by (rule pmm_init_ignores_errors) simp_all

text \<open>
  C5 (one allocation): \<open>pmm_alloc_page\<close> returns the address of the lowest free
  frame and marks only that frame used, writing nothing but the bitmap; without a
  free frame it returns NULL and changes nothing.
\<close>

theorem pmm_alloc_page_takes_least:
  assumes "pmm_inv s"
  shows "if free_pages s = {} then pmm_alloc_page s = (0, s)
    else \<exists>s'. pmm_alloc_page s = (of_nat (Min (free_pages s) * 4096), s') \<and> pmm_inv s' \<and>
      free_pages s' = free_pages s - {Min (free_pages s)} \<and>
      only_changes (bitmap_region s) (mem s) (mem s')"
proof (cases "free_pages s = {}")
  case False
  obtain m' where "pmm_alloc_page s = (of_nat (Min (free_pages s) * 4096), s\<lparr>mem := m'\<rparr>)"
    "only_changes (bitmap_region s) (mem s) m'"
    "free_pages (s\<lparr>mem := m'\<rparr>) = free_pages s - {Min (free_pages s)}" "pmm_inv (s\<lparr>mem := m'\<rparr>)"
    using pmm_alloc_least [OF assms False] by blast
  then show ?thesis using False by (simp del: of_nat_mult)
qed (simp add: pmm_alloc_page_spec)

text \<open>The state after \<open>pmm_init\<close> on the 128 MiB machine.\<close>

definition booted_pmm :: pmm_state where
  "booted_pmm = snd (the (pmm_init linker0 0x9000 0x2BADB002 boot_pmm))"

lemma booted_pmm_free:
  "pmm_inv booted_pmm" "pmm_bitmap booted_pmm = 0x100000"
  "free_pages booted_pmm = boot_free linker0 [\<lparr>Begin = 0, End = 0x9F000, mb_Type = 1, ACPI = 0\<rparr>,
      \<lparr>Begin = 0x100000, End = 0x8000000, mb_Type = 1, ACPI = 0\<rparr>]"
proof -
  obtain s1 where s1: "get_memmap 0x9000 0x2BADB002 boot_pmm = Some (0, s1)" "memmap_ok s1" "total_pages s1 = 0"
    and b: "blocks s1 = [\<lparr>Begin = 0, End = 0x9F000, mb_Type = 1, ACPI = 0\<rparr>,
      \<lparr>Begin = 0x100000, End = 0x8000000, mb_Type = 1, ACPI = 0\<rparr>]"
    using boot_memmap by blast
  obtain s' where "pmm_init linker0 0x9000 0x2BADB002 boot_pmm = Some (0, s')"
    "free_pages s' = boot_free linker0 (blocks s1)" "pmm_inv s'" "pmm_bitmap s' = 0x100000"
    by (rule pmm_init_free_inv [OF s1, where L = linker0]) (simp_all add: b block_pages_def)
  then show "pmm_inv booted_pmm" "pmm_bitmap booted_pmm = 0x100000"
    "free_pages booted_pmm = boot_free linker0 [\<lparr>Begin = 0, End = 0x9F000, mb_Type = 1, ACPI = 0\<rparr>,
      \<lparr>Begin = 0x100000, End = 0x8000000, mb_Type = 1, ACPI = 0\<rparr>]"
    by (simp_all add: booted_pmm_def b)
qed

lemma booted_pmm_low: "i < 159 \<Longrightarrow> i \<in> free_pages booted_pmm"
  unfolding booted_pmm_free(3) by (simp add: boot_free_def range_frame_def block_pages_def)

lemma booted_pmm_Min: "Min (free_pages booted_pmm) = 0"
  using booted_pmm_low [of 0] by (intro Min_eqI) auto

theorem pmm_alloc_page_takes_least_witness:
  "\<exists>s'. pmm_alloc_page booted_pmm = (0, s') \<and> free_pages s' = free_pages booted_pmm - {0}"
  using pmm_alloc_page_takes_least [OF booted_pmm_free(1)] booted_pmm_low [of 0] booted_pmm_Min
  by (auto split: if_splits)

text \<open>
  Allocation order: \<open>n\<close> allocations in a row, with at least \<open>n\<close> frames
  free, return the addresses of the \<open>n\<close> lowest free frames in increasing order;
  no frame is handed out twice, and exactly these frames stop being free.
\<close>

theorem pmm_allocations_in_order:
  assumes "pmm_inv s" "n \<le> card (free_pages s)"
  shows "fst (iter_alloc pmm_alloc_page n s) =
      map (\<lambda>i. of_nat (i * 4096)) (take n (sorted_list_of_set (free_pages s))) \<and>
    distinct (fst (iter_alloc pmm_alloc_page n s)) \<and>
    free_pages (snd (iter_alloc pmm_alloc_page n s)) =
      free_pages s - set (take n (sorted_list_of_set (free_pages s))) \<and>
    pmm_inv (snd (iter_alloc pmm_alloc_page n s))"
  using kernel_pages.iter_alloc_sorted [OF assms] kernel_pages.iter_alloc_distinct [OF assms] by blast

theorem pmm_allocations_in_order_witness:
  "fst (iter_alloc pmm_alloc_page 2 booted_pmm) = [0, 4096]"
proof -
  let ?F = "free_pages booted_pmm"
  have sub: "{0..<159} \<subseteq> ?F" using booted_pmm_low by auto
  then have card: "2 \<le> card ?F"
    using card_mono [OF finite_free_pages sub] by simp
  have "sorted_list_of_set ?F = 0 # sorted_list_of_set (?F - {0})"
    using sorted_list_of_set_nonempty [of ?F] booted_pmm_Min booted_pmm_low [of 0] by auto
  moreover have "1 \<in> ?F" by (rule booted_pmm_low) simp
  then have "Min (?F - {0}) = 1" by (intro Min_eqI) auto
  then have "sorted_list_of_set (?F - {0}) = 1 # sorted_list_of_set (?F - {0} - {1})"
    using sorted_list_of_set_nonempty [of "?F - {0}"] \<open>1 \<in> ?F\<close> by force
  ultimately show ?thesis
    using pmm_allocations_in_order [OF booted_pmm_free(1) card] by (simp add: numeral_2_eq_2)
qed

text \<open>
  Marking frames: \<open>pmm_mark_used\<close> and \<open>pmm_mark_free\<close> change the state of
  the frame their address lies in and of no other, and undo each other.
\<close>

theorem pmm_mark_one_frame:
  "bm_test (mem (pmm_mark_used a s)) (pmm_bitmap s) p = (p = a div 4096 \<or> bm_test (mem s) (pmm_bitmap s) p) \<and>
   bm_test (mem (pmm_mark_free a s)) (pmm_bitmap s) p = (p \<noteq> a div 4096 \<and> bm_test (mem s) (pmm_bitmap s) p) \<and>
   (\<not> bm_test (mem s) (pmm_bitmap s) (a div 4096) \<longrightarrow> pmm_mark_free a (pmm_mark_used a s) = s) \<and>
   (bm_test (mem s) (pmm_bitmap s) (a div 4096) \<longrightarrow> pmm_mark_used a (pmm_mark_free a s) = s)"
proof -
  let ?p = "a div 4096" and ?b = "pmm_bitmap s"
  let ?x = "?b + ?p div 8" and ?k = "unat (?p mod 8)"
  have k: "?k < 8" by (simp add: unat_mod)
  have "(w OR push_bit ?k 1) AND NOT (push_bit ?k 1) = w" if "\<not> bit w ?k" for w :: u8
    using that k by (auto intro!: bit_word_eqI simp: bit_simps)
  then have 1: "bm_clear (bm_set (mem s) ?b ?p) ?b ?p = mem s" if "\<not> bm_test (mem s) ?b ?p"
    using that by (simp add: bm_test_bit bm_set_def bm_clear_def)
  have "(w AND NOT (push_bit ?k 1)) OR push_bit ?k 1 = w" if "bit w ?k" for w :: u8
    using that k by (auto intro!: bit_word_eqI simp: bit_simps)
  then have 2: "bm_set (bm_clear (mem s) ?b ?p) ?b ?p = mem s" if "bm_test (mem s) ?b ?p"
    using that by (simp add: bm_test_bit bm_set_def bm_clear_def)
  show ?thesis
    using 1 2 by (simp add: pmm_mark_used_def pmm_mark_free_def bm_test_set bm_test_clear)
qed

theorem pmm_mark_one_frame_witness:
  "pmm_mark_free 0x3000 (pmm_mark_used 0x3000 boot_pmm) = boot_pmm"
proof -
  have "\<not> bm_test (mem boot_pmm) (pmm_bitmap boot_pmm) (0x3000 div 4096)"
    by (simp add: bm_test_bit boot_pmm_def pmm0_def console_state.defs pmm_state.defs
        grub_memory_def wr32_def Let_def)
  then show ?thesis using pmm_mark_one_frame [of "0x3000" boot_pmm] by blast
qed

end
