(* ===== verification/Heap.thy ===== *)
theory Heap
  imports PmmBoot
begin

text \<open>
  The kernel heap, \<open>memory/heap.c\<close>: a singly linked list of block headers
  inside pages taken from the physical memory manager.  A header is twelve bytes
  of memory (\<open>size\<close> at 0, \<open>flags\<close> at 4, \<open>next\<close> at 8, as the i386
  ABI lays the structure out) and is read and written there.  The relation
  \<open>hpath\<close> ties memory to a list of blocks; the operations are shown to
  compute a first-fit split, a growth step and a coalescing pass on that list.
\<close>

section \<open>State and operations\<close>

record heap_state = pmm_state +
  heap_start :: u32
  heap_end :: u32
  heap_limit :: u32

abbreviation (input) HEAP_PAGE_SIZE :: u32 where "HEAP_PAGE_SIZE \<equiv> PAGE_SIZE"
abbreviation (input) sizeof_HeapBlock :: u32 where "sizeof_HeapBlock \<equiv> 12"

definition hb_size :: "memory \<Rightarrow> u32 \<Rightarrow> u32" where
  "hb_size m b = rd32 m b"

definition hb_flags :: "memory \<Rightarrow> u32 \<Rightarrow> u8" where
  "hb_flags m b = m (b + 4)"

definition hb_next :: "memory \<Rightarrow> u32 \<Rightarrow> u32" where
  "hb_next m b = rd32 m (b + 8)"

definition set_size :: "u32 \<Rightarrow> u32 \<Rightarrow> memory \<Rightarrow> memory" where
  "set_size b v m = wr32 m b v"

definition set_flags :: "u32 \<Rightarrow> u8 \<Rightarrow> memory \<Rightarrow> memory" where
  "set_flags b v m = m(b + 4 := v)"

definition set_next :: "u32 \<Rightarrow> u32 \<Rightarrow> memory \<Rightarrow> memory" where
  "set_next b v m = wr32 m (b + 8) v"

definition heap_init :: "'a heap_state_scheme \<Rightarrow> 'a heap_state_scheme" where
  "heap_init s = (let
     (page, s) = pmm_alloc_page s;
     s = s\<lparr>heap_start := page\<rparr>;
     m = set_size page (HEAP_PAGE_SIZE - sizeof_HeapBlock) (mem s);
     m = set_flags page 0 m;
     m = set_next page 0 m
   in s\<lparr>mem := m, heap_end := page, heap_limit := page + HEAP_PAGE_SIZE\<rparr>)"

text \<open>The search of \<open>malloc\<close>: the block it stops at, 0 at the end of the list.\<close>

partial_function (option) heap_find :: "memory \<Rightarrow> u32 \<Rightarrow> u32 \<Rightarrow> u32 option" where
  "heap_find m block sz =
     (if block = 0 then Some 0
      else if hb_flags m block = 0 \<and> hb_size m block \<ge> sz then Some block
      else heap_find m (hb_next m block) sz)"

definition take_block :: "u32 \<Rightarrow> u32 \<Rightarrow> memory \<Rightarrow> memory" where
  "take_block block sz m =
     (let m = (if hb_size m block > sz + sizeof_HeapBlock then
                 let new_block = block + sizeof_HeapBlock + sz;
                     m = set_size new_block (hb_size m block - sz - sizeof_HeapBlock) m;
                     m = set_flags new_block 0 m;
                     m = set_next new_block (hb_next m block) m;
                     m = set_next block new_block m
                 in set_size block sz m
               else m)
      in set_flags block 1 m)"

definition grow_heap :: "u32 \<Rightarrow> 'a heap_state_scheme \<Rightarrow> 'a heap_state_scheme" where
  "grow_heap page s = (let
     m = set_size page (HEAP_PAGE_SIZE - sizeof_HeapBlock) (mem s);
     m = set_flags page 0 m;
     m = set_next page 0 m;
     m = set_next (heap_end s) page m
   in s\<lparr>mem := m, heap_end := page, heap_limit := heap_limit s + HEAP_PAGE_SIZE\<rparr>)"

partial_function (option) malloc ::
  "u32 \<Rightarrow> 'a heap_state_scheme \<Rightarrow> (u32 \<times> 'a heap_state_scheme) option" where
  "malloc sz s = Option.bind (heap_find (mem s) (heap_start s) sz) (\<lambda>block.
     if block \<noteq> 0
     then Some (block + sizeof_HeapBlock, s\<lparr>mem := take_block block sz (mem s)\<rparr>)
     else if fst (pmm_alloc_page s) = 0 then Some (0, snd (pmm_alloc_page s))
     else malloc sz (grow_heap (fst (pmm_alloc_page s)) (snd (pmm_alloc_page s))))"

partial_function (option) coalesce :: "memory \<Rightarrow> u32 \<Rightarrow> memory option" where
  "coalesce m cur =
     (if cur = 0 then Some m
      else if hb_flags m cur = 0 \<and> hb_next m cur \<noteq> 0 \<and> hb_flags m (hb_next m cur) = 0 then
        let m1 = set_size cur (hb_size m cur + (sizeof_HeapBlock + hb_size m (hb_next m cur))) m
        in coalesce (set_next cur (hb_next m1 (hb_next m1 cur)) m1) cur
      else coalesce m (hb_next m cur))"

definition free :: "u32 \<Rightarrow> 'a heap_state_scheme \<Rightarrow> 'a heap_state_scheme option" where
  "free ptr s =
     (if ptr = 0 then Some s
      else let block = ptr - sizeof_HeapBlock
           in map_option (\<lambda>m. s\<lparr>mem := m\<rparr>) (coalesce (set_flags block 0 (mem s)) (heap_start s)))"

section \<open>Headers in memory\<close>

lemma header_fields [mem_simps]:
  "hb_size (set_size b v m) b = v" "hb_size (set_flags b f m) b = hb_size m b"
  "hb_size (set_next b n m) b = hb_size m b"
  "hb_flags (set_size b v m) b = hb_flags m b" "hb_flags (set_flags b f m) b = f"
  "hb_flags (set_next b n m) b = hb_flags m b"
  "hb_next (set_size b v m) b = hb_next m b" "hb_next (set_flags b f m) b = hb_next m b"
  "hb_next (set_next b n m) b = n"
  unfolding hb_size_def hb_flags_def hb_next_def set_size_def set_flags_def set_next_def
  by (simp_all add: rd32_wr32_disjoint rd32_fun_upd_other wr32_other span4)

text \<open>A header is the interval of twelve addresses from the block on.\<close>

definition nspan :: "nat \<Rightarrow> nat \<Rightarrow> u32 set" where
  "nspan a n = {x. a \<le> unat x \<and> unat x < a + n}"

lemma nspan_iff [simp]: "x \<in> nspan a n \<longleftrightarrow> a \<le> unat x \<and> unat x < a + n"
  by (simp add: nspan_def)

lemma span_nspan: "unat a + n \<le> 2 ^ 32 \<Longrightarrow> span a n = nspan (unat a) n"
  by (auto simp: span_nowrap)

lemma unat_offset: "unat (p :: u32) + n < 2 ^ 32 \<Longrightarrow> unat (p + of_nat n :: u32) = unat p + n"
  by (simp add: unat_word_ariths unat_of_nat take_bit_eq_mod)

lemma header_offsets:
  assumes "unat (p :: u32) + 12 \<le> 2 ^ 32"
  shows "unat (p + 4) = unat p + 4" "unat (p + 8) = unat p + 8"
  using unat_offset [of p 4] unat_offset [of p 8] assms by simp_all

lemma header_cong:
  assumes "unat p + 12 \<le> 2 ^ 32" "\<And>x. x \<in> nspan (unat p) 12 \<Longrightarrow> m x = m' x"
  shows "hb_size m p = hb_size m' p" "hb_flags m p = hb_flags m' p" "hb_next m p = hb_next m' p"
proof -
  note o = header_offsets [OF assms(1)]
  have "span p 4 = nspan (unat p) 4" "span (p + 8) 4 = nspan (unat p + 8) 4"
    using assms(1) o by (simp_all add: span_nspan)
  then show "hb_size m p = hb_size m' p" "hb_next m p = hb_next m' p"
    unfolding hb_size_def hb_next_def using assms(2) by (auto intro!: rd32_cong)
  show "hb_flags m p = hb_flags m' p" unfolding hb_flags_def using assms(2) o by simp
qed

lemma header_write_only:
  assumes "unat p + 12 \<le> 2 ^ 32" "nspan (unat p) 12 \<subseteq> A"
  shows "only_changes A m (set_size p v m)" "only_changes A m (set_flags p f m)"
    "only_changes A m (set_next p n m)"
proof -
  note o = header_offsets [OF assms(1)]
  have "span p 4 \<subseteq> nspan (unat p) 12" "span (p + 8) 4 \<subseteq> nspan (unat p) 12"
    using assms(1) o by (auto simp: span_nspan)
  then show "only_changes A m (set_size p v m)" "only_changes A m (set_next p n m)"
    unfolding set_size_def set_next_def using assms(2) by (intro only_changes_wr32; blast)+
  show "only_changes A m (set_flags p f m)"
    unfolding set_flags_def using assms(2) o by (intro only_changes_upd) (auto simp: subset_iff)
qed

section \<open>The list of blocks\<close>

record hblk =
  b_addr :: nat
  b_size :: nat
  b_used :: bool

text \<open>The list segment from \<open>p\<close> to \<open>q\<close> holds the blocks \<open>bs\<close>.\<close>

primrec hpath :: "memory \<Rightarrow> u32 \<Rightarrow> hblk list \<Rightarrow> u32 \<Rightarrow> bool" where
  "hpath m p [] q \<longleftrightarrow> p = q"
| "hpath m p (b # bs) q \<longleftrightarrow> p \<noteq> 0 \<and> unat p = b_addr b \<and> unat (hb_size m p) = b_size b \<and>
     (hb_flags m p \<noteq> 0) = b_used b \<and> hpath m (hb_next m p) bs q"

definition b_end :: "hblk \<Rightarrow> nat" where
  "b_end b = b_addr b + 12 + b_size b"

text \<open>Blocks in list order do not overlap and increase in address.\<close>

definition packed :: "hblk list \<Rightarrow> bool" where
  "packed bs \<longleftrightarrow> sorted_wrt (\<lambda>b c. b_end b \<le> b_addr c) bs \<and> (\<forall>b \<in> set bs. 0 < b_addr b \<and> b_end b \<le> 2 ^ 32)"

lemma packed_Cons: "packed (b # bs) \<longleftrightarrow>
  (\<forall>c \<in> set bs. b_end b \<le> b_addr c) \<and> 0 < b_addr b \<and> b_end b \<le> 2 ^ 32 \<and> packed bs"
  by (auto simp: packed_def)

lemma packed_append: "packed (xs @ ys) \<longleftrightarrow>
  packed xs \<and> packed ys \<and> (\<forall>b \<in> set xs. \<forall>c \<in> set ys. b_end b \<le> b_addr c)"
  by (auto simp: packed_def sorted_wrt_append)

lemma hpath_append: "hpath m p (xs @ ys) q \<longleftrightarrow> (\<exists>r. hpath m p xs r \<and> hpath m r ys q)"
  by (induction xs arbitrary: p) auto

lemma hpath_cong:
  assumes "\<forall>b \<in> set bs. b_addr b + 12 \<le> 2 ^ 32"
    and "\<And>b x. b \<in> set bs \<Longrightarrow> x \<in> nspan (b_addr b) 12 \<Longrightarrow> m x = m' x"
  shows "hpath m p bs q \<longleftrightarrow> hpath m' p bs q"
  using assms
proof (induction bs arbitrary: p)
  case (Cons b bs)
  show ?case
  proof (cases "unat p = b_addr b")
    case True
    have "hb_size m p = hb_size m' p" "hb_flags m p = hb_flags m' p" "hb_next m p = hb_next m' p"
      using header_cong [of p m m'] Cons.prems True by auto
    moreover have "hpath m r bs q \<longleftrightarrow> hpath m' r bs q" for r
      using Cons.prems by (intro Cons.IH) auto
    ultimately show ?thesis by simp
  qed simp
qed simp

lemma hpath_only_changes:
  assumes "hpath m p bs q" "only_changes A m m'" "\<forall>b \<in> set bs. b_addr b + 12 \<le> 2 ^ 32"
    and "\<And>b. b \<in> set bs \<Longrightarrow> nspan (b_addr b) 12 \<inter> A = {}"
  shows "hpath m' p bs q"
proof -
  have "m x = m' x" if "b \<in> set bs" "x \<in> nspan (b_addr b) 12" for b x
    using that assms(2,4) by (fastforce simp: only_changes_def)
  then show ?thesis using hpath_cong [OF assms(3), of m m'] assms(1) by blast
qed

lemma packed_header: "packed bs \<Longrightarrow> b \<in> set bs \<Longrightarrow> b_addr b + 12 \<le> 2 ^ 32"
  by (auto simp: packed_def b_end_def)

section \<open>Taking a block\<close>

definition fits :: "nat \<Rightarrow> hblk \<Rightarrow> bool" where
  "fits n b \<longleftrightarrow> \<not> b_used b \<and> n \<le> b_size b"

text \<open>A block taken for \<open>n\<close> bytes: used, with the rest split off when it is large enough.\<close>

definition carve :: "nat \<Rightarrow> hblk \<Rightarrow> hblk list" where
  "carve n b = (if b_size b > n + 12
     then [\<lparr>b_addr = b_addr b, b_size = n, b_used = True\<rparr>,
           \<lparr>b_addr = b_addr b + 12 + n, b_size = b_size b - n - 12, b_used = False\<rparr>]
     else [b\<lparr>b_used := True\<rparr>])"

lemma heap_find_none:
  assumes "hpath m p bs 0" "\<forall>b \<in> set bs. \<not> fits (unat sz) b"
  shows "heap_find m p sz = Some 0"
  using assms
proof (induction bs arbitrary: p)
  case Nil
  then show ?case by (simp add: heap_find.simps)
next
  case (Cons b bs)
  then have "\<not> (hb_flags m p = 0 \<and> hb_size m p \<ge> sz)"
    by (auto simp: fits_def word_le_nat_alt)
  with Cons show ?case by (subst heap_find.simps) auto
qed

lemma heap_find_first:
  assumes "hpath m p (pre @ b # post) 0" "\<forall>x \<in> set pre. \<not> fits (unat sz) x" "fits (unat sz) b"
  shows "\<exists>q. heap_find m p sz = Some q \<and> q \<noteq> 0 \<and> hpath m p pre q \<and> hpath m q (b # post) 0"
  using assms
proof (induction pre arbitrary: p)
  case Nil
  then have "hb_flags m p = 0 \<and> hb_size m p \<ge> sz" "p \<noteq> 0"
    by (auto simp: fits_def word_le_nat_alt)
  with Nil show ?case by (subst heap_find.simps) auto
next
  case (Cons x pre)
  then have "\<not> (hb_flags m p = 0 \<and> hb_size m p \<ge> sz)"
    by (auto simp: fits_def word_le_nat_alt)
  with Cons show ?case by (subst heap_find.simps) auto
qed

text \<open>Splitting: the rest of the block becomes a free block of its own.\<close>

lemma take_block_split:
  fixes m :: memory
  assumes q: "unat q = b_addr b" "unat (hb_size m q) = b_size b" and e: "b_addr b + 12 + b_size b \<le> 2 ^ 32" "0 < b_addr b"
    and big: "b_size b > unat sz + 12" "hb_size m q > sz + 12"
  defines "r \<equiv> q + 12 + sz" and "t \<equiv> take_block q sz m"
  shows "only_changes (nspan (b_addr b) (12 + b_size b)) m t" "r \<noteq> 0" "unat r = b_addr b + 12 + unat sz"
    "unat (hb_size t r) = b_size b - unat sz - 12" "hb_flags t r = 0" "hb_next t r = hb_next m q"
    "hb_size t q = sz" "hb_flags t q = 1" "hb_next t q = r"
proof -
  let ?A = "nspan (b_addr b) (12 + b_size b)" and ?H = "nspan (b_addr b) 12" and ?left = "hb_size m q - sz - 12"
  define m0 where "m0 = set_flags r 0 (set_size r ?left m)"
  define m1 where "m1 = set_next r (hb_next m q) m0"
  define m2 where "m2 = set_flags q 1 (set_size q sz (set_next q r m1))"
  show r: "unat r = b_addr b + 12 + unat sz" using q(1) e big(1) unfolding r_def by (simp add: unat_word_ariths)
  have left: "unat ?left = b_size b - unat sz - 12"
    using big(1) e q(2) by (simp add: diff_diff_eq unat_sub word_le_nat_alt unat_word_ariths)
  have hq: "unat q + 12 \<le> 2 ^ 32" "nspan (unat q) 12 \<subseteq> ?H" using e q(1) by (auto simp: nspan_def)
  have hr: "unat r + 12 \<le> 2 ^ 32" "nspan (unat r) 12 \<subseteq> ?A - ?H" using r e big(1) by (auto simp: nspan_def)
  note wr = header_write_only [OF hr] and wq = header_write_only [OF hq]
  have o0: "only_changes (?A - ?H) m m0" unfolding m0_def using only_changes_trans [OF wr(1) wr(2)] by simp
  have o1: "only_changes (?A - ?H) m m1" unfolding m1_def using only_changes_trans [OF o0 wr(3)] by simp
  have o2: "only_changes ?H m1 m2"
    unfolding m2_def using only_changes_trans [OF only_changes_trans [OF wq(3) wq(1)] wq(2)] by simp
  have out: "x \<in> nspan (unat q) 12 \<Longrightarrow> m0 x = m x" for x using only_changesD [OF o0] q(1) by auto
  have t: "t = m2"
    using big(2) header_cong(3) [OF hq(1) out]
    by (simp add: t_def take_block_def m1_def m2_def m0_def r_def Let_def)
  have keep: "x \<in> nspan (unat r) 12 \<Longrightarrow> m2 x = m1 x" for x using only_changesD [OF o2] r by (auto simp: nspan_def)
  show "only_changes ?A m t"
    unfolding t using only_changes_trans [OF o1 o2] by (rule only_changes_mono) (auto simp: nspan_def)
  show "r \<noteq> 0" using r e(2) by (metis add_is_0 neq0_conv unat_0)
  show "unat (hb_size t r) = b_size b - unat sz - 12" "hb_flags t r = 0" "hb_next t r = hb_next m q"
    using header_cong [OF hr(1) keep] left unfolding t by (simp_all add: m1_def m0_def header_fields)
  show "hb_size t q = sz" "hb_flags t q = 1" "hb_next t q = r" unfolding t m2_def by (simp_all add: header_fields)
qed

lemma take_block_hpath:
  assumes "hpath m q (b # post) 0" "packed (b # post)" "fits (unat sz) b"
  shows "hpath (take_block q sz m) q (carve (unat sz) b @ post) 0"
    and "only_changes (nspan (b_addr b) (12 + b_size b)) m (take_block q sz m)"
proof -
  let ?n = "unat sz" and ?A = "nspan (b_addr b) (12 + b_size b)"
  have q: "q \<noteq> 0" "unat q = b_addr b" "unat (hb_size m q) = b_size b" "hpath m (hb_next m q) post 0"
    using assms(1) by auto
  have e: "b_addr b + 12 + b_size b \<le> 2 ^ 32" "0 < b_addr b"
    and post: "\<forall>c \<in> set post. b_end b \<le> b_addr c" "packed post"
    using assms(2) by (auto simp: packed_Cons b_end_def)
  have n: "?n \<le> b_size b" using assms(3) by (simp add: fits_def)
  then have n12: "unat (sz + 12) = ?n + 12" using e by (simp add: unat_word_ariths)
  have rest: "hpath m' (hb_next m q) post 0" if "only_changes ?A m m'" for m'
    by (rule hpath_only_changes [OF q(4) that])
      (use post in \<open>fastforce simp: packed_def b_end_def nspan_def\<close>)+
  show "hpath (take_block q sz m) q (carve ?n b @ post) 0"
    and "only_changes ?A m (take_block q sz m)"
  proof (atomize (full), cases "hb_size m q > sz + 12")
    case False
    then have "\<not> b_size b > ?n + 12" using q(3) n12 by (simp add: word_less_nat_alt)
    moreover have "take_block q sz m = set_flags q 1 m" using False by (simp add: take_block_def)
    moreover have "unat q + 12 \<le> 2 ^ 32" "nspan (unat q) 12 \<subseteq> ?A" using e q(2) by (auto simp: nspan_def)
    note w = header_write_only(2) [OF this, of m 1]
    ultimately show "hpath (take_block q sz m) q (carve ?n b @ post) 0 \<and>
        only_changes ?A m (take_block q sz m)"
      using w rest [OF w] q by (simp add: carve_def header_fields)
  next
    case True
    then have big: "b_size b > ?n + 12" using q(3) n12 by (simp add: word_less_nat_alt)
    note S = take_block_split [OF q(2,3) e big True]
    show "hpath (take_block q sz m) q (carve ?n b @ post) 0 \<and> only_changes ?A m (take_block q sz m)"
      using S rest [OF S(1)] q(1,2) big by (simp add: carve_def)
  qed
qed

end
