(* ===== verification/HeapInv.thy ===== *)
theory HeapInv
  imports Heap
begin

text \<open>
  The invariant of the heap and what \<open>heap_init\<close> and \<open>malloc\<close> do to it.
  \<open>heap_inv s bs lost\<close> says that the list reachable from \<open>heap_start\<close>
  holds the blocks \<open>bs\<close>, that they are apart from each other, from the bitmap
  and from every free frame, and that the same holds of the blocks \<open>lost\<close>:
  growing the heap links the new page behind \<open>heap_end\<close>, which a split does
  not advance, so the blocks behind it leave the list while they may be in use.
\<close>

section \<open>The invariant\<close>

abbreviation b_span :: "hblk \<Rightarrow> u32 set" where
  "b_span b \<equiv> nspan (b_addr b) (12 + b_size b)"

abbreviation payload :: "hblk \<Rightarrow> u32 set" where
  "payload b \<equiv> nspan (b_addr b + 12) (b_size b)"

definition apart :: "hblk \<Rightarrow> hblk \<Rightarrow> bool" where
  "apart b c \<longleftrightarrow> b_end b \<le> b_addr c \<or> b_end c \<le> b_addr b"

definition heap_inv :: "'a heap_state_scheme \<Rightarrow> hblk list \<Rightarrow> hblk list \<Rightarrow> bool" where
  "heap_inv s bs lost \<longleftrightarrow> pmm_inv s \<and> 0 \<notin> free_pages s \<and>
     hpath (mem s) (heap_start s) bs 0 \<and> packed bs \<and>
     (\<exists>b \<in> set bs. b_addr b = unat (heap_end s)) \<and>
     (\<forall>b \<in> set bs \<union> set lost. \<forall>i \<in> free_pages s. b_end b \<le> i * 4096) \<and>
     (\<forall>b \<in> set bs \<union> set lost. b_span b \<inter> bitmap_region s = {}) \<and>
     (\<forall>l \<in> set lost. \<forall>b \<in> set bs. apart l b)"

lemma apart_spans: "apart b c \<Longrightarrow> b_span b \<inter> b_span c = {}"
  by (auto simp: apart_def b_end_def)

lemma packed_apart:
  assumes "packed bs" "b \<in> set bs" "c \<in> set bs" "b \<noteq> c"
  shows "apart b c"
  using assms by (induction bs) (auto simp: packed_Cons apart_def)

lemma packed_distinct: "packed bs \<Longrightarrow> distinct bs"
  by (induction bs) (auto simp: packed_Cons b_end_def)

lemma packed_addr_inj: "packed bs \<Longrightarrow> b \<in> set bs \<Longrightarrow> c \<in> set bs \<Longrightarrow> b_addr b = b_addr c \<Longrightarrow> b = c"
  using packed_apart [of bs b c] by (auto simp: apart_def b_end_def)

text \<open>A frame as an interval of addresses.\<close>

lemma page_nspan: "i < 2 ^ 20 \<Longrightarrow> page_span i = nspan (i * 4096) 4096"
  by (auto simp: page_span_iff)

definition page_block :: "nat \<Rightarrow> hblk" where
  "page_block i = \<lparr>b_addr = i * 4096, b_size = 4084, b_used = False\<rparr>"

lemma page_block_simps [simp]:
  "b_addr (page_block i) = i * 4096" "b_size (page_block i) = 4084" "\<not> b_used (page_block i)"
  "b_end (page_block i) = i * 4096 + 4096"
  by (simp_all add: page_block_def b_end_def)

text \<open>The remaining free frames lie above the lowest one.\<close>

lemma frames_above:
  assumes "j \<in> free_pages s - {Min (free_pages s)}"
  shows "Min (free_pages s) * 4096 + 4096 \<le> j * 4096"
proof -
  have "Min (free_pages s) < j"
    using assms by (metis Diff_iff Min_le finite_free_pages insertI1 le_neq_implies_less)
  then have "Suc (Min (free_pages s)) * 4096 \<le> j * 4096" by (intro mult_right_mono) auto
  then show ?thesis by simp
qed

text \<open>The fields of the heap are no concern of the page allocator.\<close>

lemma heap_fields_frame [simp]:
  "free_pages (s\<lparr>heap_start := p\<rparr>) = free_pages s" "free_pages (s\<lparr>heap_end := p\<rparr>) = free_pages s"
  "free_pages (s\<lparr>heap_limit := p\<rparr>) = free_pages s"
  "pmm_inv (s\<lparr>heap_start := p\<rparr>) = pmm_inv s" "pmm_inv (s\<lparr>heap_end := p\<rparr>) = pmm_inv s"
  "pmm_inv (s\<lparr>heap_limit := p\<rparr>) = pmm_inv s"
  "bitmap_region (s\<lparr>heap_start := p\<rparr>) = bitmap_region s" "bitmap_region (s\<lparr>heap_end := p\<rparr>) = bitmap_region s"
  "bitmap_region (s\<lparr>heap_limit := p\<rparr>) = bitmap_region s"
  by (simp_all add: free_pages_def pmm_inv_def bitmap_region_def)

text \<open>Writing the header of a fresh page.\<close>

definition page_header :: "u32 \<Rightarrow> memory \<Rightarrow> memory" where
  "page_header page m =
     set_next page 0 (set_flags page 0 (set_size page (HEAP_PAGE_SIZE - sizeof_HeapBlock) m))"

lemma page_header_hpath:
  assumes "0 < i" "i < 2 ^ 20"
  shows "hpath (page_header (of_nat (i * 4096)) m) (of_nat (i * 4096)) [page_block i] 0"
    and "only_changes (page_span i) m (page_header (of_nat (i * 4096)) m)"
proof -
  let ?p = "of_nat (i * 4096) :: u32"
  have p: "unat ?p = i * 4096" using assms(2) by (rule unat_page_addr)
  then have "?p \<noteq> 0" using assms(1) by (metis mult_is_0 neq0_conv unat_0 zero_neq_numeral)
  then show "hpath (page_header ?p m) ?p [page_block i] 0"
    using p by (simp add: page_header_def header_fields del: of_nat_mult)
  have h: "unat ?p + 12 \<le> 2 ^ 32" "nspan (unat ?p) 12 \<subseteq> page_span i"
    using assms(2) unfolding p page_nspan [OF assms(2)] by auto
  note w = header_write_only [OF h]
  show "only_changes (page_span i) m (page_header ?p m)"
    unfolding page_header_def
    using only_changes_trans [OF only_changes_trans [OF w(1) w(2)] w(3)] by simp
qed

section \<open>\<open>heap_init\<close>\<close>

lemma heap_init_inv:
  assumes "pmm_inv s" "0 \<notin> free_pages s" "free_pages s \<noteq> {}"
  shows "heap_inv (heap_init s) [page_block (Min (free_pages s))] []"
    and "free_pages (heap_init s) = free_pages s - {Min (free_pages s)}"
    and "heap_start (heap_init s) = heap_end (heap_init s)"
proof -
  let ?i = "Min (free_pages s)" and ?p = "of_nat (Min (free_pages s) * 4096) :: u32"
  obtain m1 where m1: "pmm_alloc_page s = (?p, s\<lparr>mem := m1\<rparr>)"
    "free_pages (s\<lparr>mem := m1\<rparr>) = free_pages s - {?i}" "pmm_inv (s\<lparr>mem := m1\<rparr>)"
    "?i \<in> free_pages s" "?i < 2 ^ 20" "page_span ?i \<inter> bitmap_region s = {}"
    using kernel_pages.alloc_frame [OF assms(1,3)] by metis
  have i0: "0 < ?i" using m1(4) assms(2) by (metis neq0_conv)
  let ?m = "page_header ?p m1"
  have init: "heap_init s = s\<lparr>heap_start := ?p, mem := ?m, heap_end := ?p, heap_limit := ?p + 4096\<rparr>"
    using m1(1) by (simp add: heap_init_def page_header_def Let_def del: of_nat_mult)
  note h = page_header_hpath [OF i0 m1(5), of m1]
  have keep: "pmm_inv (s\<lparr>mem := ?m\<rparr>)" "free_pages (s\<lparr>mem := ?m\<rparr>) = free_pages s - {?i}"
    using kernel_pages.write_keeps [OF m1(3) _ , of "page_span ?i" ?m] h(2) m1(2,6) by simp_all
  have frame: "free_pages (heap_init s) = free_pages (s\<lparr>mem := ?m\<rparr>)"
    "pmm_inv (heap_init s) = pmm_inv (s\<lparr>mem := ?m\<rparr>)" "bitmap_region (heap_init s) = bitmap_region s"
    by (simp_all add: init free_pages_def pmm_inv_def bitmap_region_def)
  note above = frames_above [where s = s]
  have "b_span (page_block ?i) = page_span ?i" by (simp add: page_nspan [OF m1(5)])
  then have "b_span (page_block ?i) \<inter> bitmap_region s = {}" using m1(6) by simp
  moreover have "packed [page_block ?i]" using i0 m1(5) by (simp add: packed_Cons) (simp add: packed_def)
  ultimately show "heap_inv (heap_init s) [page_block ?i] []"
    using h(1) keep assms(2) above unat_page_addr [OF m1(5)] unfolding heap_inv_def frame
    by (simp add: init del: of_nat_mult nspan_iff)
  show "free_pages (heap_init s) = free_pages s - {?i}" using keep frame by simp
  show "heap_start (heap_init s) = heap_end (heap_init s)" by (simp add: init)
qed

lemma heap_init_writes:
  assumes "pmm_inv s" "0 \<notin> free_pages s" "free_pages s \<noteq> {}"
  shows "\<exists>m p. heap_init s = s\<lparr>mem := m, heap_start := p, heap_end := p, heap_limit := p + 4096\<rparr> \<and>
    only_changes (bitmap_region s \<union> page_span (Min (free_pages s))) (mem s) m"
proof -
  let ?i = "Min (free_pages s)" and ?p = "of_nat (Min (free_pages s) * 4096) :: u32"
  obtain m1 where m1: "pmm_alloc_page s = (?p, s\<lparr>mem := m1\<rparr>)" "only_changes (bitmap_region s) (mem s) m1"
    "?i \<in> free_pages s" "?i < 2 ^ 20"
    using kernel_pages.alloc_frame [OF assms(1,3)] by metis
  have "0 < ?i" using m1(3) assms(2) by (metis neq0_conv)
  note h = page_header_hpath(2) [OF this m1(4), of m1]
  have "heap_init s = s\<lparr>heap_start := ?p, mem := page_header ?p m1, heap_end := ?p, heap_limit := ?p + 4096\<rparr>"
    using m1(1) by (simp add: heap_init_def page_header_def Let_def del: of_nat_mult)
  then have "heap_init s = s\<lparr>mem := page_header ?p m1, heap_start := ?p, heap_end := ?p, heap_limit := ?p + 4096\<rparr>"
    by (cases s) (simp del: of_nat_mult)
  then show ?thesis using only_changes_trans [OF m1(2) h] by blast
qed

section \<open>\<open>malloc\<close> when a block fits\<close>

definition heap_list :: "'a heap_state_scheme \<Rightarrow> hblk list \<Rightarrow> bool" where
  "heap_list s bs \<longleftrightarrow> hpath (mem s) (heap_start s) bs 0 \<and> packed bs"

lemma heap_inv_list: "heap_inv s bs lost \<Longrightarrow> heap_list s bs"
  by (simp add: heap_inv_def heap_list_def)

lemma carve_props:
  assumes "fits n b" "c \<in> set (carve n b)"
  shows "b_addr b \<le> b_addr c" "b_end c \<le> b_end b" "b_span c \<subseteq> b_span b" "0 < b_addr b \<Longrightarrow> 0 < b_addr c"
  using assms by (auto simp: carve_def fits_def b_end_def nspan_def split: if_splits)

lemma carve_head: "hd (carve n b) = \<lparr>b_addr = b_addr b, b_size = (if b_size b > n + 12 then n else b_size b), b_used = True\<rparr>"
  "carve n b \<noteq> []"
  by (auto simp: carve_def)

lemma packed_carve:
  assumes "packed (pre @ b # post)" "fits n b"
  shows "packed (pre @ carve n b @ post)"
proof -
  have b: "0 < b_addr b" "b_end b \<le> 2 ^ 32" "\<forall>c \<in> set post. b_end b \<le> b_addr c" "packed post"
    "\<forall>x \<in> set pre. b_end x \<le> b_addr b" "packed pre" "\<forall>x \<in> set pre. \<forall>c \<in> set post. b_end x \<le> b_addr c"
    using assms(1) by (auto simp: packed_append packed_Cons)
  have "packed (carve n b)"
    using b(1,2) assms(2) by (auto simp: carve_def packed_def b_end_def fits_def)
  then show ?thesis
    using b carve_props [OF assms(2)] unfolding packed_append by fastforce
qed

lemma malloc_fit:
  assumes "heap_list s (pre @ b # post)" "\<forall>x \<in> set pre. \<not> fits (unat sz) x" "fits (unat sz) b"
  obtains m' where "malloc sz s = Some (of_nat (b_addr b + 12), s\<lparr>mem := m'\<rparr>)"
    "hpath m' (heap_start s) (pre @ carve (unat sz) b @ post) 0"
    "packed (pre @ carve (unat sz) b @ post)"
    "only_changes (b_span b) (mem s) m'"
proof -
  have path: "hpath (mem s) (heap_start s) (pre @ b # post) 0" and pk: "packed (pre @ b # post)"
    using assms(1) by (auto simp: heap_list_def)
  obtain q where q: "heap_find (mem s) (heap_start s) sz = Some q" "q \<noteq> 0"
    "hpath (mem s) (heap_start s) pre q" "hpath (mem s) q (b # post) 0"
    using heap_find_first [OF path assms(2,3)] by blast
  let ?m = "take_block q sz (mem s)"
  have pkb: "packed (b # post)" using pk by (simp add: packed_append)
  note t = take_block_hpath [OF q(4) pkb assms(3)]
  have "nspan (b_addr x) 12 \<inter> b_span b = {}" if "x \<in> set pre" for x
  proof -
    have "b_end x \<le> b_addr b" using that pk by (auto simp: packed_append)
    then show ?thesis by (auto simp: b_end_def nspan_def)
  qed
  moreover have "\<forall>x \<in> set pre. b_addr x + 12 \<le> 2 ^ 32"
    using pk packed_header by (metis packed_append)
  ultimately have "hpath ?m (heap_start s) pre q"
    using hpath_only_changes [OF q(3) t(2)] by blast
  with t(1) have "hpath ?m (heap_start s) (pre @ carve (unat sz) b @ post) 0"
    by (auto simp: hpath_append)
  moreover have u: "unat q = b_addr b" using q(4) by simp
  have "q + 12 = of_nat (b_addr b + 12)" by (simp flip: u)
  then have "malloc sz s = Some (of_nat (b_addr b + 12), s\<lparr>mem := ?m\<rparr>)"
    using q(1,2) by (subst malloc.simps) simp
  ultimately show thesis using that t(2) packed_carve [OF pk assms(3)] by blast
qed

lemma malloc_fit_inv:
  assumes "heap_inv s (pre @ b # post) lost" "\<forall>x \<in> set pre. \<not> fits (unat sz) x" "fits (unat sz) b"
  obtains m' where "malloc sz s = Some (of_nat (b_addr b + 12), s\<lparr>mem := m'\<rparr>)"
    "heap_inv (s\<lparr>mem := m'\<rparr>) (pre @ carve (unat sz) b @ post) lost"
    "free_pages (s\<lparr>mem := m'\<rparr>) = free_pages s"
    "only_changes (b_span b) (mem s) m'"
proof -
  let ?c = "carve (unat sz) b"
  obtain m' where m': "malloc sz s = Some (of_nat (b_addr b + 12), s\<lparr>mem := m'\<rparr>)"
    "hpath m' (heap_start s) (pre @ ?c @ post) 0" "packed (pre @ ?c @ post)"
    "only_changes (b_span b) (mem s) m'"
    using malloc_fit [OF heap_inv_list [OF assms(1)] assms(2,3)] by metis
  have inv: "pmm_inv s" and bitmap: "b_span b \<inter> bitmap_region s = {}"
    using assms(1) by (auto simp: heap_inv_def)
  have keep: "pmm_inv (s\<lparr>mem := m'\<rparr>)" "free_pages (s\<lparr>mem := m'\<rparr>) = free_pages s"
    using kernel_pages.write_keeps [OF inv m'(4) bitmap] by simp_all
  have cp: "b_addr b \<le> b_addr c" "b_end c \<le> b_end b" "b_span c \<subseteq> b_span b" if "c \<in> set ?c" for c
    using carve_props [OF assms(3) that] by blast+
  have hd: "hd ?c \<in> set ?c" "b_addr (hd ?c) = b_addr b"
    using hd_in_set [OF carve_head(2)] by (auto simp: carve_head(1))
  have "heap_inv (s\<lparr>mem := m'\<rparr>) (pre @ ?c @ post) lost"
    unfolding heap_inv_def bitmap_region_mem keep(2)
  proof (intro conjI)
    show "\<exists>x \<in> set (pre @ ?c @ post). b_addr x = unat (heap_end (s\<lparr>mem := m'\<rparr>))"
      using assms(1) hd by (auto simp: heap_inv_def)
    have cases: "x \<in> set ?c \<or> x \<in> set (pre @ b # post) \<union> set lost"
      if "x \<in> set (pre @ ?c @ post) \<union> set lost" for x using that by auto
    have old1: "b_end x \<le> i * 4096" if "x \<in> set (pre @ b # post) \<union> set lost" "i \<in> free_pages s" for x i
      using that assms(1) unfolding heap_inv_def by blast
    have old2: "b_span x \<inter> bitmap_region s = {}" if "x \<in> set (pre @ b # post) \<union> set lost" for x
      using that assms(1) unfolding heap_inv_def by blast
    have "b \<in> set (pre @ b # post) \<union> set lost" by simp
    note below = old1 [OF this]
    show "\<forall>x \<in> set (pre @ ?c @ post) \<union> set lost. \<forall>i \<in> free_pages s. b_end x \<le> i * 4096"
      using cases cp(2) below old1 by (meson le_trans)
    show "\<forall>x \<in> set (pre @ ?c @ post) \<union> set lost. b_span x \<inter> bitmap_region s = {}"
      using cases cp(3) bitmap old2 by (meson disjoint_iff subsetD)
    have "apart l c" if "apart l b" "c \<in> set ?c" for l c
      using that(1) cp(1,2) [OF that(2)] by (auto simp: apart_def)
    then show "\<forall>l \<in> set lost. \<forall>x \<in> set (pre @ ?c @ post). apart l x"
      using assms(1) by (auto simp: heap_inv_def)
  qed (use m' keep assms(1) in \<open>auto simp: heap_inv_def\<close>)
  then show thesis using that m' keep by blast
qed

section \<open>Growing the heap\<close>

lemma set_next_last:
  assumes "hpath m p (pre @ e # post) 0" "packed (pre @ e # post)" "unat q = b_addr e"
  shows "hpath (set_next q r m) p (pre @ [e]) r"
    and "only_changes (nspan (b_addr e) 12) m (set_next q r m)"
proof -
  obtain x where x: "hpath m p pre x" "hpath m x (e # post) 0"
    using assms(1) by (auto simp: hpath_append)
  then have xq: "x = q" using assms(3) by (simp add: word_unat_eq_iff)
  have h: "unat q + 12 \<le> 2 ^ 32" "nspan (unat q) 12 \<subseteq> nspan (b_addr e) 12"
    using assms(2,3) packed_header by (auto simp: packed_append packed_Cons b_end_def)
  show o: "only_changes (nspan (b_addr e) 12) m (set_next q r m)"
    by (rule header_write_only(3) [OF h])
  have "nspan (b_addr y) 12 \<inter> nspan (b_addr e) 12 = {}" if "y \<in> set pre" for y
  proof -
    have "b_end y \<le> b_addr e" using that assms(2) by (auto simp: packed_append)
    then show ?thesis by (auto simp: b_end_def nspan_def)
  qed
  moreover have "\<forall>y \<in> set pre. b_addr y + 12 \<le> 2 ^ 32"
    using assms(2) packed_header by (metis packed_append)
  ultimately have "hpath (set_next q r m) p pre x" using hpath_only_changes [OF x(1) o] by blast
  then show "hpath (set_next q r m) p (pre @ [e]) r"
    using x(2) xq by (auto simp: hpath_append header_fields)
qed

text \<open>
  Linking a fresh page behind block \<open>e\<close>: the memory, and the blocks it holds then.
\<close>

lemma link_page:
  fixes p :: u32
  assumes path: "hpath m q (pre @ e # post) 0" and pk: "packed (pre @ e # post)"
    and o: "only_changes B m m1" and i: "0 < i" "i < 2 ^ 20" and p: "p = of_nat (i * 4096)"
    and below: "\<And>b. b \<in> set (pre @ e # post) \<Longrightarrow> b_end b \<le> i * 4096"
    and apart: "\<And>b. b \<in> set (pre @ e # post) \<Longrightarrow> b_span b \<inter> B = {}"
    and last: "unat l = b_addr e"
  defines "m3 \<equiv> set_next l p (page_header p m1)"
  shows "hpath m3 q (pre @ [e, page_block i]) 0" "only_changes (page_span i \<union> nspan (b_addr e) 12) m1 m3"
proof -
  let ?m2 = "page_header p m1"
  note ph = page_header_hpath [OF i, of m1, folded p]
  have o2: "only_changes (B \<union> page_span i) m ?m2" by (rule only_changes_trans [OF o ph(2)])
  have path2: "hpath ?m2 q (pre @ e # post) 0"
  proof (rule hpath_only_changes [OF path o2])
    show "\<forall>b \<in> set (pre @ e # post). b_addr b + 12 \<le> 2 ^ 32" using packed_header [OF pk] by blast
    fix b assume b: "b \<in> set (pre @ e # post)"
    have "nspan (b_addr b) 12 \<subseteq> b_span b" by (auto simp: nspan_def)
    then have "nspan (b_addr b) 12 \<inter> B = {}" using apart [OF b] by blast
    moreover have "nspan (b_addr b) 12 \<inter> page_span i = {}"
      using below [OF b] by (auto simp: page_nspan [OF i(2)] b_end_def nspan_def)
    ultimately show "nspan (b_addr b) 12 \<inter> (B \<union> page_span i) = {}" by blast
  qed
  note sn = set_next_last [OF path2 pk last, of p, folded m3_def]
  show "only_changes (page_span i \<union> nspan (b_addr e) 12) m1 m3"
    by (rule only_changes_trans [OF ph(2) sn(2)])
  have "nspan (b_addr (page_block i)) 12 \<inter> nspan (b_addr e) 12 = {}"
    using below [of e] by (auto simp: b_end_def nspan_def)
  then have "hpath m3 p [page_block i] 0"
    using i(2) by (intro hpath_only_changes [OF ph(1) sn(2)]) (simp_all del: of_nat_mult)
  then show "hpath m3 q (pre @ [e, page_block i]) 0" using sn(1) by (auto simp: hpath_append)
qed

lemma linked_blocks:
  assumes pk: "packed (pre @ e # post)" and i: "0 < i" "i < 2 ^ 20"
    and below: "\<And>b. b \<in> set (pre @ e # post) \<union> set lost \<Longrightarrow> b_end b \<le> i * 4096"
    and ap: "\<forall>l \<in> set lost. \<forall>b \<in> set (pre @ e # post). apart l b"
  shows "packed (pre @ [e, page_block i])"
    "\<forall>l \<in> set (post @ lost). \<forall>b \<in> set (pre @ [e, page_block i]). apart l b"
proof -
  show "packed (pre @ [e, page_block i])"
    using pk below i by (auto simp: packed_append packed_Cons) (auto simp: packed_def)
  show "\<forall>l \<in> set (post @ lost). \<forall>b \<in> set (pre @ [e, page_block i]). apart l b"
  proof (intro ballI)
    fix l b assume l: "l \<in> set (post @ lost)" and b: "b \<in> set (pre @ [e, page_block i])"
    have "b_end l \<le> i * 4096" using l below [of l] by auto
    then have "apart l (page_block i)" by (simp add: apart_def)
    moreover have "apart l b" if "b \<noteq> page_block i"
    proof (cases "l \<in> set post")
      case True
      have "packed ((pre @ [e]) @ post)" using pk by simp
      then have "b_end b \<le> b_addr l" using True b that unfolding packed_append by auto
      then show ?thesis by (simp add: apart_def)
    next
      case False
      then show ?thesis using l b that ap by auto
    qed
    ultimately show "apart l b" by blast
  qed
qed

lemma grow_heap_inv:
  assumes "heap_inv s (pre @ e # post) lost" "b_addr e = unat (heap_end s)" "free_pages s \<noteq> {}"
  obtains s' where "grow_heap (fst (pmm_alloc_page s)) (snd (pmm_alloc_page s)) = s'"
    "fst (pmm_alloc_page s) \<noteq> 0"
    "heap_inv s' (pre @ [e, page_block (Min (free_pages s))]) (post @ lost)"
    "free_pages s' = free_pages s - {Min (free_pages s)}" "heap_start s' = heap_start s"
    "only_changes (bitmap_region s \<union> page_span (Min (free_pages s)) \<union> nspan (b_addr e) 12) (mem s) (mem s')"
    "bitmap_region s' = bitmap_region s"
    "heap_end s' = of_nat (Min (free_pages s) * 4096)"
proof -
  let ?i = "Min (free_pages s)" and ?p = "of_nat (Min (free_pages s) * 4096) :: u32"
  let ?bs = "pre @ e # post" and ?new = "pre @ [e, page_block (Min (free_pages s))]"
  have inv: "pmm_inv s" "0 \<notin> free_pages s" "packed ?bs" "hpath (mem s) (heap_start s) ?bs 0"
    using assms(1) by (auto simp: heap_inv_def)
  obtain m1 where m1: "pmm_alloc_page s = (?p, s\<lparr>mem := m1\<rparr>)"
    "only_changes (bitmap_region s) (mem s) m1"
    "free_pages (s\<lparr>mem := m1\<rparr>) = free_pages s - {?i}" "pmm_inv (s\<lparr>mem := m1\<rparr>)"
    "?i \<in> free_pages s" "?i < 2 ^ 20" "page_span ?i \<inter> bitmap_region s = {}"
    using kernel_pages.alloc_frame [OF inv(1) assms(3)] by metis
  have i0: "0 < ?i" using m1(5) inv(2) by (metis neq0_conv)
  have pu: "unat ?p = ?i * 4096" by (rule unat_page_addr [OF m1(6)])
  then have p0: "?p \<noteq> 0" using i0 by (metis mult_is_0 neq0_conv unat_0 zero_neq_numeral)
  let ?m3 = "set_next (heap_end s) ?p (page_header ?p m1)"
  let ?s' = "s\<lparr>mem := ?m3, heap_end := ?p, heap_limit := heap_limit s + 4096\<rparr>"
  have grow: "grow_heap (fst (pmm_alloc_page s)) (snd (pmm_alloc_page s)) = ?s'"
    using m1(1) by (simp add: grow_heap_def page_header_def Let_def del: of_nat_mult)
  have below: "b_end b \<le> ?i * 4096" and bitmap: "b_span b \<inter> bitmap_region s = {}"
    if "b \<in> set ?bs \<union> set lost" for b
    using that assms(1) m1(5) by (auto simp: heap_inv_def)
  have "b_end b \<le> ?i * 4096" "b_span b \<inter> bitmap_region s = {}" if "b \<in> set ?bs" for b
    using that by (auto intro!: below bitmap)
  note L = link_page [OF inv(4,3) m1(2) i0 m1(6) refl this assms(2) [symmetric]]
  have "nspan (b_addr e) 12 \<inter> bitmap_region s = {}" using bitmap [of e] by (auto simp: nspan_def)
  then have "(page_span ?i \<union> nspan (b_addr e) 12) \<inter> bitmap_region (s\<lparr>mem := m1\<rparr>) = {}" using m1(7) by auto
  with kernel_pages.write_keeps [OF m1(4), of "page_span ?i \<union> nspan (b_addr e) 12" ?m3] L(2) m1(3)
  have frame: "free_pages ?s' = free_pages s - {?i}" "pmm_inv ?s'" "bitmap_region ?s' = bitmap_region s"
    by simp_all
  have ap: "\<forall>l \<in> set lost. \<forall>b \<in> set ?bs. apart l b" using assms(1) by (simp add: heap_inv_def)
  note B = linked_blocks [OF inv(3) i0 m1(6) below ap]
  have "b_span b \<inter> bitmap_region s = {}" "j \<in> free_pages s - {?i} \<Longrightarrow> b_end b \<le> j * 4096"
    if "b \<in> set ?new \<union> set (post @ lost)" for b j
  proof -
    from that consider "b = page_block ?i" | "b \<in> set ?bs \<union> set lost" by auto
    then show "b_span b \<inter> bitmap_region s = {}"
      using bitmap m1(7) by cases (auto simp: page_nspan [OF m1(6), symmetric])
    show "j \<in> free_pages s - {?i} \<Longrightarrow> b_end b \<le> j * 4096"
      using that frames_above [of j s] assms(1) by (auto simp: heap_inv_def)
  qed
  then have "heap_inv ?s' ?new (post @ lost)"
    using B frame L(1) inv(2) pu unfolding heap_inv_def by (simp del: of_nat_mult)
  moreover have "only_changes (bitmap_region s \<union> page_span ?i \<union> nspan (b_addr e) 12) (mem s) (mem ?s')"
    using only_changes_trans [OF m1(2) L(2)] by (simp add: Un_assoc)
  ultimately show thesis
    using p0 m1(1) frame by (intro that [OF grow]) (simp_all del: of_nat_mult)
qed

section \<open>\<open>malloc\<close> in general\<close>

lemma heap_inv_block:
  assumes "heap_inv s bs lost" "b \<in> set bs \<union> set lost"
  shows "i \<in> free_pages s \<Longrightarrow> b_end b \<le> i * 4096" "b_span b \<inter> bitmap_region s = {}"
  using assms unfolding heap_inv_def by blast+

lemma heap_inv_apart:
  assumes "heap_inv s bs lost" "b \<in> set bs" "c \<in> set bs \<union> set lost" "b \<noteq> c"
  shows "apart b c"
proof (cases "c \<in> set bs")
  case True
  then show ?thesis using assms packed_apart [of bs b c] by (simp add: heap_inv_def)
next
  case False
  then show ?thesis using assms by (auto simp: heap_inv_def apart_def)
qed

text \<open>Used blocks keep their place and their contents.\<close>

definition keeps_used :: "hblk list \<Rightarrow> hblk list \<Rightarrow> memory \<Rightarrow> memory \<Rightarrow> bool" where
  "keeps_used bs bs' m m' \<longleftrightarrow> (\<forall>c \<in> set bs. b_used c \<longrightarrow> c \<in> set bs' \<and> (\<forall>x \<in> payload c. m' x = m x))"

lemma keeps_used_trans:
  "keeps_used bs bs' m m' \<Longrightarrow> keeps_used bs' bs'' m' m'' \<Longrightarrow> keeps_used bs bs'' m m''"
  unfolding keeps_used_def by fastforce

lemma malloc_no_fit:
  assumes "heap_inv s bs lost" "\<forall>b \<in> set bs. \<not> fits (unat sz) b"
  shows "free_pages s = {} \<Longrightarrow> malloc sz s = Some (0, s)"
    and "fst (pmm_alloc_page s) \<noteq> 0 \<Longrightarrow>
      malloc sz s = malloc sz (grow_heap (fst (pmm_alloc_page s)) (snd (pmm_alloc_page s)))"
proof -
  have "heap_find (mem s) (heap_start s) sz = Some 0"
    using assms by (intro heap_find_none) (auto simp: heap_inv_def)
  then show "free_pages s = {} \<Longrightarrow> malloc sz s = Some (0, s)"
    "fst (pmm_alloc_page s) \<noteq> 0 \<Longrightarrow>
      malloc sz s = malloc sz (grow_heap (fst (pmm_alloc_page s)) (snd (pmm_alloc_page s)))"
    by (subst malloc.simps; simp add: pmm_alloc_page_spec)+
qed

lemma grow_keeps:
  assumes "heap_inv s (pre @ e # post) lost" "b_addr e = unat (heap_end s)" "free_pages s \<noteq> {}"
    and "only_changes (bitmap_region s \<union> page_span (Min (free_pages s)) \<union> nspan (b_addr e) 12) (mem s) m'"
  shows "keeps_used ((pre @ e # post) @ lost) ((pre @ [e, page_block (Min (free_pages s))]) @ (post @ lost)) (mem s) m'"
  unfolding keeps_used_def
proof (intro ballI impI conjI)
  fix c assume c: "c \<in> set ((pre @ e # post) @ lost)"
  then show "c \<in> set ((pre @ [e, page_block (Min (free_pages s))]) @ (post @ lost))" by auto
  have min: "Min (free_pages s) \<in> free_pages s" using assms(3) by (intro Min_in) auto
  then have i20: "Min (free_pages s) < 2 ^ 20"
    using free_pages_bound assms(1) by (auto simp: heap_inv_def)
  have c': "c \<in> set (pre @ e # post) \<union> set lost" using c by auto
  have "b_end c \<le> Min (free_pages s) * 4096" "b_span c \<inter> bitmap_region s = {}"
    using heap_inv_block [OF assms(1) c'] min by auto
  moreover have "apart e c \<or> e = c" using heap_inv_apart [OF assms(1) _ c', of e] by auto
  ultimately have "x \<notin> bitmap_region s \<union> page_span (Min (free_pages s)) \<union> nspan (b_addr e) 12"
    if "x \<in> payload c" for x
    using that by (auto simp: page_nspan [OF i20] b_end_def apart_def disjoint_iff)
  then show "m' x = mem s x" if "x \<in> payload c" for x
    using only_changesD [OF assms(4)] that by blast
qed

text \<open>
  What the heap works on: the bitmap, its blocks and the free frames.  A heap
  operation stays within it when it changes no other memory, leaves a heap that
  works on no more, and touches no field outside the heap.
\<close>

definition heap_area :: "'a heap_state_scheme \<Rightarrow> hblk list \<Rightarrow> u32 set" where
  "heap_area s bs = bitmap_region s \<union> \<Union> (b_span ` set bs) \<union> \<Union> (page_span ` free_pages s)"

definition heap_within :: "'a heap_state_scheme \<Rightarrow> hblk list \<Rightarrow> 'a heap_state_scheme \<Rightarrow> hblk list \<Rightarrow> bool" where
  "heap_within s bs s' bs' \<longleftrightarrow> only_changes (heap_area s bs) (mem s) (mem s') \<and>
     heap_area s' bs' \<subseteq> heap_area s bs \<and>
     (\<exists>m e l. s' = s\<lparr>mem := m, heap_end := e, heap_limit := l\<rparr>)"

lemma heap_within_refl: "heap_within s bs s bs"
proof -
  have "s = s\<lparr>mem := mem s, heap_end := heap_end s, heap_limit := heap_limit s\<rparr>" by simp
  then show ?thesis unfolding heap_within_def by blast
qed

lemma heap_within_trans: "heap_within s bs t cs \<Longrightarrow> heap_within t cs u ds \<Longrightarrow> heap_within s bs u ds"
  unfolding heap_within_def
  by (elim conjE exE, intro conjI, auto simp: only_changes_def)

lemma heap_within_carve:
  assumes "fits n b" "only_changes (b_span b) (mem s) m'" "free_pages (s\<lparr>mem := m'\<rparr>) = free_pages s"
  shows "heap_within s (pre @ b # post) (s\<lparr>mem := m'\<rparr>) (pre @ carve n b @ post)"
proof -
  have "s\<lparr>mem := m'\<rparr> = s\<lparr>mem := m', heap_end := heap_end s, heap_limit := heap_limit s\<rparr>" by simp
  moreover have "\<Union> (b_span ` set (carve n b)) \<subseteq> b_span b" using carve_props(3) [OF assms(1)] by blast
  then have "heap_area (s\<lparr>mem := m'\<rparr>) (pre @ carve n b @ post) \<subseteq> heap_area s (pre @ b # post)"
    using assms(3) by (auto simp: heap_area_def simp del: nspan_iff)
  moreover have "only_changes (heap_area s (pre @ b # post)) (mem s) (mem (s\<lparr>mem := m'\<rparr>))"
    using only_changes_mono [OF assms(2), of "heap_area s (pre @ b # post)"] by (auto simp: heap_area_def simp del: nspan_iff)
  ultimately show ?thesis unfolding heap_within_def by blast
qed

lemma heap_within_grow:
  assumes "heap_inv s (pre @ e # post) lost" "free_pages s \<noteq> {}"
    and "grow_heap (fst (pmm_alloc_page s)) (snd (pmm_alloc_page s)) = s'"
    and "free_pages s' = free_pages s - {Min (free_pages s)}" "bitmap_region s' = bitmap_region s"
    and "only_changes (bitmap_region s \<union> page_span (Min (free_pages s)) \<union> nspan (b_addr e) 12) (mem s) (mem s')"
  shows "heap_within s ((pre @ e # post) @ lost) s' ((pre @ [e, page_block (Min (free_pages s))]) @ (post @ lost))"
proof -
  let ?i = "Min (free_pages s)"
  have i: "?i \<in> free_pages s" using assms(2) by (intro Min_in) auto
  then have "?i < 2 ^ 20" using free_pages_bound assms(1) by (auto simp: heap_inv_def)
  then have P: "nspan (?i * 4096) 4096 = page_span ?i" by (simp add: page_nspan)
  have "\<exists>m e l. s' = s\<lparr>mem := m, heap_end := e, heap_limit := l\<rparr>"
    unfolding assms(3) [symmetric] by (auto simp: grow_heap_def Let_def pmm_alloc_page_spec assms(2))
  moreover have "nspan (b_addr e) 12 \<subseteq> b_span e" by auto
  then have "only_changes (heap_area s ((pre @ e # post) @ lost)) (mem s) (mem s')"
    using i by (intro only_changes_mono [OF assms(6)]) (auto simp: heap_area_def simp del: nspan_iff)
  moreover have "heap_area s' ((pre @ [e, page_block ?i]) @ (post @ lost)) \<subseteq> heap_area s ((pre @ e # post) @ lost)"
    using i by (auto simp: heap_area_def assms(4,5) P simp del: nspan_iff)
  ultimately show ?thesis unfolding heap_within_def by blast
qed

text \<open>What a request that took the step from \<open>s\<close> to \<open>t\<close> returns.\<close>

definition malloc_result ::
  "'a heap_state_scheme \<Rightarrow> hblk list \<Rightarrow> hblk list \<Rightarrow> u32 \<Rightarrow> u32 \<Rightarrow> 'a heap_state_scheme \<Rightarrow> hblk list \<Rightarrow> hblk list \<Rightarrow> bool" where
  "malloc_result s bs lost sz p t bs' lost' \<longleftrightarrow> heap_inv t bs' lost' \<and> free_pages t \<subseteq> free_pages s \<and>
     keeps_used (bs @ lost) (bs' @ lost') (mem s) (mem t) \<and> heap_within s (bs @ lost) t (bs' @ lost') \<and>
     (p = 0 \<longrightarrow> free_pages t = {} \<and> (\<forall>b \<in> set bs. \<not> fits (unat sz) b) \<and> (4084 < unat sz \<or> free_pages s = {})) \<and>
     (p \<noteq> 0 \<longrightarrow> (\<exists>b \<in> set bs'. b_used b \<and> unat p = b_addr b + 12 \<and> unat sz \<le> b_size b \<and>
        (\<forall>c \<in> set (bs @ lost). b_used c \<longrightarrow> apart b c)))"

lemma malloc_fit_result:
  assumes inv: "heap_inv s (pre @ b # post) lost" and sz: "0 < sz"
    and fit: "\<forall>x \<in> set pre. \<not> fits (unat sz) x" "fits (unat sz) b"
  shows "\<exists>p t. malloc sz s = Some (p, t) \<and>
    malloc_result s (pre @ b # post) lost sz p t (pre @ carve (unat sz) b @ post) lost"
proof -
  let ?bs = "pre @ b # post" and ?c = "carve (unat sz) b" and ?p = "of_nat (b_addr b + 12) :: u32"
  obtain m' where m': "malloc sz s = Some (?p, s\<lparr>mem := m'\<rparr>)"
    "heap_inv (s\<lparr>mem := m'\<rparr>) (pre @ ?c @ post) lost" "free_pages (s\<lparr>mem := m'\<rparr>) = free_pages s"
    "only_changes (b_span b) (mem s) m'"
    by (rule malloc_fit_inv [OF inv fit])
  have b: "b \<in> set ?bs" "\<not> b_used b" using fit(2) by (auto simp: fits_def)
  have ap: "apart b c" if "c \<in> set (?bs @ lost)" "b_used c" for c
    using heap_inv_apart [OF inv b(1), of c] that b(2) by auto
  have "b_end b \<le> 2 ^ 32" using inv b(1) by (auto simp: heap_inv_def packed_def)
  moreover have "0 < b_size b" using fit(2) sz by (auto simp: fits_def word_less_nat_alt)
  ultimately have p: "unat ?p = b_addr b + 12" by (intro unat_of_nat32) (simp add: b_end_def)
  then have p0: "?p \<noteq> 0" by (metis add_is_0 unat_0 zero_neq_numeral)
  have keeps: "keeps_used (?bs @ lost) ((pre @ ?c @ post) @ lost) (mem s) m'"
    unfolding keeps_used_def
  proof (intro ballI impI conjI)
    fix c assume c: "c \<in> set (?bs @ lost)" "b_used c"
    then show "c \<in> set ((pre @ ?c @ post) @ lost)" using b(2) by auto
    show "m' x = mem s x" if "x \<in> payload c" for x
      using only_changesD [OF m'(4), of x] ap [OF c] that by (auto simp: apart_def b_end_def)
  qed
  have h: "hd ?c \<in> set ?c" "b_used (hd ?c)" "b_addr (hd ?c) = b_addr b" "unat sz \<le> b_size (hd ?c)"
    using hd_in_set [OF carve_head(2)] fit(2) by (auto simp: carve_head(1) fits_def)
  have "apart (hd ?c) c" if "c \<in> set (?bs @ lost)" "b_used c" for c
    using ap [OF that] carve_props(1,2) [OF fit(2) h(1)] by (auto simp: apart_def)
  then have "\<exists>x \<in> set (pre @ ?c @ post). b_used x \<and> unat ?p = b_addr x + 12 \<and>
      unat sz \<le> b_size x \<and> (\<forall>c \<in> set (?bs @ lost). b_used c \<longrightarrow> apart x c)"
    using h p by (intro bexI [of _ "hd ?c"]) auto
  moreover have "heap_within s (?bs @ lost) (s\<lparr>mem := m'\<rparr>) ((pre @ ?c @ post) @ lost)"
    using heap_within_carve [OF fit(2) m'(4,3), of pre "post @ lost"] by simp
  ultimately show ?thesis
    using m'(1-3) keeps p0 unfolding malloc_result_def
    by (intro exI [of _ ?p] exI [of _ "s\<lparr>mem := m'\<rparr>"]) simp
qed

text \<open>Without a block that fits the heap grows by a page, and the request starts again.\<close>

lemma malloc_grow_step:
  assumes inv: "heap_inv s bs lost" and nf: "\<forall>b \<in> set bs. \<not> fits (unat sz) b" and ne: "free_pages s \<noteq> {}"
  obtains s1 bs1 lost1 where "malloc sz s = malloc sz s1" "heap_inv s1 bs1 lost1" "card (free_pages s1) < card (free_pages s)"
    "\<And>p t bs' lost'. malloc_result s1 bs1 lost1 sz p t bs' lost' \<Longrightarrow> malloc_result s bs lost sz p t bs' lost'"
proof -
  obtain pre e post where bs: "bs = pre @ e # post" and e: "b_addr e = unat (heap_end s)"
    using inv unfolding heap_inv_def by (metis split_list)
  let ?P = "page_block (Min (free_pages s))"
  let ?bs1 = "pre @ [e, ?P]" and ?lost1 = "post @ lost"
  obtain s1 where s1: "grow_heap (fst (pmm_alloc_page s)) (snd (pmm_alloc_page s)) = s1"
    "fst (pmm_alloc_page s) \<noteq> 0" "heap_inv s1 ?bs1 ?lost1"
    "free_pages s1 = free_pages s - {Min (free_pages s)}"
    "only_changes (bitmap_region s \<union> page_span (Min (free_pages s)) \<union> nspan (b_addr e) 12) (mem s) (mem s1)"
    "bitmap_region s1 = bitmap_region s"
    using grow_heap_inv [OF inv [unfolded bs] e ne] by metis
  have step: "malloc sz s = malloc sz s1" using malloc_no_fit(2) [OF inv nf s1(2)] s1(1) by simp
  have less: "card (free_pages s1) < card (free_pages s)" using ne by (simp add: s1(4) card_gt_0_iff)
  have k1: "keeps_used (bs @ lost) (?bs1 @ ?lost1) (mem s) (mem s1)"
    using grow_keeps [OF inv [unfolded bs] e ne s1(5)] bs by simp
  have w1: "heap_within s (bs @ lost) s1 (?bs1 @ ?lost1)"
    using heap_within_grow [OF inv [unfolded bs] ne s1(1,4,6,5)] bs by simp
  have "malloc_result s bs lost sz p t bs' lost'" if r: "malloc_result s1 ?bs1 ?lost1 sz p t bs' lost'" for p t bs' lost'
  proof -
    have "4084 < unat sz" if "p = 0" using r that by (auto simp: malloc_result_def fits_def)
    moreover have "set (bs @ lost) \<subseteq> set (?bs1 @ ?lost1)" using bs by auto
    then have "p \<noteq> 0 \<longrightarrow> (\<exists>b \<in> set bs'. b_used b \<and> unat p = b_addr b + 12 \<and> unat sz \<le> b_size b \<and>
        (\<forall>c \<in> set (bs @ lost). b_used c \<longrightarrow> apart b c))"
      using r unfolding malloc_result_def by (meson subsetD)
    ultimately show ?thesis
      using r nf s1(4) keeps_used_trans [OF k1] heap_within_trans [OF w1] unfolding malloc_result_def by blast
  qed
  then show thesis using that [OF step s1(3) less] by blast
qed

lemma malloc_returns:
  assumes "heap_inv s bs lost" "0 < sz"
  shows "\<exists>p t bs' lost'. malloc sz s = Some (p, t) \<and> malloc_result s bs lost sz p t bs' lost'"
  using assms(1)
proof (induction "card (free_pages s)" arbitrary: s bs lost rule: less_induct)
  case less
  consider "\<exists>b \<in> set bs. fits (unat sz) b" | "\<forall>b \<in> set bs. \<not> fits (unat sz) b" "free_pages s = {}"
    | "\<forall>b \<in> set bs. \<not> fits (unat sz) b" "free_pages s \<noteq> {}" by blast
  then show ?case
  proof cases
    case 1
    then obtain pre b post where "bs = pre @ b # post" "fits (unat sz) b" "\<forall>x \<in> set pre. \<not> fits (unat sz) x"
      using split_list_first_prop [of bs "fits (unat sz)"] by blast
    then show ?thesis using malloc_fit_result less.prems assms(2) by blast
  next
    case 2
    have "keeps_used (bs @ lost) (bs @ lost) (mem s) (mem s)" by (simp add: keeps_used_def)
    then show ?thesis
      using malloc_no_fit(1) [OF less.prems 2] less.prems 2 heap_within_refl unfolding malloc_result_def by blast
  next
    case 3
    show ?thesis by (rule malloc_grow_step [OF less.prems 3]) (metis less.hyps)
  qed
qed

lemma malloc_spec:
  assumes "heap_inv s bs lost" "0 < sz"
  shows "\<exists>p s' bs' lost'. malloc sz s = Some (p, s') \<and> heap_inv s' bs' lost' \<and>
    free_pages s' \<subseteq> free_pages s \<and> keeps_used (bs @ lost) (bs' @ lost') (mem s) (mem s') \<and>
    heap_within s (bs @ lost) s' (bs' @ lost') \<and>
    (p = 0 \<longrightarrow> free_pages s' = {} \<and> (\<forall>b \<in> set bs. \<not> fits (unat sz) b) \<and>
       (4084 < unat sz \<or> free_pages s = {})) \<and>
    (p \<noteq> 0 \<longrightarrow> (\<exists>b \<in> set bs'. b_used b \<and> unat p = b_addr b + 12 \<and> unat sz \<le> b_size b \<and>
       (\<forall>c \<in> set (bs @ lost). b_used c \<longrightarrow> apart b c)))"
  using malloc_returns [OF assms] by (simp only: malloc_result_def)

end
