(* ===== verification/HeapUse.thy ===== *)
theory HeapUse
  imports HeapInv
begin

text \<open>
  The heap as its clients see it.  The locale \<open>disjoint_allocator\<close> is the
  contract of an allocator whose live blocks never overlap and keep their contents;
  it is interpreted on \<open>malloc\<close>.  The properties follow: what \<open>malloc\<close>
  returns after \<open>heap_init\<close> for any sequence of requests, first fit, and the
  requests that drain the page allocator.
\<close>

section \<open>The contract of an allocator\<close>

text \<open>Serve a list of requests, one after the other.\<close>

primrec alloc_all ::
  "(u32 \<Rightarrow> 's \<Rightarrow> (u32 \<times> 's) option) \<Rightarrow> u32 list \<Rightarrow> 's \<Rightarrow> (u32 list \<times> 's) option" where
  "alloc_all f [] s = Some ([], s)"
| "alloc_all f (n # ns) s = do {
     (p, s) \<leftarrow> f n s;
     (ps, s) \<leftarrow> alloc_all f ns s;
     Some (p # ps, s)
   }"

text \<open>A block is a start address and a length; a null pointer stands for no block.\<close>

definition blocks_of :: "u32 list \<Rightarrow> u32 list \<Rightarrow> (nat \<times> nat) set" where
  "blocks_of ps ns = {(unat p, unat n) | p n. (p, n) \<in> set (zip ps ns) \<and> p \<noteq> 0}"

lemma blocks_of_simps [simp]:
  "blocks_of [] [] = {}"
  "blocks_of (p # ps) (n # ns) = (if p = 0 then {} else {(unat p, unat n)}) \<union> blocks_of ps ns"
  by (auto simp: blocks_of_def)

definition disjoint_from :: "nat \<times> nat \<Rightarrow> (nat \<times> nat) set \<Rightarrow> bool" where
  "disjoint_from b L \<longleftrightarrow> (\<forall>c \<in> L. nspan (fst b) (snd b) \<inter> nspan (fst c) (snd c) = {})"

fun all_disjoint :: "u32 list \<Rightarrow> u32 list \<Rightarrow> bool" where
  "all_disjoint (p # ps) (n # ns) \<longleftrightarrow>
     (p \<noteq> 0 \<longrightarrow> disjoint_from (unat p, unat n) (blocks_of ps ns)) \<and> all_disjoint ps ns"
| "all_disjoint _ _ \<longleftrightarrow> True"

definition same_contents :: "(nat \<times> nat) set \<Rightarrow> memory \<Rightarrow> memory \<Rightarrow> bool" where
  "same_contents L m m' \<longleftrightarrow> (\<forall>b \<in> L. \<forall>x \<in> nspan (fst b) (snd b). m' x = m x)"

lemma same_contents_trans: "same_contents L m m' \<Longrightarrow> same_contents L m' m'' \<Longrightarrow> same_contents L m m''"
  by (simp add: same_contents_def)

lemma same_contents_mono: "same_contents L m m' \<Longrightarrow> K \<subseteq> L \<Longrightarrow> same_contents K m m'"
  by (auto simp: same_contents_def)

locale disjoint_allocator =
  fixes alloc :: "u32 \<Rightarrow> 's \<Rightarrow> (u32 \<times> 's) option"
    and owns :: "'s \<Rightarrow> (nat \<times> nat) set \<Rightarrow> bool"
    and get_mem :: "'s \<Rightarrow> memory"
  assumes alloc_total: "owns s L \<Longrightarrow> 0 < n \<Longrightarrow> \<exists>p s'. alloc n s = Some (p, s')"
    and alloc_keeps: "owns s L \<Longrightarrow> 0 < n \<Longrightarrow> alloc n s = Some (p, s') \<Longrightarrow> same_contents L (get_mem s) (get_mem s')"
    and alloc_null: "owns s L \<Longrightarrow> 0 < n \<Longrightarrow> alloc n s = Some (0, s') \<Longrightarrow> owns s' L"
    and alloc_new: "owns s L \<Longrightarrow> 0 < n \<Longrightarrow> alloc n s = Some (p, s') \<Longrightarrow> p \<noteq> 0 \<Longrightarrow>
      owns s' (insert (unat p, unat n) L) \<and> disjoint_from (unat p, unat n) L"
begin

lemma alloc_all_disjoint:
  assumes "owns s L" "0 \<notin> set ns"
  shows "\<exists>ps s'. alloc_all alloc ns s = Some (ps, s') \<and> length ps = length ns \<and>
    all_disjoint ps ns \<and> (\<forall>b \<in> blocks_of ps ns. disjoint_from b L) \<and>
    same_contents L (get_mem s) (get_mem s') \<and> owns s' (L \<union> blocks_of ps ns)"
  using assms
proof (induction ns arbitrary: s L)
  case Nil
  then show ?case by (simp add: same_contents_def)
next
  case (Cons n ns)
  have n: "0 < n" using Cons.prems(2) by (simp add: word_gt_0)
  obtain p s1 where s1: "alloc n s = Some (p, s1)" using alloc_total [OF Cons.prems(1) n] by blast
  let ?L = "if p = 0 then L else insert (unat p, unat n) L"
  have "owns s1 ?L" using alloc_null alloc_new Cons.prems(1) n s1 by auto
  moreover have "0 \<notin> set ns" using Cons.prems(2) by simp
  ultimately obtain ps s2 where s2: "alloc_all alloc ns s1 = Some (ps, s2)" "length ps = length ns"
    "all_disjoint ps ns" "\<forall>b \<in> blocks_of ps ns. disjoint_from b ?L"
    "same_contents ?L (get_mem s1) (get_mem s2)" "owns s2 (?L \<union> blocks_of ps ns)"
    using Cons.IH by blast
  have L: "L \<subseteq> ?L" by auto
  have "alloc_all alloc (n # ns) s = Some (p # ps, s2)" using s1 s2(1) by simp
  moreover have "same_contents L (get_mem s) (get_mem s2)"
    using same_contents_trans [OF alloc_keeps [OF Cons.prems(1) n s1] same_contents_mono [OF s2(5) L]] .
  moreover have "disjoint_from (unat p, unat n) (blocks_of ps ns)" if "p \<noteq> 0"
    unfolding disjoint_from_def
  proof
    fix c assume "c \<in> blocks_of ps ns"
    then have "disjoint_from c (insert (unat p, unat n) L)" using s2(4) that by simp
    then show "nspan (fst (unat p, unat n)) (snd (unat p, unat n)) \<inter> nspan (fst c) (snd c) = {}"
      unfolding disjoint_from_def by (metis Int_commute insertI1)
  qed
  then have "all_disjoint (p # ps) (n # ns)" using s2(3) by simp
  moreover have "\<forall>b \<in> blocks_of (p # ps) (n # ns). disjoint_from b L"
  proof
    fix b assume b: "b \<in> blocks_of (p # ps) (n # ns)"
    show "disjoint_from b L"
    proof (cases "b \<in> blocks_of ps ns")
      case True
      then show ?thesis using s2(4) by (auto simp: disjoint_from_def split: if_splits)
    next
      case False
      then have "p \<noteq> 0" "b = (unat p, unat n)" using b by (auto split: if_splits)
      then show ?thesis using alloc_new [OF Cons.prems(1) n s1] by blast
    qed
  qed
  moreover have "?L \<union> blocks_of ps ns = L \<union> blocks_of (p # ps) (n # ns)" by auto
  ultimately show ?case using s2(2,6) by (intro exI [of _ "p # ps"] exI [of _ s2]) simp
qed

end

section \<open>The kernel heap provides it\<close>

definition heap_owns :: "'a heap_state_scheme \<Rightarrow> (nat \<times> nat) set \<Rightarrow> bool" where
  "heap_owns s L \<longleftrightarrow> (\<exists>bs lost. heap_inv s bs lost \<and>
     (\<forall>(q, k) \<in> L. \<exists>b \<in> set (bs @ lost). b_used b \<and> q = b_addr b + 12 \<and> k \<le> b_size b))"

lemma payload_mono: "k \<le> b_size b \<Longrightarrow> nspan (b_addr b + 12) k \<subseteq> payload b"
  by (auto simp: nspan_def)

lemma apart_payload:
  "apart b c \<Longrightarrow> i \<le> b_size b \<Longrightarrow> k \<le> b_size c \<Longrightarrow>
    nspan (b_addr b + 12) i \<inter> nspan (b_addr c + 12) k = {}"
  by (auto simp: apart_def b_end_def nspan_def)

lemma malloc_owns:
  assumes "heap_owns s L" "0 < n"
  obtains p s' where "malloc n s = Some (p, s')" "same_contents L (mem s) (mem s')"
    "p = 0 \<Longrightarrow> heap_owns s' L"
    "p \<noteq> 0 \<Longrightarrow> heap_owns s' (insert (unat p, unat n) L) \<and> disjoint_from (unat p, unat n) L"
proof -
  obtain bs lost where inv: "heap_inv s bs lost"
    and L: "\<And>q k. (q, k) \<in> L \<Longrightarrow> \<exists>b \<in> set (bs @ lost). b_used b \<and> q = b_addr b + 12 \<and> k \<le> b_size b"
    using assms(1) unfolding heap_owns_def by blast
  obtain p s' bs' lost' where r: "malloc n s = Some (p, s')" "heap_inv s' bs' lost'"
    "keeps_used (bs @ lost) (bs' @ lost') (mem s) (mem s')"
    "p \<noteq> 0 \<Longrightarrow> \<exists>b \<in> set bs'. b_used b \<and> unat p = b_addr b + 12 \<and> unat n \<le> b_size b \<and>
       (\<forall>c \<in> set (bs @ lost). b_used c \<longrightarrow> apart b c)"
    using malloc_spec [OF inv assms(2)] by blast
  have keep: "same_contents L (mem s) (mem s')"
    unfolding same_contents_def
  proof (intro ballI)
    fix b x assume b: "b \<in> L" and x: "x \<in> nspan (fst b) (snd b)"
    obtain c where c: "c \<in> set (bs @ lost)" "b_used c" "fst b = b_addr c + 12" "snd b \<le> b_size c"
      using L [of "fst b" "snd b"] b by auto
    then have "x \<in> payload c" using x by auto
    then show "mem s' x = mem s x" using r(3) c(1,2) unfolding keeps_used_def by blast
  qed
  have L': "\<exists>b \<in> set (bs' @ lost'). b_used b \<and> q = b_addr b + 12 \<and> k \<le> b_size b" if "(q, k) \<in> L" for q k
    using L [OF that] r(3) unfolding keeps_used_def by blast
  have null: "heap_owns s' L" unfolding heap_owns_def using r(2) L' by blast
  have new: "heap_owns s' (insert (unat p, unat n) L) \<and> disjoint_from (unat p, unat n) L" if p: "p \<noteq> 0"
  proof
    obtain b where b: "b \<in> set bs'" "b_used b" "unat p = b_addr b + 12" "unat n \<le> b_size b"
      "\<And>c. c \<in> set (bs @ lost) \<Longrightarrow> b_used c \<Longrightarrow> apart b c" using r(4) [OF p] by blast
    show "heap_owns s' (insert (unat p, unat n) L)"
      unfolding heap_owns_def
    proof (intro exI conjI)
      show "\<forall>(q, k) \<in> insert (unat p, unat n) L. \<exists>b \<in> set (bs' @ lost'). b_used b \<and> q = b_addr b + 12 \<and> k \<le> b_size b"
        using L' b(1-4) by fastforce
    qed (rule r(2))
    show "disjoint_from (unat p, unat n) L"
      unfolding disjoint_from_def
    proof
      fix c assume "c \<in> L"
      then obtain d where "d \<in> set (bs @ lost)" "b_used d" "fst c = b_addr d + 12" "snd c \<le> b_size d"
        using L [of "fst c" "snd c"] by auto
      then show "nspan (fst (unat p, unat n)) (snd (unat p, unat n)) \<inter> nspan (fst c) (snd c) = {}"
        using apart_payload [OF b(5)] b(3,4) by simp
    qed
  qed
  show thesis using that [OF r(1) keep] null new by blast
qed

interpretation kernel_heap: disjoint_allocator malloc heap_owns mem
proof
  fix s s' :: "'a heap_state_scheme" and L and n p :: u32
  assume o: "heap_owns s L" "0 < n"
  show "\<exists>p s'. malloc n s = Some (p, s')" using malloc_owns [OF o] by metis
  {
    assume m: "malloc n s = Some (p, s')"
    then show "same_contents L (mem s) (mem s')" using malloc_owns [OF o] by (metis option.inject prod.inject)
    show "p \<noteq> 0 \<Longrightarrow> heap_owns s' (insert (unat p, unat n) L) \<and> disjoint_from (unat p, unat n) L"
      using m malloc_owns [OF o] by (metis option.inject prod.inject)
  }
  show "malloc n s = Some (0, s') \<Longrightarrow> heap_owns s' L"
    using malloc_owns [OF o] by (metis option.inject prod.inject)
qed

section \<open>Requests larger than a page\<close>

lemma malloc_too_big:
  assumes "heap_inv s bs lost" "4084 < unat sz" "\<forall>b \<in> set bs. \<not> fits (unat sz) b"
  shows "\<exists>s' bs' lost'. malloc sz s = Some (0, s') \<and> heap_inv s' bs' lost' \<and> free_pages s' = {}"
  using assms(1,3)
proof (induction "card (free_pages s)" arbitrary: s bs lost rule: less_induct)
  case less
  show ?case
  proof (cases "free_pages s = {}")
    case True
    then show ?thesis using malloc_no_fit(1) [OF less.prems] less.prems(1) by blast
  next
    case False
    obtain pre e post where bs: "bs = pre @ e # post" and e: "b_addr e = unat (heap_end s)"
      using less.prems(1) unfolding heap_inv_def by (metis split_list)
    let ?P = "page_block (Min (free_pages s))"
    obtain s1 where s1: "grow_heap (fst (pmm_alloc_page s)) (snd (pmm_alloc_page s)) = s1"
      "fst (pmm_alloc_page s) \<noteq> 0" "heap_inv s1 (pre @ [e, ?P]) (post @ lost)"
      "free_pages s1 = free_pages s - {Min (free_pages s)}"
      using grow_heap_inv [OF less.prems(1) [unfolded bs] e False] by metis
    have step: "malloc sz s = malloc sz s1"
      using malloc_no_fit(2) [OF less.prems s1(2)] s1(1) by simp
    have "card (free_pages s1) < card (free_pages s)"
      using False by (simp add: s1(4) card_gt_0_iff)
    moreover have "\<forall>b \<in> set (pre @ [e, ?P]). \<not> fits (unat sz) b"
      using less.prems(2) bs assms(2) by (auto simp: fits_def)
    ultimately show ?thesis using less.hyps [OF _ s1(3)] step by simp
  qed
qed

section \<open>Boot state\<close>

definition heap0 :: "pmm_state \<Rightarrow> heap_state" where
  "heap0 p = pmm_state.extend p (heap_state.fields 0 0 0)"

lemma heap0_simps [simp]:
  "free_pages (heap0 p) = free_pages p" "pmm_inv (heap0 p) = pmm_inv p"
  "bitmap_region (heap0 p) = bitmap_region p" "mem (heap0 p) = mem p"
  by (simp_all add: heap0_def pmm_state.defs heap_state.defs free_pages_def pmm_inv_def bitmap_region_def)

text \<open>The 128 MiB machine once its first frame, frame 0, has been allocated.\<close>

definition before_heap :: heap_state where
  "before_heap = heap0 (snd (pmm_alloc_page booted_pmm))"

lemma before_heap_ok:
  "pmm_inv before_heap" "0 \<notin> free_pages before_heap" "free_pages before_heap \<noteq> {}"
  "free_pages before_heap = free_pages booted_pmm - {0}"
proof -
  have ne: "free_pages booted_pmm \<noteq> {}" using booted_pmm_low [of 0] by auto
  obtain m' where m': "pmm_alloc_page booted_pmm = (0, booted_pmm\<lparr>mem := m'\<rparr>)"
    "free_pages (booted_pmm\<lparr>mem := m'\<rparr>) = free_pages booted_pmm - {0}" "pmm_inv (booted_pmm\<lparr>mem := m'\<rparr>)"
    using pmm_alloc_least [OF booted_pmm_free(1) ne] booted_pmm_Min by auto
  then show f: "pmm_inv before_heap" "0 \<notin> free_pages before_heap"
    "free_pages before_heap = free_pages booted_pmm - {0}"
    by (simp_all add: before_heap_def)
  have "1 \<in> free_pages booted_pmm" by (rule booted_pmm_low) simp
  then show "free_pages before_heap \<noteq> {}" unfolding f(3) by auto
qed

lemma before_heap_frames: "0 < i \<Longrightarrow> i < 159 \<Longrightarrow> i \<in> free_pages before_heap"
  by (simp add: before_heap_ok(4) booted_pmm_low)

lemma before_heap_Min: "Min (free_pages before_heap) = 1"
proof (rule Min_eqI)
  show "1 \<le> y" if "y \<in> free_pages before_heap" for y
    using that before_heap_ok(2) by (cases y) auto
qed (simp_all add: before_heap_frames)

lemma heap_init_before:
  "heap_inv (heap_init before_heap) [page_block 1] []"
  "free_pages (heap_init before_heap) = free_pages before_heap - {1}"
  "heap_start (heap_init before_heap) = heap_end (heap_init before_heap)"
  using heap_init_inv [OF before_heap_ok(1-3)] by (simp_all add: before_heap_Min)

section \<open>Properties\<close>

text \<open>
  C6 (live allocations never overlap): after \<open>heap_init\<close>, any sequence of
  non-zero requests to \<open>malloc\<close> is served to its end; the blocks returned (where
  not NULL) are pairwise disjoint.  This holds as long as nothing is freed.
\<close>

theorem heap_allocations_disjoint:
  assumes "pmm_inv s" "0 \<notin> free_pages s" "free_pages s \<noteq> {}" "0 \<notin> set ns"
  shows "\<exists>ps s'. alloc_all malloc ns (heap_init s) = Some (ps, s') \<and> length ps = length ns \<and>
    all_disjoint ps ns"
proof -
  have "heap_owns (heap_init s) {}"
    using heap_init_inv(1) [OF assms(1-3)] unfolding heap_owns_def by blast
  from kernel_heap.alloc_all_disjoint [OF this assms(4)] show ?thesis by blast
qed

theorem heap_allocations_disjoint_witness:
  "\<exists>ps s'. alloc_all malloc [100, 3900, 2000, 2000] (heap_init before_heap) = Some (ps, s') \<and>
    all_disjoint ps [100, 3900, 2000, 2000]"
  using heap_allocations_disjoint [OF before_heap_ok(1-3), of "[100, 3900, 2000, 2000]"]
  by (auto simp del: alloc_all.simps)

text \<open>
  C7 (live data is kept): under the heap invariant a request ends and does not
  change the contents of any block in use, those that growing the heap has cut off
  from the list included; the result is NULL, or a block in use of at least the
  size asked for that overlaps none of them.
\<close>

theorem malloc_keeps_live_data:
  assumes "heap_inv s bs lost" "0 < sz"
  shows "\<exists>p s' bs' lost'. malloc sz s = Some (p, s') \<and> heap_inv s' bs' lost' \<and>
    (\<forall>c \<in> set (bs @ lost). b_used c \<longrightarrow> c \<in> set (bs' @ lost') \<and> (\<forall>x \<in> payload c. mem s' x = mem s x)) \<and>
    (p \<noteq> 0 \<longrightarrow> (\<exists>b \<in> set bs'. b_used b \<and> unat p = b_addr b + 12 \<and> unat sz \<le> b_size b \<and>
       (\<forall>c \<in> set (bs @ lost). b_used c \<longrightarrow> payload b \<inter> payload c = {})))"
proof -
  have dis: "payload b \<inter> payload c = {}" if "apart b c" for b c
    using apart_payload [OF that, of "b_size b" "b_size c"] by simp
  obtain p s' bs' lost' where r: "malloc sz s = Some (p, s')" "heap_inv s' bs' lost'"
    "keeps_used (bs @ lost) (bs' @ lost') (mem s) (mem s')"
    "p \<noteq> 0 \<Longrightarrow> \<exists>b \<in> set bs'. b_used b \<and> unat p = b_addr b + 12 \<and> unat sz \<le> b_size b \<and>
       (\<forall>c \<in> set (bs @ lost). b_used c \<longrightarrow> apart b c)"
    using malloc_spec [OF assms] by blast
  have "p \<noteq> 0 \<longrightarrow> (\<exists>b \<in> set bs'. b_used b \<and> unat p = b_addr b + 12 \<and> unat sz \<le> b_size b \<and>
       (\<forall>c \<in> set (bs @ lost). b_used c \<longrightarrow> payload b \<inter> payload c = {}))"
    using r(4) dis by meson
  then show ?thesis using r(1-3) unfolding keeps_used_def by blast
qed

theorem malloc_keeps_live_data_witness:
  "\<exists>p s'. malloc 100 (heap_init before_heap) = Some (p, s') \<and>
    (\<exists>bs lost. heap_inv s' bs lost)"
  using malloc_keeps_live_data [OF heap_init_before(1), of 100] by auto

text \<open>
  First fit: the block taken is the first free one of the list that is large
  enough; it is split when more than a header would be left over, and neither the
  other blocks nor the page allocator change.
\<close>

theorem malloc_first_fit:
  assumes "heap_inv s (pre @ b # post) lost" "\<forall>x \<in> set pre. \<not> fits (unat sz) x" "fits (unat sz) b"
  shows "\<exists>s'. malloc sz s = Some (of_nat (b_addr b + 12), s') \<and>
    heap_inv s' (pre @ carve (unat sz) b @ post) lost \<and> free_pages s' = free_pages s \<and>
    only_changes (b_span b) (mem s) (mem s')"
  by (rule malloc_fit_inv [OF assms]) auto

theorem malloc_first_fit_witness:
  "\<exists>s'. malloc 100 (heap_init before_heap) = Some (4108, s') \<and>
    heap_inv s' [\<lparr>b_addr = 4096, b_size = 100, b_used = True\<rparr>,
      \<lparr>b_addr = 4208, b_size = 3972, b_used = False\<rparr>] []"
  using malloc_first_fit [of "heap_init before_heap" "[]" "page_block 1" "[]" "[]" 100] heap_init_before(1)
  by (auto simp: fits_def carve_def)

text \<open>
  When \<open>malloc\<close> fails: a request of at most 4084 bytes succeeds while a
  frame is free; a larger one that no block of the list fits takes every free frame
  of the machine into the heap before it returns NULL.
\<close>

theorem malloc_failure:
  assumes "heap_inv s bs lost" "0 < sz"
  shows "\<exists>p s'. malloc sz s = Some (p, s') \<and>
    (unat sz \<le> 4084 \<and> free_pages s \<noteq> {} \<longrightarrow> p \<noteq> 0) \<and>
    (4084 < unat sz \<and> (\<forall>b \<in> set bs. \<not> fits (unat sz) b) \<longrightarrow> p = 0 \<and> free_pages s' = {})"
proof -
  obtain p s' where r: "malloc sz s = Some (p, s')" "p = 0 \<longrightarrow> 4084 < unat sz \<or> free_pages s = {}"
    using malloc_spec [OF assms] by blast
  moreover have "p = 0 \<and> free_pages s' = {}" if "4084 < unat sz" "\<forall>b \<in> set bs. \<not> fits (unat sz) b"
    using malloc_too_big [OF assms(1) that] r(1) by simp
  ultimately show ?thesis by auto
qed

theorem malloc_failure_witness:
  "\<exists>s'. malloc 5000 (heap_init before_heap) = Some (0, s') \<and> free_pages s' = {} \<and>
    free_pages (heap_init before_heap) \<noteq> {}"
proof -
  have "2 \<in> free_pages (heap_init before_heap)"
    unfolding heap_init_before(2) by (simp add: before_heap_frames)
  then show ?thesis using malloc_failure [OF heap_init_before(1), of 5000] by (auto simp: fits_def)
qed

end
