(* ===== verification/HeapFree.thy ===== *)
theory HeapFree
  imports HeapUse
begin

text \<open>
  \<open>free\<close>: the coalescing pass computes \<open>merge_free\<close> on the list of blocks.
  On a heap that is one contiguous region this keeps the invariant and undoes
  \<open>malloc\<close>; once the heap has grown, list neighbours need not be memory
  neighbours, and the pass merges across live blocks that have left the list.
\<close>

section \<open>Coalescing on the list\<close>

fun merge_free :: "hblk list \<Rightarrow> hblk list" where
  "merge_free (a # b # bs) =
     (if \<not> b_used a \<and> \<not> b_used b then merge_free (a\<lparr>b_size := b_size a + 12 + b_size b\<rparr> # bs)
      else a # merge_free (b # bs))"
| "merge_free bs = bs"

lemmas merge_free_induct = merge_free.induct [case_names two none one]

fun no_adjacent_free :: "hblk list \<Rightarrow> bool" where
  "no_adjacent_free (a # b # bs) \<longleftrightarrow> (b_used a \<or> b_used b) \<and> no_adjacent_free (b # bs)"
| "no_adjacent_free bs \<longleftrightarrow> True"

text \<open>The blocks follow each other without gaps.\<close>

fun contiguous :: "hblk list \<Rightarrow> bool" where
  "contiguous (a # b # bs) \<longleftrightarrow> b_end a = b_addr b \<and> contiguous (b # bs)"
| "contiguous bs \<longleftrightarrow> True"

lemma merge_free_Cons: "\<exists>sz bs'. merge_free (a # bs) = a\<lparr>b_size := sz\<rparr> # bs' \<and> b_size a \<le> sz"
proof (induction bs arbitrary: a)
  case (Cons b bs)
  show ?case
  proof (cases "\<not> b_used a \<and> \<not> b_used b")
    case True
    then show ?thesis using Cons.IH [of "a\<lparr>b_size := b_size a + 12 + b_size b\<rparr>"] by fastforce
  next
    case False
    then have "merge_free (a # b # bs) = a\<lparr>b_size := b_size a\<rparr> # merge_free (b # bs)" by auto
    then show ?thesis by blast
  qed
next
  case Nil
  have "a = a\<lparr>b_size := b_size a\<rparr> \<and> b_size a \<le> b_size a" by simp
  then show ?case unfolding merge_free.simps by blast
qed

lemma merge_nonempty: "bs \<noteq> [] \<Longrightarrow> merge_free bs \<noteq> []"
  by (induction bs rule: merge_free_induct) auto

lemma no_adjacent_merge: "no_adjacent_free (merge_free bs)"
proof (induction bs rule: merge_free_induct)
  case (two a b bs)
  show ?case
  proof (cases "\<not> b_used a \<and> \<not> b_used b")
    case False
    obtain sz cs where "merge_free (b # bs) = b\<lparr>b_size := sz\<rparr> # cs" using merge_free_Cons by blast
    then show ?thesis using two(2) False by auto
  qed (use two(1) in simp)
qed simp_all

lemma merge_no_adjacent: "no_adjacent_free bs \<Longrightarrow> merge_free bs = bs"
  by (induction bs rule: merge_free_induct) auto

lemma merge_used: "filter b_used (merge_free bs) = filter b_used bs"
  by (induction bs rule: merge_free_induct) auto

text \<open>Merging two neighbours first makes no difference.\<close>

lemma merge_join:
  assumes "\<not> b_used x" "\<not> b_used y"
  shows "merge_free (pre @ x # y # post) = merge_free (pre @ x\<lparr>b_size := b_size x + 12 + b_size y\<rparr> # post)"
proof (induction pre rule: merge_free_induct)
  case (two a b bs)
  then show ?case by auto
next
  case none
  then show ?case using assms by simp
next
  case (one a)
  then show ?case using assms by (cases "b_used a") (simp_all add: add.assoc)
qed

lemma packed_merge_head:
  assumes "packed (a # b # bs)"
  shows "packed (a\<lparr>b_size := b_size a + 12 + b_size b\<rparr> # bs)"
  using assms by (auto simp: packed_Cons) (auto simp: packed_def b_end_def)

lemma packed_merge:
  "packed bs \<Longrightarrow> packed (merge_free bs) \<and> (\<forall>c \<in> set (merge_free bs). \<exists>d \<in> set bs. b_addr d \<le> b_addr c)"
proof (induction bs rule: merge_free_induct)
  case (two a b bs)
  show ?case
  proof (cases "\<not> b_used a \<and> \<not> b_used b")
    case True
    then show ?thesis using two(1) [OF True packed_merge_head [OF two.prems]] by fastforce
  next
    case False
    have "packed (b # bs)" using two.prems unfolding packed_Cons [of a] by blast
    note IH = two(2) [OF False this]
    have "b_end a \<le> b_addr c" if c: "c \<in> set (merge_free (b # bs))" for c
    proof -
      obtain d where "d \<in> set (b # bs)" "b_addr d \<le> b_addr c" using IH c by blast
      moreover have "\<forall>d \<in> set (b # bs). b_end a \<le> b_addr d"
        using two.prems unfolding packed_Cons [of a] by blast
      ultimately show ?thesis by (meson le_trans)
    qed
    moreover have "merge_free (a # b # bs) = a # merge_free (b # bs)" using False by auto
    moreover have "0 < b_addr a" "b_end a \<le> 2 ^ 32" using two.prems unfolding packed_Cons [of a] by blast+
    ultimately have "packed (merge_free (a # b # bs))" using IH by (simp only: packed_Cons) blast
    moreover have "\<exists>d \<in> set (a # b # bs). b_addr d \<le> b_addr c" if "c \<in> set (merge_free (a # b # bs))" for c
      using that IH \<open>merge_free (a # b # bs) = a # merge_free (b # bs)\<close> by (metis list.set_intros order_refl set_ConsD)
    ultimately show ?thesis by blast
  qed
qed auto

section \<open>Coalescing in memory\<close>

abbreviation headers :: "hblk list \<Rightarrow> u32 set" where
  "headers bs \<equiv> (\<Union>b \<in> set bs. nspan (b_addr b) 12)"

lemma packed_headers_apart:
  assumes "packed bs" "b \<in> set bs" "c \<in> set bs" "b \<noteq> c"
  shows "nspan (b_addr b) 12 \<inter> nspan (b_addr c) 12 = {}"
  using packed_apart [OF assms] by (auto simp: apart_def b_end_def)

text \<open>Two free neighbours of the list become one block.\<close>

lemma merge_pair:
  fixes m :: memory
  assumes path: "hpath m p (a # b # bs) 0" and pk: "packed (a # b # bs)" and fr: "\<not> b_used a" "\<not> b_used b"
  obtains m2 where "coalesce m p = coalesce m2 p" "only_changes (nspan (b_addr a) 12) m m2"
    "hpath m2 p (a\<lparr>b_size := b_size a + 12 + b_size b\<rparr> # bs) 0"
proof -
  let ?q = "hb_next m p"
  have p: "p \<noteq> 0" "unat p = b_addr a" "unat (hb_size m p) = b_size a" "hb_flags m p = 0"
    and q: "?q \<noteq> 0" "unat ?q = b_addr b" "unat (hb_size m ?q) = b_size b" "hb_flags m ?q = 0"
    and rest: "hpath m (hb_next m ?q) bs 0"
    using path fr by auto
  have ends: "b_end a \<le> b_addr b" "b_end b \<le> 2 ^ 32" "packed bs" using pk by (auto simp: packed_Cons)
  have hp: "unat p + 12 \<le> 2 ^ 32" "nspan (unat p) 12 \<subseteq> nspan (b_addr a) 12"
    using p(2) ends by (auto simp: b_end_def)
  have sep: "nspan (b_addr c) 12 \<inter> nspan (b_addr a) 12 = {}" if "c \<in> set (b # bs)" for c
    using packed_headers_apart [OF pk, of c a] packed_distinct [OF pk] that by auto
  let ?sz = "hb_size m p + (12 + hb_size m ?q)"
  define m1 where "m1 = set_size p ?sz m"
  define m2 where "m2 = set_next p (hb_next m ?q) m1"
  note w = header_write_only [OF hp]
  have o1: "only_changes (nspan (b_addr a) 12) m m1" unfolding m1_def by (rule w(1))
  have o2: "only_changes (nspan (b_addr a) 12) m m2"
    unfolding m2_def using only_changes_trans [OF o1 w(3)] by simp
  have n1: "hb_next m1 p = ?q" by (simp add: m1_def header_fields)
  have "unat ?q + 12 \<le> 2 ^ 32" using q(2) ends by (simp add: b_end_def)
  moreover have "m1 x = m x" if "x \<in> nspan (unat ?q) 12" for x
    using that sep [of b] only_changesD [OF o1, of x] q(2) by (auto simp: disjoint_iff)
  ultimately have n2: "hb_next m1 ?q = hb_next m ?q" by (rule header_cong(3))
  have step: "coalesce m p = coalesce m2 p"
    using p(1,4) q(1,4) by (subst coalesce.simps) (simp add: m1_def [symmetric] m2_def n1 n2)
  have "unat ?sz = b_size a + 12 + b_size b"
    using p(2,3) q(2,3) ends by (simp add: unat_word_ariths b_end_def)
  moreover have "hpath m2 (hb_next m ?q) bs 0"
    using packed_header [OF ends(3)] sep by (intro hpath_only_changes [OF rest o2]) auto
  ultimately have "hpath m2 p (a\<lparr>b_size := b_size a + 12 + b_size b\<rparr> # bs) 0"
    using p fr by (simp add: m2_def m1_def header_fields)
  then show thesis by (rule that [OF step o2])
qed

lemma coalesce_hpath:
  assumes "hpath m p bs 0" "packed bs"
  shows "\<exists>m'. coalesce m p = Some m' \<and> hpath m' p (merge_free bs) 0 \<and> only_changes (headers bs) m m'"
  using assms
proof (induction bs arbitrary: m p rule: merge_free_induct)
  case none
  then show ?case by (simp add: coalesce.simps)
next
  case (one a)
  then have "coalesce m p = coalesce m 0" by (subst coalesce.simps) auto
  then show ?case using one by (auto simp: coalesce.simps [of m 0])
next
  case (two a b bs m p)
  show ?case
  proof (cases "\<not> b_used a \<and> \<not> b_used b")
    case True
    let ?ab = "a\<lparr>b_size := b_size a + 12 + b_size b\<rparr>"
    obtain m2 where m2: "coalesce m p = coalesce m2 p" "only_changes (nspan (b_addr a) 12) m m2" "hpath m2 p (?ab # bs) 0"
      using merge_pair [OF two.prems] True by blast
    obtain m' where m': "coalesce m2 p = Some m'" "hpath m' p (merge_free (?ab # bs)) 0" "only_changes (headers (a # bs)) m2 m'"
      using two(1) [OF True m2(3) packed_merge_head [OF two.prems(2)]] by auto
    have "only_changes (headers (a # b # bs)) m m'"
      by (rule only_changes_mono [OF only_changes_trans [OF m2(2) m'(3)]]) auto
    then show ?thesis using m' m2(1) True by auto
  next
    case False
    let ?q = "hb_next m p"
    have p: "p \<noteq> 0" "unat p = b_addr a" "unat (hb_size m p) = b_size a" "b_used a \<longleftrightarrow> hb_flags m p \<noteq> 0"
      and q: "?q \<noteq> 0" "b_used b \<longleftrightarrow> hb_flags m ?q \<noteq> 0" "hpath m ?q (b # bs) 0"
      using two.prems(1) by auto
    have pk: "packed (b # bs)" "unat p + 12 \<le> 2 ^ 32" using two.prems(2) p(2) by (auto simp: packed_Cons b_end_def)
    have sep: "nspan (b_addr c) 12 \<inter> nspan (b_addr a) 12 = {}" if "c \<in> set (b # bs)" for c
      using packed_headers_apart [OF two.prems(2), of c a] packed_distinct [OF two.prems(2)] that by auto
    have step: "coalesce m p = coalesce m ?q" using False p(1,4) q(1,2) by (subst coalesce.simps) auto
    from two(2) [OF False q(3) pk(1)] obtain m' where m': "coalesce m ?q = Some m'"
      "hpath m' ?q (merge_free (b # bs)) 0" "only_changes (headers (b # bs)) m m'" by blast
    have "m' x = m x" if "x \<in> nspan (unat p) 12" for x
      using that sep only_changesD [OF m'(3), of x] p(2) by (fastforce simp: disjoint_iff)
    then have f: "hb_size m' p = hb_size m p" "hb_flags m' p = hb_flags m p" "hb_next m' p = hb_next m p"
      using header_cong [of p m' m] pk(2) by blast+
    have "hpath m' p (a # merge_free (b # bs)) 0" using p m'(2) by (simp add: f)
    moreover have "only_changes (headers (a # b # bs)) m m'" by (rule only_changes_mono [OF m'(3)]) auto
    ultimately show ?thesis using m'(1) step False by auto
  qed
qed

section \<open>\<open>free\<close>\<close>

abbreviation freed :: "hblk \<Rightarrow> hblk" where
  "freed b \<equiv> b\<lparr>b_used := False\<rparr>"

lemma packed_freed: "packed (pre @ freed b # post) = packed (pre @ b # post)"
  by (simp add: packed_append packed_Cons b_end_def)

lemma mark_free_hpath:
  assumes "hpath m p (pre @ b # post) 0" "packed (pre @ b # post)" "unat q = b_addr b"
  shows "hpath (set_flags q 0 m) p (pre @ freed b # post) 0"
    and "only_changes (nspan (b_addr b) 12) m (set_flags q 0 m)"
proof -
  obtain r where r: "hpath m p pre r" "hpath m r (b # post) 0" using assms(1) by (auto simp: hpath_append)
  then have rq: "r = q" using assms(3) by (simp add: word_unat_eq_iff)
  have "b_end b \<le> 2 ^ 32" using assms(2) by (simp add: packed_append packed_Cons)
  then have h: "unat q + 12 \<le> 2 ^ 32" "nspan (unat q) 12 \<subseteq> nspan (b_addr b) 12"
    using assms(3) by (auto simp: b_end_def)
  show o: "only_changes (nspan (b_addr b) 12) m (set_flags q 0 m)" by (rule header_write_only(2) [OF h])
  have d: "distinct (pre @ b # post)" by (rule packed_distinct [OF assms(2)])
  have sep: "nspan (b_addr c) 12 \<inter> nspan (b_addr b) 12 = {}" if "c \<in> set pre \<union> set post" for c
    using packed_headers_apart [OF assms(2), of c b] that d by auto
  have pk: "packed pre" "packed post" using assms(2) by (simp_all add: packed_append packed_Cons)
  have "hpath (set_flags q 0 m) p pre r"
    using packed_header [OF pk(1)] sep by (intro hpath_only_changes [OF r(1) o]) auto
  moreover have n: "hpath m (hb_next m q) post 0" using r(2) rq by simp
  have "hpath (set_flags q 0 m) (hb_next m q) post 0"
    using packed_header [OF pk(2)] sep by (intro hpath_only_changes [OF n o]) auto
  ultimately show "hpath (set_flags q 0 m) p (pre @ freed b # post) 0"
    using r(2) rq by (auto simp: hpath_append header_fields)
qed

lemma free_list:
  assumes "heap_list s (pre @ b # post)" "unat ptr = b_addr b + 12"
  obtains m' where "free ptr s = Some (s\<lparr>mem := m'\<rparr>)"
    "heap_list (s\<lparr>mem := m'\<rparr>) (merge_free (pre @ freed b # post))"
    "only_changes (headers (pre @ b # post)) (mem s) m'"
proof -
  let ?q = "ptr - 12" and ?bs = "pre @ freed b # post"
  have path: "hpath (mem s) (heap_start s) (pre @ b # post) 0" and pk: "packed (pre @ b # post)"
    using assms(1) by (simp_all add: heap_list_def)
  have q: "unat ?q = b_addr b" using assms(2) by (simp add: unat_sub word_le_nat_alt)
  have p0: "ptr \<noteq> 0" using assms(2) by (metis add_is_0 unat_0 zero_neq_numeral)
  note mf = mark_free_hpath [OF path pk q]
  obtain m' where m': "coalesce (set_flags ?q 0 (mem s)) (heap_start s) = Some m'"
    "hpath m' (heap_start s) (merge_free ?bs) 0" "only_changes (headers ?bs) (set_flags ?q 0 (mem s)) m'"
    using coalesce_hpath [OF mf(1)] pk packed_freed by blast
  have "only_changes (headers (pre @ b # post)) (mem s) m'"
    by (rule only_changes_mono [OF only_changes_trans [OF mf(2) m'(3)]]) auto
  moreover have "packed (merge_free ?bs)" using packed_merge pk packed_freed by blast
  ultimately show thesis using that m'(1,2) p0 by (simp add: free_def heap_list_def)
qed

lemma headers_payload:
  assumes "packed bs" "c \<in> set bs"
  shows "headers bs \<inter> payload c = {}"
proof -
  have "nspan (b_addr b) 12 \<inter> payload c = {}" if "b \<in> set bs" for b
    using packed_apart [OF assms(1) that assms(2)] by (cases "b = c") (auto simp: apart_def b_end_def)
  then show ?thesis by blast
qed

section \<open>A heap of one region\<close>

lemma contiguous_merge:
  assumes "contiguous bs" "packed bs" "bs \<noteq> []"
  shows "contiguous (merge_free bs) \<and> b_addr (hd (merge_free bs)) = b_addr (hd bs) \<and>
    (\<forall>c \<in> set (merge_free bs). b_span c \<subseteq> (\<Union>b \<in> set bs. b_span b) \<and> (\<exists>d \<in> set bs. b_end c = b_end d))"
  using assms
proof (induction bs rule: merge_free_induct)
  case (two a b bs)
  have e: "b_end a = b_addr b" and cb: "contiguous (b # bs)" using two.prems(1) by auto
  show ?case
  proof (cases "\<not> b_used a \<and> \<not> b_used b")
    case True
    let ?a = "a\<lparr>b_size := b_size a + 12 + b_size b\<rparr>"
    have end': "b_end ?a = b_end b" using e by (simp add: b_end_def)
    have sp: "b_span ?a \<subseteq> b_span a \<union> b_span b" using e by (auto simp: b_end_def nspan_def)
    have "contiguous (?a # bs)" using cb end' by (cases bs) auto
    note IH = two(1) [OF True this packed_merge_head [OF two.prems(2)]]
    have "b_span c \<subseteq> (\<Union>b \<in> set (a # b # bs). b_span b) \<and> (\<exists>d \<in> set (a # b # bs). b_end c = b_end d)"
      if "c \<in> set (merge_free (?a # bs))" for c
    proof
      have c: "b_span c \<subseteq> (\<Union>b \<in> set (?a # bs). b_span b)" "\<exists>d \<in> set (?a # bs). b_end c = b_end d"
        using IH that by blast+
      show "b_span c \<subseteq> (\<Union>b \<in> set (a # b # bs). b_span b)"
        using c(1) sp by (force simp del: nspan_iff)
      show "\<exists>d \<in> set (a # b # bs). b_end c = b_end d" using c(2) end' by auto
    qed
    then show ?thesis using IH True by simp
  next
    case False
    have "packed (b # bs)" using two.prems(2) unfolding packed_Cons [of a] by blast
    note IH = two(2) [OF False cb this]
    obtain sz cs where m: "merge_free (b # bs) = b\<lparr>b_size := sz\<rparr> # cs" using merge_free_Cons by blast
    have "contiguous (a # merge_free (b # bs))" using IH e unfolding m by simp
    moreover have "merge_free (a # b # bs) = a # merge_free (b # bs)" using False by auto
    ultimately show ?thesis using IH by (simp del: nspan_iff merge_free.simps) blast
  qed
qed simp_all

lemma free_region:
  assumes "heap_inv s (pre @ b # post) []" "contiguous (pre @ b # post)"
    and "heap_end s = heap_start s" "unat ptr = b_addr b + 12"
  obtains s' where "free ptr s = Some s'" "heap_inv s' (merge_free (pre @ freed b # post)) []"
    "contiguous (merge_free (pre @ freed b # post))" "heap_end s' = heap_start s'"
    "free_pages s' = free_pages s" "only_changes (headers (pre @ b # post)) (mem s) (mem s')"
proof -
  let ?bs = "pre @ b # post" and ?fs = "pre @ freed b # post"
  obtain m' where m': "free ptr s = Some (s\<lparr>mem := m'\<rparr>)" "heap_list (s\<lparr>mem := m'\<rparr>) (merge_free ?fs)"
    "only_changes (headers ?bs) (mem s) m'"
    by (rule free_list [OF heap_inv_list [OF assms(1)] assms(4)])
  have sp: "(\<Union>x \<in> set ?fs. b_span x) = (\<Union>x \<in> set ?bs. b_span x)" by auto
  have hdr: "headers ?bs \<subseteq> (\<Union>x \<in> set ?bs. b_span x)" by fastforce
  have bitmap: "(\<Union>x \<in> set ?bs. b_span x) \<inter> bitmap_region s = {}"
    using heap_inv_block(2) [OF assms(1)] by blast
  have inv: "pmm_inv s" using assms(1) by (simp add: heap_inv_def)
  have hb: "headers ?bs \<inter> bitmap_region s = {}" using hdr bitmap by blast
  have keep: "pmm_inv (s\<lparr>mem := m'\<rparr>)" "free_pages (s\<lparr>mem := m'\<rparr>) = free_pages s"
    using kernel_pages.write_keeps [OF inv m'(3) hb] by simp_all
  have c: "contiguous ?fs"
  proof -
    have "contiguous ?fs = contiguous ?bs"
      by (induction pre rule: contiguous.induct) (cases post; simp add: b_end_def)+
    then show ?thesis using assms(2) by simp
  qed
  have pk: "packed ?fs" using assms(1) packed_freed by (auto simp: heap_inv_def)
  note cm = contiguous_merge [OF c pk]
  have ne: "merge_free ?fs \<noteq> []" by (rule merge_nonempty) simp
  have start: "unat (heap_start s) = b_addr (hd ?bs)"
    using assms(1) by (cases pre) (auto simp: heap_inv_def)
  have hd: "b_addr (hd ?fs) = b_addr (hd ?bs)" by (cases pre) auto
  have ends: "b_end x \<le> i * 4096" if "x \<in> set (merge_free ?fs)" "i \<in> free_pages s" for x i
  proof -
    obtain d where d: "d \<in> set ?fs" "b_end x = b_end d" using cm \<open>x \<in> set (merge_free ?fs)\<close> by blast
    then have "b_end d \<in> b_end ` set ?bs" by (auto simp: b_end_def)
    then obtain y where "y \<in> set ?bs" "b_end d = b_end y" by blast
    then show ?thesis using heap_inv_block(1) [OF assms(1), of y i] that(2) d(2) by auto
  qed
  have spans: "b_span x \<inter> bitmap_region s = {}" if "x \<in> set (merge_free ?fs)" for x
    using cm that bitmap sp by blast
  have "heap_inv (s\<lparr>mem := m'\<rparr>) (merge_free ?fs) []"
    unfolding heap_inv_def keep(2) bitmap_region_mem
  proof (intro conjI)
    show "\<exists>x \<in> set (merge_free ?fs). b_addr x = unat (heap_end (s\<lparr>mem := m'\<rparr>))"
      using cm hd start assms(3) hd_in_set [OF ne] by force
  qed (use m'(2) keep assms(1) ends spans in \<open>auto simp: heap_inv_def heap_list_def\<close>)
  then show thesis using that m'(1,3) keep(2) cm assms(3) by simp
qed

section \<open>Following a sequence of calls\<close>

text \<open>The first free block of a list that is large enough, and the list once it is taken.\<close>

definition takes :: "nat \<Rightarrow> hblk list \<Rightarrow> nat \<Rightarrow> hblk list \<Rightarrow> bool" where
  "takes n bs p bs' \<longleftrightarrow> (\<exists>pre b post. bs = pre @ b # post \<and> (\<forall>x \<in> set pre. \<not> fits n x) \<and> fits n b \<and>
     bs' = pre @ carve n b @ post \<and> p = b_addr b + 12)"

lemma takes_Cons:
  "takes n (b # bs) p bs' \<longleftrightarrow>
    (if fits n b then bs' = carve n b @ bs \<and> p = b_addr b + 12
     else \<exists>cs. takes n bs p cs \<and> bs' = b # cs)"
proof (cases "fits n b")
  case True
  have "takes n (b # bs) p bs' \<longleftrightarrow> bs' = carve n b @ bs \<and> p = b_addr b + 12"
    unfolding takes_def
  proof
    assume "\<exists>pre c post. b # bs = pre @ c # post \<and> (\<forall>x \<in> set pre. \<not> fits n x) \<and> fits n c \<and>
        bs' = pre @ carve n c @ post \<and> p = b_addr c + 12"
    then obtain pre c post where "b # bs = pre @ c # post" "\<forall>x \<in> set pre. \<not> fits n x"
      "bs' = pre @ carve n c @ post" "p = b_addr c + 12" by blast
    then show "bs' = carve n b @ bs \<and> p = b_addr b + 12" using True by (cases pre) auto
  qed (use True in \<open>force intro: exI [where x = "[]"]\<close>)
  then show ?thesis using True by simp
next
  case False
  have "takes n (b # bs) p bs' \<longleftrightarrow> (\<exists>cs. takes n bs p cs \<and> bs' = b # cs)"
    unfolding takes_def
  proof
    assume "\<exists>pre c post. b # bs = pre @ c # post \<and> (\<forall>x \<in> set pre. \<not> fits n x) \<and> fits n c \<and>
        bs' = pre @ carve n c @ post \<and> p = b_addr c + 12"
    then obtain pre c post where r: "b # bs = pre @ c # post" "\<forall>x \<in> set pre. \<not> fits n x" "fits n c"
      "bs' = pre @ carve n c @ post" "p = b_addr c + 12" by blast
    then obtain pre' where "pre = b # pre'" using False by (cases pre) auto
    then show "\<exists>cs. (\<exists>pre c post. bs = pre @ c # post \<and> (\<forall>x \<in> set pre. \<not> fits n x) \<and> fits n c \<and>
        cs = pre @ carve n c @ post \<and> p = b_addr c + 12) \<and> bs' = b # cs" using r by auto
  next
    assume "\<exists>cs. (\<exists>pre c post. bs = pre @ c # post \<and> (\<forall>x \<in> set pre. \<not> fits n x) \<and> fits n c \<and>
        cs = pre @ carve n c @ post \<and> p = b_addr c + 12) \<and> bs' = b # cs"
    then obtain pre c post where r: "bs = pre @ c # post" "\<forall>x \<in> set pre. \<not> fits n x" "fits n c"
      "bs' = b # pre @ carve n c @ post" "p = b_addr c + 12" by blast
    then have "b # bs = (b # pre) @ c # post" "\<forall>x \<in> set (b # pre). \<not> fits n x"
      "bs' = (b # pre) @ carve n c @ post" using False by simp_all
    then show "\<exists>pre c post. b # bs = pre @ c # post \<and> (\<forall>x \<in> set pre. \<not> fits n x) \<and> fits n c \<and>
        bs' = pre @ carve n c @ post \<and> p = b_addr c + 12" using r(3,5) by blast
  qed
  then show ?thesis using False by simp
qed

lemma malloc_step:
  assumes "heap_inv s bs lost" "takes (unat sz) bs p bs'"
  obtains s' where "malloc sz s = Some (of_nat p, s')" "heap_inv s' bs' lost"
    "free_pages s' = free_pages s" "heap_start s' = heap_start s" "heap_end s' = heap_end s"
proof -
  obtain pre b post where t: "bs = pre @ b # post" "\<forall>x \<in> set pre. \<not> fits (unat sz) x" "fits (unat sz) b"
    "bs' = pre @ carve (unat sz) b @ post" "p = b_addr b + 12"
    using assms(2) unfolding takes_def by blast
  obtain m' where "malloc sz s = Some (of_nat (b_addr b + 12), s\<lparr>mem := m'\<rparr>)"
    "heap_inv (s\<lparr>mem := m'\<rparr>) (pre @ carve (unat sz) b @ post) lost"
    "free_pages (s\<lparr>mem := m'\<rparr>) = free_pages s"
    by (rule malloc_fit_inv [OF assms(1) [unfolded t(1)] t(2,3)])
  then show thesis by (intro that [of "s\<lparr>mem := m'\<rparr>"]) (simp_all only: t(4,5), simp_all)
qed

lemma free_step:
  assumes "heap_list s (pre @ b # post)" "p = b_addr b + 12" "p < 2 ^ 32"
    and "bs' = merge_free (pre @ freed b # post)"
  obtains s' where "free (of_nat p) s = Some s'" "heap_list s' bs'"
proof -
  have "unat (of_nat p :: u32) = b_addr b + 12" using assms(2,3) by (simp only: unat_of_nat32)
  from free_list [OF assms(1) this] that show thesis
    unfolding assms(4) by metis
qed

text \<open>
  Two blocks in the first page of the heap, and a third in a page added for it: the
  second block leaves the list.
\<close>

abbreviation blk :: "nat \<Rightarrow> nat \<Rightarrow> bool \<Rightarrow> hblk" where
  "blk a n u \<equiv> \<lparr>b_addr = a, b_size = n, b_used = u\<rparr>"

lemma two_blocks:
  assumes "pmm_inv s" "0 \<notin> free_pages s" "2 \<le> card (free_pages s)"
  obtains i s1 s2 where "malloc 100 (heap_init s) = Some (of_nat (i * 4096 + 12), s1)"
    "malloc 3900 s1 = Some (of_nat (i * 4096 + 124), s2)" "0 < i" "i < 2 ^ 20"
    "heap_inv s2 [blk (i * 4096) 100 True, blk (i * 4096 + 112) 3900 True, blk (i * 4096 + 4024) 60 False] []"
    "unat (heap_end s2) = i * 4096" "free_pages s2 \<noteq> {}"
proof -
  let ?i = "Min (free_pages s)"
  have ne: "free_pages s \<noteq> {}" using assms(3) by auto
  let ?s0 = "heap_init s"
  note init = heap_init_inv [OF assms(1,2) ne]
  have mem: "?i \<in> free_pages s" using ne by (intro Min_in) auto
  then have i: "0 < ?i" "?i < 2 ^ 20"
    using assms(2) free_pages_bound [OF assms(1)] by (metis neq0_conv, blast)
  have "card (free_pages ?s0) = card (free_pages s) - 1" using mem by (simp add: init(2))
  then have ne1: "free_pages ?s0 \<noteq> {}" using assms(3) by auto
  let ?A = "blk (?i * 4096) 100 True" and ?F = "blk (?i * 4096 + 112) 3972 False"
  let ?B = "blk (?i * 4096 + 112) 3900 True" and ?R = "blk (?i * 4096 + 4024) 60 False"
  have "takes (unat (100 :: u32)) [page_block ?i] (?i * 4096 + 12) [?A, ?F]"
    by (simp add: takes_Cons fits_def carve_def)
  from malloc_step [OF init(1) this] obtain s1 where s1: "malloc 100 ?s0 = Some (of_nat (?i * 4096 + 12), s1)"
    "heap_inv s1 [?A, ?F] []" "free_pages s1 = free_pages ?s0" "heap_start s1 = heap_start ?s0"
    "heap_end s1 = heap_end ?s0" by metis
  have "takes (unat (3900 :: u32)) [?A, ?F] (?i * 4096 + 124) [?A, ?B, ?R]"
    by (simp add: takes_Cons fits_def carve_def)
  from malloc_step [OF s1(2) this] obtain s2 where s2: "malloc 3900 s1 = Some (of_nat (?i * 4096 + 124), s2)"
    "heap_inv s2 [?A, ?B, ?R] []" "free_pages s2 = free_pages s1" "heap_start s2 = heap_start s1"
    "heap_end s2 = heap_end s1" by metis
  have "unat (heap_start s2) = ?i * 4096" using s2(2) by (simp add: heap_inv_def)
  then have he: "unat (heap_end s2) = ?i * 4096" using init(3) s1(4,5) s2(4,5) by simp
  have ne2: "free_pages s2 \<noteq> {}" using ne1 s1(3) s2(3) by simp
  show thesis by (rule that [OF s1(1) s2(1) i s2(2) he ne2])
qed

lemma third_block:
  assumes "heap_inv s [blk (i * 4096) 100 True, blk (i * 4096 + 112) 3900 True, blk (i * 4096 + 4024) 60 False] []"
    and "unat (heap_end s) = i * 4096" "free_pages s \<noteq> {}"
  obtains j t where "malloc 2000 s = Some (of_nat (j * 4096 + 12), t)" "0 < j" "j < 2 ^ 20"
    "heap_list t [blk (i * 4096) 100 True, blk (j * 4096) 2000 True, blk (j * 4096 + 2012) 2072 False]"
proof -
  let ?j = "Min (free_pages s)"
  let ?A = "blk (i * 4096) 100 True" and ?B = "blk (i * 4096 + 112) 3900 True" and ?R = "blk (i * 4096 + 4024) 60 False"
  let ?C = "blk (?j * 4096) 2000 True" and ?D = "blk (?j * 4096 + 2012) 2072 False"
  have inv: "heap_inv s ([] @ ?A # [?B, ?R]) []" and he: "b_addr ?A = unat (heap_end s)" using assms(1,2) by simp_all
  obtain g where g: "grow_heap (fst (pmm_alloc_page s)) (snd (pmm_alloc_page s)) = g"
    "fst (pmm_alloc_page s) \<noteq> 0" "heap_inv g ([] @ [?A, page_block ?j]) ([?B, ?R] @ [])"
    using grow_heap_inv [OF inv he assms(3)] by metis
  have "\<forall>b \<in> set [?A, ?B, ?R]. \<not> fits (unat (2000 :: u32)) b" by (simp add: fits_def)
  from malloc_no_fit(2) [OF assms(1) this g(2)] have grow: "malloc 2000 s = malloc 2000 g"
    using g(1) by simp
  have g3: "heap_inv g [?A, page_block ?j] [?B, ?R]" using g(3) by simp
  have "takes (unat (2000 :: u32)) [?A, page_block ?j] (?j * 4096 + 12) [?A, ?C, ?D]"
    by (simp add: takes_Cons fits_def carve_def)
  from malloc_step [OF g3 this] obtain t where t: "malloc 2000 g = Some (of_nat (?j * 4096 + 12), t)"
    "heap_inv t [?A, ?C, ?D] [?B, ?R]" by metis
  have "?j \<in> free_pages s" using assms(3) by (intro Min_in) auto
  moreover have "pmm_inv s" "0 \<notin> free_pages s" using assms(1) by (auto simp: heap_inv_def)
  ultimately have j: "0 < ?j" "?j < 2 ^ 20" using free_pages_bound by (metis neq0_conv, blast)
  show thesis by (rule that [OF grow [unfolded t(1)] j heap_inv_list [OF t(2)]])
qed

section \<open>Properties\<close>





text \<open>
  A heap of one region stays sound: while the heap has not grown (its list is
  contiguous, nothing has left it and \<open>heap_end\<close> is \<open>heap_start\<close>),
  \<open>free\<close> keeps the heap invariant and these conditions, and takes nothing from the
  page allocator.
\<close>

theorem free_keeps_region:
  assumes "heap_inv s (pre @ b # post) []" "contiguous (pre @ b # post)"
    and "heap_end s = heap_start s" "unat ptr = b_addr b + 12"
  shows "\<exists>s' bs'. free ptr s = Some s' \<and> heap_inv s' bs' [] \<and> contiguous bs' \<and>
    heap_end s' = heap_start s' \<and> free_pages s' = free_pages s \<and>
    filter b_used bs' = filter b_used (pre @ post)"
  using free_region [OF assms] merge_used [of "pre @ freed b # post"] by simp metis

theorem free_keeps_region_witness:
  "\<exists>s' bs'. free 4108 (heap_init before_heap) = Some s' \<and> heap_inv s' bs' []"
  using free_keeps_region [of "heap_init before_heap" "[]" "page_block 1" "[]" 4108] heap_init_before
  by auto

text \<open>
  C37 (a live block handed out twice): once the heap has grown, coalescing is wrong.
  On a fresh heap with one more frame free, allocate 100, 3900 and 2000 bytes, free
  the first and the third block and allocate 2000 bytes again: the merge has joined
  list neighbours that lie in different pages, and the new block overlaps the
  second one, which was never freed.
\<close>

theorem free_merges_over_live_block:
  assumes "pmm_inv s" "0 \<notin> free_pages s" "2 \<le> card (free_pages s)"
  shows "\<exists>a b c d s1 s2 s3 s4 s5 s6.
    malloc 100 (heap_init s) = Some (a, s1) \<and> malloc 3900 s1 = Some (b, s2) \<and> malloc 2000 s2 = Some (c, s3) \<and>
    free a s3 = Some s4 \<and> free c s4 = Some s5 \<and> malloc 2000 s5 = Some (d, s6) \<and>
    a \<noteq> 0 \<and> b \<noteq> 0 \<and> c \<noteq> 0 \<and> d \<noteq> 0 \<and> nspan (unat d) 2000 \<inter> nspan (unat b) 3900 \<noteq> {}"
proof -
  obtain i s1 s2 where s: "malloc 100 (heap_init s) = Some (of_nat (i * 4096 + 12), s1)"
    "malloc 3900 s1 = Some (of_nat (i * 4096 + 124), s2)" "0 < i" "i < 2 ^ 20"
    "heap_inv s2 [blk (i * 4096) 100 True, blk (i * 4096 + 112) 3900 True, blk (i * 4096 + 4024) 60 False] []"
    "unat (heap_end s2) = i * 4096" "free_pages s2 \<noteq> {}"
    by (rule two_blocks [OF assms])
  obtain j s3 where j: "malloc 2000 s2 = Some (of_nat (j * 4096 + 12), s3)" "0 < j" "j < 2 ^ 20"
    "heap_list s3 [blk (i * 4096) 100 True, blk (j * 4096) 2000 True, blk (j * 4096 + 2012) 2072 False]"
    by (rule third_block [OF s(5-7)])
  let ?A = "blk (i * 4096) 100 True" and ?C = "blk (j * 4096) 2000 True" and ?D = "blk (j * 4096 + 2012) 2072 False"
  have l3: "heap_list s3 ([] @ ?A # [?C, ?D])" using j(4) by simp
  obtain s4 where s4: "free (of_nat (i * 4096 + 12)) s3 = Some s4" "heap_list s4 [freed ?A, ?C, ?D]"
    using free_step [OF l3, of "i * 4096 + 12" "[freed ?A, ?C, ?D]"] s(4) by auto
  have l4: "heap_list s4 ([freed ?A] @ ?C # [?D])" using s4(2) by simp
  let ?M = "blk (i * 4096) 4196 False"
  obtain s5 where s5: "free (of_nat (j * 4096 + 12)) s4 = Some s5" "heap_list s5 [?M]"
    using free_step [OF l4, of "j * 4096 + 12" "[?M]"] j(3) by auto
  have hl: "heap_list s5 ([] @ ?M # [])" using s5(2) by simp
  obtain m6 where s6: "malloc 2000 s5 = Some (of_nat (b_addr ?M + 12), s5\<lparr>mem := m6\<rparr>)"
    by (rule malloc_fit [OF hl, of 2000]) (simp_all add: fits_def)
  let ?a = "of_nat (i * 4096 + 12) :: u32" and ?b = "of_nat (i * 4096 + 124) :: u32" and ?c = "of_nat (j * 4096 + 12) :: u32"
  have u: "unat ?a = i * 4096 + 12" "unat ?b = i * 4096 + 124" "unat ?c = j * 4096 + 12"
    using s(4) j(3) by (intro unat_of_nat32; simp)+
  have nz: "?a \<noteq> 0" "?b \<noteq> 0" "?c \<noteq> 0" using u by (metis add_is_0 unat_0 zero_neq_numeral)+
  have "?b \<in> nspan (unat ?a) 2000 \<inter> nspan (unat ?b) 3900" unfolding Int_iff nspan_iff u by simp
  then have over: "nspan (unat ?a) 2000 \<inter> nspan (unat ?b) 3900 \<noteq> {}" by blast
  have s6': "malloc 2000 s5 = Some (?a, s5\<lparr>mem := m6\<rparr>)" using s6 by (simp only: hblk.select_convs)
  show ?thesis using s(1,2) j(1) s4(1) s5(1) s6' nz over by blast
qed

theorem free_merges_over_live_block_witness:
  "\<exists>a b c d s1 s2 s3 s4 s5 s6. malloc 3900 s1 = Some (b, s2) \<and> malloc 2000 s2 = Some (c, s3) \<and>
    free a s3 = Some s4 \<and> free c s4 = Some s5 \<and>
    malloc 2000 s5 = Some (d, s6 :: heap_state) \<and> nspan (unat d) 2000 \<inter> nspan (unat b) 3900 \<noteq> {}"
proof -
  have "{1, 2} \<subseteq> free_pages before_heap" using before_heap_frames by auto
  then have "2 \<le> card (free_pages before_heap)" using card_mono [OF finite_free_pages, of "{1, 2}" before_heap] by simp
  from free_merges_over_live_block [OF before_heap_ok(1,2) this] show ?thesis by blast
qed

end
