(* ===== verification/Paging.thy ===== *)
theory Paging
  imports HeapFree
begin

text \<open>
  Virtual memory, \<open>memory/paging.c\<close>: page directories and page tables are
  words of physical memory, written as the code writes them.  \<open>mmu_walk\<close> is
  the processor's translation of an address through a directory; the facts say what
  each operation does to that translation.  The frames of the tables come from the
  page allocator through its contract.
\<close>

section \<open>State and operations\<close>

abbreviation (input) PAGE_PRESENT :: u32 where "PAGE_PRESENT \<equiv> 1"
abbreviation (input) PAGE_RW :: u32 where "PAGE_RW \<equiv> 2"
abbreviation (input) PAGE_USER :: u32 where "PAGE_USER \<equiv> 4"
abbreviation (input) PAGE_WRITE_THROUGH :: u32 where "PAGE_WRITE_THROUGH \<equiv> 8"
abbreviation (input) PAGE_ENTRIES :: nat where "PAGE_ENTRIES \<equiv> 1024"
abbreviation (input) KERNEL_PD_INDEX :: nat where "KERNEL_PD_INDEX \<equiv> 768"

record paging_state = heap_state +
  kernel_page_dir_phys :: u32
  kernel_page_dir :: u32

text \<open>The address of \<open>table[i]\<close> for a table of 32-bit entries.\<close>

definition slot :: "u32 \<Rightarrow> nat \<Rightarrow> u32" where
  "slot table i = table + 4 * of_nat i"

definition entry :: "memory \<Rightarrow> u32 \<Rightarrow> nat \<Rightarrow> u32" where
  "entry m table i = rd32 m (slot table i)"

definition set_entry :: "u32 \<Rightarrow> nat \<Rightarrow> u32 \<Rightarrow> memory \<Rightarrow> memory" where
  "set_entry table i v m = wr32 m (slot table i) v"

definition zero_table :: "u32 \<Rightarrow> memory \<Rightarrow> memory" where
  "zero_table table m = fold (\<lambda>i m. set_entry table i 0 m) [0..<PAGE_ENTRIES] m"

definition create_page_table :: "'a pmm_state_scheme \<Rightarrow> u32 \<times> 'a pmm_state_scheme" where
  "create_page_table s =
     (let (table, s) = pmm_alloc_page s in (table, s\<lparr>mem := zero_table table (mem s)\<rparr>))"

definition map_page :: "u32 \<Rightarrow> u32 \<Rightarrow> u32 \<Rightarrow> u32 \<Rightarrow> 'a pmm_state_scheme \<Rightarrow> 'a pmm_state_scheme" where
  "map_page pd virt phys flags s =
     (let pd_index = unat (drop_bit 22 virt);
          pt_index = unat (drop_bit 12 virt AND 0x3FF);
          s = (if entry (mem s) pd pd_index AND PAGE_PRESENT = 0 then
                 let (pt, s) = create_page_table s
                 in s\<lparr>mem := set_entry pd pd_index (pt OR PAGE_PRESENT OR PAGE_RW OR PAGE_USER) (mem s)\<rparr>
               else s);
          pt = entry (mem s) pd pd_index AND 0xFFFFF000
      in s\<lparr>mem := set_entry pt pt_index (phys OR (flags AND 0xFFF) OR PAGE_PRESENT) (mem s)\<rparr>)"

function map_region_loop ::
  "u32 \<Rightarrow> u32 \<Rightarrow> u32 \<Rightarrow> u32 \<Rightarrow> u32 \<Rightarrow> 'a pmm_state_scheme \<Rightarrow> 'a pmm_state_scheme" where
  "map_region_loop pd phys_aligned flags i pages s =
     (if i < pages then
        let addr = phys_aligned + i * PAGE_SIZE
        in map_region_loop pd phys_aligned flags (i + 1) pages (map_page pd addr addr flags s)
      else s)"
  by pat_completeness auto
termination
  by (relation "measure (\<lambda>(pd, a, f, i, n, s). unat n - unat i)") (auto simp: count_down)

declare map_region_loop.simps [simp del]

definition map_physical_region ::
  "u32 \<Rightarrow> u32 \<Rightarrow> u32 \<Rightarrow> u32 \<Rightarrow> 'a pmm_state_scheme \<Rightarrow> 'a pmm_state_scheme" where
  "map_physical_region pd phys_start sz flags s =
     (let phys_aligned = phys_start AND 0xFFFFF000;
          pages = (sz + PAGE_SIZE - 1) div PAGE_SIZE;
          pages = pages + ((phys_start - phys_aligned) + PAGE_SIZE - 1) div PAGE_SIZE
      in map_region_loop pd phys_aligned flags 0 pages s)"

text \<open>Reloading \<open>cr3\<close> with itself only drops cached translations.\<close>

definition map_framebuffer :: "u32 \<Rightarrow> u32 \<Rightarrow> 'a paging_state_scheme \<Rightarrow> 'a paging_state_scheme" where
  "map_framebuffer fb_addr fb_size s =
     (let flags = PAGE_RW OR PAGE_WRITE_THROUGH;
          s = map_physical_region (kernel_page_dir s) fb_addr fb_size flags s
      in s\<lparr>cr3 := cr3 s\<rparr>)"

function map_code_loop :: "u32 \<Rightarrow> u32 \<Rightarrow> u32 \<Rightarrow> u32 \<Rightarrow> 'a pmm_state_scheme \<Rightarrow> 'a pmm_state_scheme" where
  "map_code_loop pd code_addr i code_pages s =
     (if i < code_pages then
        let virt = code_addr + i * PAGE_SIZE;
            (phys, s1) = pmm_alloc_page s
        in map_code_loop pd code_addr (i + 1) code_pages (map_page pd virt phys (PAGE_RW OR PAGE_USER) s1)
      else s)"
  by pat_completeness auto
termination
  by (relation "measure (\<lambda>(pd, a, i, n, s). unat n - unat i)") (auto simp: count_down)

function map_stack_loop :: "u32 \<Rightarrow> u32 \<Rightarrow> u32 \<Rightarrow> u32 \<Rightarrow> 'a pmm_state_scheme \<Rightarrow> 'a pmm_state_scheme" where
  "map_stack_loop pd stack_addr i stack_pages s =
     (if i < stack_pages then
        let virt = stack_addr - (i + 1) * PAGE_SIZE;
            (phys, s1) = pmm_alloc_page s
        in map_stack_loop pd stack_addr (i + 1) stack_pages (map_page pd virt phys (PAGE_RW OR PAGE_USER) s1)
      else s)"
  by pat_completeness auto
termination
  by (relation "measure (\<lambda>(pd, a, i, n, s). unat n - unat i)") (auto simp: count_down)

declare map_code_loop.simps [simp del] map_stack_loop.simps [simp del]

definition map_user_space ::
  "u32 \<Rightarrow> u32 \<Rightarrow> u32 \<Rightarrow> u32 \<Rightarrow> u32 \<Rightarrow> 'a pmm_state_scheme \<Rightarrow> 'a pmm_state_scheme" where
  "map_user_space pd code_addr code_size stack_addr stack_size s =
     (let code_pages = (code_size + PAGE_SIZE - 1) div PAGE_SIZE;
          s = map_code_loop pd code_addr 0 code_pages s;
          stack_pages = (stack_size + PAGE_SIZE - 1) div PAGE_SIZE
      in map_stack_loop pd stack_addr 0 stack_pages s)"

definition clone_kernel_space :: "u32 \<Rightarrow> 'a paging_state_scheme \<Rightarrow> 'a paging_state_scheme" where
  "clone_kernel_space new_pd s =
     s\<lparr>mem := fold (\<lambda>i m. set_entry new_pd i (entry m (kernel_page_dir s) i) m)
        [KERNEL_PD_INDEX..<PAGE_ENTRIES] (mem s)\<rparr>"

definition copy_page :: "u32 \<Rightarrow> u32 \<Rightarrow> memory \<Rightarrow> memory" where
  "copy_page src dst m = fold (\<lambda>i m. m(dst + of_nat i := m (src + of_nat i))) [0..<4096] m"

definition copy_pte :: "u32 \<Rightarrow> u32 \<Rightarrow> nat \<Rightarrow> 'a pmm_state_scheme \<Rightarrow> 'a pmm_state_scheme" where
  "copy_pte src_pt dst_pt pt_i s =
     (if entry (mem s) src_pt pt_i AND PAGE_PRESENT = 0 then s
      else let src_page = entry (mem s) src_pt pt_i AND 0xFFFFF000;
               (dst_page, s) = pmm_alloc_page s;
               s = s\<lparr>mem := copy_page src_page dst_page (mem s)\<rparr>
           in s\<lparr>mem := set_entry dst_pt pt_i (dst_page OR PAGE_PRESENT OR PAGE_RW OR PAGE_USER) (mem s)\<rparr>)"

definition copy_pde :: "u32 \<Rightarrow> u32 \<Rightarrow> nat \<Rightarrow> 'a pmm_state_scheme \<Rightarrow> 'a pmm_state_scheme" where
  "copy_pde src_pd dst_pd pd_i s =
     (if entry (mem s) src_pd pd_i AND PAGE_PRESENT = 0 then s
      else let src_pt = entry (mem s) src_pd pd_i AND 0xFFFFF000;
               (dst_pt, s) = pmm_alloc_page s;
               s = s\<lparr>mem := memset (mem s) dst_pt 0 PAGE_SIZE\<rparr>;
               s = s\<lparr>mem := set_entry dst_pd pd_i (dst_pt OR PAGE_PRESENT OR PAGE_RW OR PAGE_USER) (mem s)\<rparr>
           in fold (copy_pte src_pt dst_pt) [0..<PAGE_ENTRIES] s)"

text \<open>The two page directories are the \<open>page_dir\<close> fields of the processes.\<close>

definition copy_addr_space :: "u32 \<Rightarrow> u32 \<Rightarrow> 'a pmm_state_scheme \<Rightarrow> 'a pmm_state_scheme" where
  "copy_addr_space src_pd dst_pd s = fold (copy_pde src_pd dst_pd) [0..<KERNEL_PD_INDEX] s"

text \<open>
  \<open>init_pages\<close> up to its console message; the message and the switch to the
  new directory follow in the theory of the console driver.
\<close>

definition init_page_tables :: "'a paging_state_scheme \<Rightarrow> 'a paging_state_scheme option" where
  "init_page_tables s =
     (let (dir, s) = pmm_alloc_page s;
          s = s\<lparr>kernel_page_dir_phys := dir\<rparr>;
          s = s\<lparr>kernel_page_dir := kernel_page_dir_phys s\<rparr>;
          s = s\<lparr>mem := zero_table (kernel_page_dir s) (mem s)\<rparr>
      in page_loop (\<lambda>addr s. map_page (kernel_page_dir s) addr addr PAGE_RW s) 0 0x800000 s)"

section \<open>The processor's translation\<close>

definition mmu_walk :: "memory \<Rightarrow> u32 \<Rightarrow> u32 \<Rightarrow> u32 option" where
  "mmu_walk m pd virt =
     (let pde = entry m pd (unat (drop_bit 22 virt))
      in if pde AND PAGE_PRESENT = 0 then None
         else let pte = entry m (pde AND 0xFFFFF000) (unat (drop_bit 12 virt AND 0x3FF))
              in if pte AND PAGE_PRESENT = 0 then None
                 else Some ((pte AND 0xFFFFF000) OR (virt AND 0xFFF)))"

section \<open>Entries of a table\<close>

text \<open>The frame an entry points to.\<close>

definition frame_of :: "u32 \<Rightarrow> nat" where
  "frame_of w = unat (drop_bit 12 w)"

lemma page_masks: "(0xFFFFF000 :: u32) = push_bit 12 (mask 20)" "(0xFFF :: u32) = mask 12"
  "(0x3FF :: u32) = mask 10"
  by (simp_all add: mask_eq_exp_minus_1 push_bit_eq_mult)

lemma frame_of_bound: "frame_of w < 2 ^ 20"
proof -
  have "unat w div 4096 < 2 ^ 20" using unat_bound32 [of w] by simp
  then show ?thesis by (simp add: frame_of_def drop_bit_eq_div unat_div)
qed

lemma page_addr_push: "of_nat (i * 4096) = (push_bit 12 (of_nat i) :: u32)"
  by (simp add: push_bit_eq_mult)

lemma frame_of_mask: "w AND 0xFFFFF000 = of_nat (frame_of w * 4096)"
proof -
  have "w AND 0xFFFFF000 = push_bit 12 (drop_bit 12 w)"
    unfolding page_masks by (rule bit_word_eqI) (auto simp: bit_simps)
  also have "\<dots> = of_nat (frame_of w * 4096)" unfolding page_addr_push by (simp add: frame_of_def)
  finally show ?thesis .
qed

lemma slot_unat:
  assumes "d < 2 ^ 20" "i < 1024"
  shows "unat (slot (of_nat (d * 4096)) i) = d * 4096 + 4 * i"
proof -
  have "slot (of_nat (d * 4096)) i = of_nat (d * 4096 + 4 * i)" by (simp add: slot_def)
  then show ?thesis using assms by (simp only:) (intro unat_of_nat32, simp)
qed

lemma slot_span:
  assumes "d < 2 ^ 20" "i < 1024"
  shows "span (slot (of_nat (d * 4096)) i) 4 = nspan (d * 4096 + 4 * i) 4"
proof -
  have "unat (slot (of_nat (d * 4096)) i) + 4 \<le> 2 ^ 32"
    using assms unfolding slot_unat [OF assms] by simp
  from span_nspan [OF this] show ?thesis by (simp only: slot_unat [OF assms])
qed

lemma slot_in_page: "d < 2 ^ 20 \<Longrightarrow> i < 1024 \<Longrightarrow> span (slot (of_nat (d * 4096)) i) 4 \<subseteq> page_span d"
  unfolding slot_span page_nspan by auto

lemma entry_set_same [simp]: "entry (set_entry table i v m) table i = v"
  by (simp add: entry_def set_entry_def)

lemma entry_set_other:
  assumes "d < 2 ^ 20" "e < 2 ^ 20" "i < 1024" "j < 1024" "d \<noteq> e \<or> i \<noteq> j"
  shows "entry (set_entry (of_nat (d * 4096)) i v m) (of_nat (e * 4096)) j = entry m (of_nat (e * 4096)) j"
proof -
  have "e * 4096 + 4 * j + 4 \<le> d * 4096 + 4 * i \<or> d * 4096 + 4 * i + 4 \<le> e * 4096 + 4 * j"
    using assms(3-5) by (cases "d < e"; cases "d = e"; cases "i < j") auto
  then have "nspan (e * 4096 + 4 * j) 4 \<inter> nspan (d * 4096 + 4 * i) 4 = {}"
    by auto
  then show ?thesis unfolding entry_def set_entry_def
    using assms by (intro rd32_wr32_disjoint) (simp add: slot_span del: of_nat_mult)
qed

lemma set_entry_only:
  "d < 2 ^ 20 \<Longrightarrow> i < 1024 \<Longrightarrow> only_changes (page_span d) m (set_entry (of_nat (d * 4096)) i v m)"
  unfolding set_entry_def by (intro only_changes_wr32 slot_in_page)

lemma entry_cong:
  assumes "d < 2 ^ 20" "i < 1024" "\<And>x. x \<in> page_span d \<Longrightarrow> m x = m' x"
  shows "entry m (of_nat (d * 4096)) i = entry m' (of_nat (d * 4096)) i"
  unfolding entry_def using slot_in_page [OF assms(1,2)] assms(3) by (intro rd32_cong) blast

lemma entry_only:
  assumes "d < 2 ^ 20" "i < 1024" "only_changes A m m'" "page_span d \<inter> A = {}"
  shows "entry m' (of_nat (d * 4096)) i = entry m (of_nat (d * 4096)) i"
  using assms(3,4) by (intro entry_cong assms(1,2)) (auto simp: only_changes_def)

lemma zero_table_entries:
  assumes "d < 2 ^ 20"
  shows "i < 1024 \<Longrightarrow> entry (zero_table (of_nat (d * 4096)) m) (of_nat (d * 4096)) i = 0"
    and "only_changes (page_span d) m (zero_table (of_nat (d * 4096)) m)"
proof -
  let ?t = "of_nat (d * 4096) :: u32"
  have "(\<forall>i < n. entry (fold (\<lambda>i m. set_entry ?t i 0 m) [0..<n] m) ?t i = 0) \<and>
      only_changes (page_span d) m (fold (\<lambda>i m. set_entry ?t i 0 m) [0..<n] m)" if "n \<le> 1024" for n
    using that
  proof (induction n)
    case (Suc n)
    let ?m = "fold (\<lambda>i m. set_entry ?t i 0 m) [0..<n] m"
    have IH: "\<forall>i < n. entry ?m ?t i = 0" "only_changes (page_span d) m ?m" using Suc by auto
    have "entry (set_entry ?t n 0 ?m) ?t i = 0" if "i < Suc n" for i
      using entry_set_other [OF assms assms, of n i] that IH(1) Suc.prems
      by (cases "i = n") (simp_all del: of_nat_mult)
    moreover have "only_changes (page_span d) m (set_entry ?t n 0 ?m)"
      using only_changes_trans [OF IH(2) set_entry_only [OF assms, of n]] Suc.prems by simp
    ultimately show ?case by simp
  qed simp
  from this [of 1024] show "i < 1024 \<Longrightarrow> entry (zero_table ?t m) ?t i = 0"
    "only_changes (page_span d) m (zero_table ?t m)"
    by (simp_all add: zero_table_def del: of_nat_mult)
qed

section \<open>Address spaces\<close>

abbreviation page_addr :: "nat \<Rightarrow> u32" where
  "page_addr d \<equiv> of_nat (d * 4096)"

abbreviation pdi :: "u32 \<Rightarrow> nat" where
  "pdi v \<equiv> unat (drop_bit 22 v)"

abbreviation pti :: "u32 \<Rightarrow> nat" where
  "pti v \<equiv> unat (drop_bit 12 v AND 0x3FF)"

definition present :: "memory \<Rightarrow> nat \<Rightarrow> nat \<Rightarrow> bool" where
  "present m d i \<longleftrightarrow> entry m (page_addr d) i AND PAGE_PRESENT \<noteq> 0"

definition table_of :: "memory \<Rightarrow> nat \<Rightarrow> nat \<Rightarrow> nat" where
  "table_of m d i = frame_of (entry m (page_addr d) i)"

lemma pdi_bound: "pdi v < 1024"
proof -
  have "unat v div 4194304 < 1024" using unat_bound32 [of v] by (simp add: less_mult_imp_div_less)
  then show ?thesis by (simp add: drop_bit_eq_div unat_div)
qed

lemma pti_bound: "pti v < 1024"
proof -
  have "drop_bit 12 v AND 0x3FF = take_bit 10 (drop_bit 12 v)"
    unfolding page_masks by (simp add: take_bit_eq_mask)
  then show ?thesis by (simp add: take_bit_eq_mod unat_mod)
qed

text \<open>The two indices identify the page.\<close>

lemma page_index: "drop_bit 12 v = drop_bit 12 w \<longleftrightarrow> pdi v = pdi w \<and> pti v = pti (w :: u32)"
proof
  assume *: "pdi v = pdi w \<and> pti v = pti w"
  then have 1: "drop_bit 22 v = drop_bit 22 w" and 2: "drop_bit 12 v AND 0x3FF = drop_bit 12 w AND 0x3FF"
    by (simp_all add: word_unat_eq_iff)
  show "drop_bit 12 v = drop_bit 12 w"
  proof (rule bit_word_eqI)
    fix n assume n: "n < LENGTH(32)"
    show "bit (drop_bit 12 v) n = bit (drop_bit 12 w) n"
    proof (cases "n < 10")
      case True
      have "bit (drop_bit 12 v AND 0x3FF) n = bit (drop_bit 12 w AND 0x3FF) n" using 2 by simp
      then show ?thesis using True n unfolding page_masks by (simp add: bit_simps)
    next
      case False
      have "bit (drop_bit 22 v) (n - 10) = bit (drop_bit 22 w) (n - 10)" using 1 by simp
      then show ?thesis using False by (simp add: bit_drop_bit_eq)
    qed
  qed
next
  assume "drop_bit 12 v = drop_bit 12 w"
  moreover have "drop_bit 22 x = drop_bit 10 (drop_bit 12 x)" for x :: u32
    by (rule bit_word_eqI) (simp add: bit_drop_bit_eq)
  ultimately show "pdi v = pdi w \<and> pti v = pti w" by metis
qed

lemma mmu_walk_tables:
  "mmu_walk m (page_addr d) v =
     (if \<not> present m d (pdi v) then None
      else let pte = entry m (page_addr (table_of m d (pdi v))) (pti v)
           in if pte AND PAGE_PRESENT = 0 then None else Some ((pte AND 0xFFFFF000) OR (v AND 0xFFF)))"
  by (simp add: mmu_walk_def present_def table_of_def frame_of_mask Let_def)

text \<open>
  The state of an address space whose directory is frame \<open>d\<close>: its tables are
  frames of their own, allocated, distinct and outside the allocator's bitmap.
\<close>

definition space_inv :: "'a pmm_state_scheme \<Rightarrow> nat \<Rightarrow> bool" where
  "space_inv s d \<longleftrightarrow> pmm_inv s \<and> d < 2 ^ 20 \<and> d \<notin> free_pages s \<and> page_span d \<inter> bitmap_region s = {} \<and>
     (\<forall>i < 1024. present (mem s) d i \<longrightarrow> table_of (mem s) d i \<notin> free_pages s \<and> table_of (mem s) d i \<noteq> d \<and>
        page_span (table_of (mem s) d i) \<inter> bitmap_region s = {}) \<and>
     (\<forall>i < 1024. \<forall>j < 1024. present (mem s) d i \<longrightarrow> present (mem s) d j \<longrightarrow>
        table_of (mem s) d i = table_of (mem s) d j \<longrightarrow> i = j)"

lemma table_bound: "table_of m d i < 2 ^ 20"
  by (simp only: table_of_def frame_of_bound)

lemma present_bit: "(w AND PAGE_PRESENT \<noteq> 0) = bit (w :: u32) 0"
  by (simp add: bit_iff_and_push_bit_not_eq_0)

lemma frame_of_page_addr:
  assumes "t < 2 ^ 20" "drop_bit 12 f = 0"
  shows "frame_of (page_addr t OR f) = t"
proof -
  have "frame_of (page_addr t OR f) = unat (drop_bit 12 (page_addr t))"
    using assms(2) by (simp add: frame_of_def del: of_nat_mult)
  also have "\<dots> = t" by (simp only: drop_bit_eq_div unat_div unat_page_addr [OF assms(1)]) simp
  finally show ?thesis .
qed

lemma pde_fields:
  assumes "t < 2 ^ 20"
  shows "bit (page_addr t OR PAGE_PRESENT OR PAGE_RW OR PAGE_USER) 0"
    and "frame_of (page_addr t OR PAGE_PRESENT OR PAGE_RW OR PAGE_USER) = t"
proof -
  have "drop_bit 12 (PAGE_PRESENT OR PAGE_RW OR PAGE_USER) = 0" by (simp add: drop_bit_eq_div)
  then show "frame_of (page_addr t OR PAGE_PRESENT OR PAGE_RW OR PAGE_USER) = t"
    using frame_of_page_addr [OF assms] by (simp only: or.assoc)
  show "bit (page_addr t OR PAGE_PRESENT OR PAGE_RW OR PAGE_USER) 0"
    by (simp add: bit_or_iff del: of_nat_mult)
qed

text \<open>The entry \<open>map_page\<close> stores, as the processor reads it.\<close>

lemma pte_fields:
  "bit (phys OR (flags AND 0xFFF) OR PAGE_PRESENT) 0"
  "(phys OR (flags AND 0xFFF) OR PAGE_PRESENT) AND 0xFFFFF000 = phys AND 0xFFFFF000"
proof -
  show "bit (phys OR (flags AND 0xFFF) OR PAGE_PRESENT) 0" by (simp add: bit_or_iff)
  show "(phys OR (flags AND 0xFFF) OR PAGE_PRESENT) AND 0xFFFFF000 = phys AND 0xFFFFF000"
    unfolding page_masks by (rule bit_word_eqI) (auto simp: bit_simps)
qed

section \<open>What \<open>map_page\<close> does\<close>

lemma space_invD:
  assumes "space_inv s d"
  shows "pmm_inv s" "d < 2 ^ 20" "d \<notin> free_pages s" "page_span d \<inter> bitmap_region s = {}"
    and "i < 1024 \<Longrightarrow> present (mem s) d i \<Longrightarrow> table_of (mem s) d i \<notin> free_pages s"
    and "i < 1024 \<Longrightarrow> present (mem s) d i \<Longrightarrow> table_of (mem s) d i \<noteq> d"
    and "i < 1024 \<Longrightarrow> present (mem s) d i \<Longrightarrow> page_span (table_of (mem s) d i) \<inter> bitmap_region s = {}"
    and "i < 1024 \<Longrightarrow> j < 1024 \<Longrightarrow> present (mem s) d i \<Longrightarrow> present (mem s) d j \<Longrightarrow>
      table_of (mem s) d i = table_of (mem s) d j \<Longrightarrow> i = j"
  using assms unfolding space_inv_def by blast+

text \<open>Writing an entry of one of the tables.\<close>

lemma set_pte:
  fixes v :: u32
  assumes "space_inv s d" "i < 1024" "present (mem s) d i" "j < 1024"
  defines "m' \<equiv> set_entry (page_addr (table_of (mem s) d i)) j v (mem s)"
  shows "only_changes (page_span (table_of (mem s) d i)) (mem s) m'"
    and "k < 1024 \<Longrightarrow> entry m' (page_addr d) k = entry (mem s) (page_addr d) k"
    and "space_inv (s\<lparr>mem := m'\<rparr>) d" "free_pages (s\<lparr>mem := m'\<rparr>) = free_pages s"
    and "k < 1024 \<Longrightarrow> n < 1024 \<Longrightarrow> present (mem s) d k \<Longrightarrow>
      entry m' (page_addr (table_of (mem s) d k)) n =
        (if k = i \<and> n = j then v else entry (mem s) (page_addr (table_of (mem s) d k)) n)"
proof -
  let ?t = "table_of (mem s) d i"
  note D = space_invD [OF assms(1)]
  have t: "?t < 2 ^ 20" "?t \<noteq> d" "page_span ?t \<inter> bitmap_region s = {}"
    using table_bound D(6,7) [OF assms(2,3)] by blast+
  show o: "only_changes (page_span ?t) (mem s) m'"
    unfolding m'_def by (rule set_entry_only [OF t(1) assms(4)])
  have pde: "entry m' (page_addr d) k = entry (mem s) (page_addr d) k" if "k < 1024" for k
    unfolding m'_def using entry_set_other [OF t(1) D(2) assms(4) that] t(2) by blast
  then show "k < 1024 \<Longrightarrow> entry m' (page_addr d) k = entry (mem s) (page_addr d) k" .
  have keep: "pmm_inv (s\<lparr>mem := m'\<rparr>)" "free_pages (s\<lparr>mem := m'\<rparr>) = free_pages s"
    using kernel_pages.write_keeps [OF D(1) o t(3)] by simp_all
  then show "free_pages (s\<lparr>mem := m'\<rparr>) = free_pages s" by simp
  have pt: "present m' d k = present (mem s) d k" "table_of m' d k = table_of (mem s) d k" if "k < 1024" for k
    using pde [OF that] by (simp_all add: present_def table_of_def del: of_nat_mult)
  show "space_inv (s\<lparr>mem := m'\<rparr>) d"
    using assms(1) keep pt unfolding space_inv_def by (simp del: of_nat_mult)
  show "entry m' (page_addr (table_of (mem s) d k)) n =
      (if k = i \<and> n = j then v else entry (mem s) (page_addr (table_of (mem s) d k)) n)"
    if "k < 1024" "n < 1024" "present (mem s) d k"
  proof (cases "k = i \<and> n = j")
    case True
    then show ?thesis by (simp add: m'_def del: of_nat_mult)
  next
    case False
    then have "table_of (mem s) d k \<noteq> ?t \<or> n \<noteq> j"
      using D(8) [OF that(1) assms(2) that(3) assms(3)] by blast
    then have "?t \<noteq> table_of (mem s) d k \<or> j \<noteq> n" by auto
    from entry_set_other [OF t(1) table_bound assms(4) that(2) this] show ?thesis
      unfolding m'_def using False by presburger
  qed
qed

text \<open>Entering a fresh, empty table into the directory.\<close>

text \<open>One more table, on a frame that was free, keeps the address space.\<close>

lemma space_inv_extend:
  assumes inv: "space_inv s d" and i: "i < 1024" and s': "pmm_inv s'"
    and fr: "free_pages s' \<subseteq> free_pages s" "bitmap_region s' = bitmap_region s"
    and rest: "\<And>k. k < 1024 \<Longrightarrow> k \<noteq> i \<Longrightarrow> entry (mem s') (page_addr d) k = entry (mem s) (page_addr d) k"
    and new: "table_of (mem s') d i \<in> free_pages s - free_pages s'" "page_span (table_of (mem s') d i) \<inter> bitmap_region s = {}"
  shows "space_inv s' d"
proof -
  note D = space_invD [OF inv]
  have old: "present (mem s') d k = present (mem s) d k" "table_of (mem s') d k = table_of (mem s) d k"
    if "k < 1024" "k \<noteq> i" for k
    using rest [OF that] by (simp_all add: present_def table_of_def del: of_nat_mult)
  have ne: "table_of (mem s) d k \<noteq> table_of (mem s') d i" if "k < 1024" "present (mem s) d k" for k
    using D(5) [OF that] new(1) by auto
  show ?thesis
    unfolding space_inv_def fr(2)
  proof (intro conjI allI impI)
    show "d \<notin> free_pages s'" using D(3) fr(1) by blast
    fix k assume k: "k < 1024" "present (mem s') d k"
    have ik: "k = i \<or> k \<noteq> i \<and> present (mem s) d k \<and> table_of (mem s') d k = table_of (mem s) d k" using k old by blast
    show "table_of (mem s') d k \<notin> free_pages s'" using ik new(1) D(5) k(1) fr(1) by auto
    show "table_of (mem s') d k \<noteq> d" using ik new(1) D(3,6) k(1) by auto
    show "page_span (table_of (mem s') d k) \<inter> bitmap_region s = {}" using ik new(2) D(7) [OF k(1)] by (elim disjE conjE) simp_all
    fix j assume j: "j < 1024" "present (mem s') d j" "table_of (mem s') d k = table_of (mem s') d j"
    show "k = j"
    proof (cases "k = i \<or> j = i")
      case True
      then show ?thesis using ik j old [OF j(1)] ne [OF j(1)] ne [OF k(1)] by metis
    next
      case False
      then show ?thesis using old [OF k(1)] old [OF j(1)] k j D(8) by simp
    qed
  qed (use s' D in simp_all)
qed

lemma add_table:
  assumes "space_inv s d" "i < 1024" "\<not> present (mem s) d i" "free_pages s \<noteq> {}"
  obtains m' where
    "(let (pt, s) = create_page_table s
      in s\<lparr>mem := set_entry (page_addr d) i (pt OR PAGE_PRESENT OR PAGE_RW OR PAGE_USER) (mem s)\<rparr>) = s\<lparr>mem := m'\<rparr>"
    "space_inv (s\<lparr>mem := m'\<rparr>) d" "free_pages (s\<lparr>mem := m'\<rparr>) = free_pages s - {Min (free_pages s)}"
    "only_changes (bitmap_region s \<union> page_span d \<union> page_span (Min (free_pages s))) (mem s) m'"
    "\<And>k. k < 1024 \<Longrightarrow> k \<noteq> i \<Longrightarrow> entry m' (page_addr d) k = entry (mem s) (page_addr d) k"
    "present m' d i" "table_of m' d i = Min (free_pages s)"
    "\<And>n. n < 1024 \<Longrightarrow> entry m' (page_addr (Min (free_pages s))) n = 0"
    "\<And>k n. k < 1024 \<Longrightarrow> n < 1024 \<Longrightarrow> present (mem s) d k \<Longrightarrow>
      entry m' (page_addr (table_of (mem s) d k)) n = entry (mem s) (page_addr (table_of (mem s) d k)) n"
proof -
  let ?t = "Min (free_pages s)"
  note D = space_invD [OF assms(1)]
  obtain m1 where m1: "pmm_alloc_page s = (page_addr ?t, s\<lparr>mem := m1\<rparr>)"
    "only_changes (bitmap_region s) (mem s) m1"
    "free_pages (s\<lparr>mem := m1\<rparr>) = free_pages s - {?t}" "pmm_inv (s\<lparr>mem := m1\<rparr>)"
    "?t \<in> free_pages s" "?t < 2 ^ 20" "page_span ?t \<inter> bitmap_region s = {}"
    using kernel_pages.alloc_frame [OF D(1) assms(4)] by metis
  have td: "?t \<noteq> d" using D(3) m1(5) by blast
  let ?m2 = "zero_table (page_addr ?t) m1"
  let ?e = "page_addr ?t OR PAGE_PRESENT OR PAGE_RW OR PAGE_USER"
  let ?m = "set_entry (page_addr d) i ?e ?m2"
  note z = zero_table_entries [OF m1(6)]
  have o2: "only_changes (bitmap_region s \<union> page_span ?t) (mem s) ?m2"
    by (rule only_changes_trans [OF m1(2) z(2)])
  have o3: "only_changes (page_span d) ?m2 ?m" by (rule set_entry_only [OF D(2) assms(2)])
  have step: "(let (pt, s) = create_page_table s
      in s\<lparr>mem := set_entry (page_addr d) i (pt OR PAGE_PRESENT OR PAGE_RW OR PAGE_USER) (mem s)\<rparr>) = s\<lparr>mem := ?m\<rparr>"
    using m1(1) by (simp add: create_page_table_def del: of_nat_mult)
  have "(page_span ?t \<union> page_span d) \<inter> bitmap_region (s\<lparr>mem := m1\<rparr>) = {}" using m1(7) D(4) by auto
  with kernel_pages.write_keeps [OF m1(4), of "page_span ?t \<union> page_span d" ?m]
    only_changes_trans [OF z(2) o3] m1(3)
  have keep: "pmm_inv (s\<lparr>mem := ?m\<rparr>)" "free_pages (s\<lparr>mem := ?m\<rparr>) = free_pages s - {?t}"
    by simp_all
  have dir2: "entry ?m2 (page_addr d) k = entry (mem s) (page_addr d) k" if "k < 1024" for k
    using D(4) page_span_disjoint [OF D(2) m1(6)] td
    by (intro entry_only [OF D(2) that o2]) blast
  have dir: "entry ?m (page_addr d) k = entry (mem s) (page_addr d) k" if "k < 1024" "k \<noteq> i" for k
    using entry_set_other [OF D(2) D(2) assms(2) that(1)] that dir2 by (metis (full_types))
  have ei: "entry ?m (page_addr d) i = ?e" by simp
  have pi: "present ?m d i" "table_of ?m d i = ?t"
    unfolding present_def table_of_def ei by (simp_all only: present_bit pde_fields [OF m1(6)])
  have fresh: "entry ?m (page_addr ?t) n = 0" if "n < 1024" for n
    using entry_set_other [OF D(2) m1(6) assms(2) that] td z(1) [OF that] by metis
  have tabs: "entry ?m (page_addr (table_of (mem s) d k)) n = entry (mem s) (page_addr (table_of (mem s) d k)) n"
    if "k < 1024" "n < 1024" "present (mem s) d k" for k n
  proof -
    let ?u = "table_of (mem s) d k"
    have u: "?u < 2 ^ 20" "?u \<noteq> d" "?u \<noteq> ?t" "page_span ?u \<inter> bitmap_region s = {}"
      using table_bound D(5,6,7) [OF that(1,3)] m1(5) by auto
    have "page_span ?u \<inter> (bitmap_region s \<union> page_span ?t \<union> page_span d) = {}"
      using u page_span_disjoint [OF u(1) m1(6)] page_span_disjoint [OF u(1) D(2)] by blast
    then show ?thesis by (intro entry_only [OF u(1) that(2) only_changes_trans [OF o2 o3]]) simp
  qed
  have "space_inv (s\<lparr>mem := ?m\<rparr>) d"
    by (rule space_inv_extend [OF assms(1,2) keep(1)]) (use keep(2) dir pi(2) m1(5,7) in simp_all)
  moreover have "only_changes (bitmap_region s \<union> page_span d \<union> page_span ?t) (mem s) ?m"
    by (rule only_changes_mono [OF only_changes_trans [OF o2 o3]]) blast
  ultimately show thesis using that [OF step] keep(2) dir pi fresh tabs by blast
qed

text \<open>A table entry of an address space, and the translation in terms of it.\<close>

definition pte_at :: "memory \<Rightarrow> nat \<Rightarrow> nat \<Rightarrow> nat \<Rightarrow> u32" where
  "pte_at m d i n = entry m (page_addr (table_of m d i)) n"

lemma mmu_walk_pte:
  "mmu_walk m (page_addr d) v =
     (if present m d (pdi v) \<and> bit (pte_at m d (pdi v) (pti v)) 0
      then Some ((pte_at m d (pdi v) (pti v) AND 0xFFFFF000) OR (v AND 0xFFF)) else None)"
  using present_bit [of "pte_at m d (pdi v) (pti v)"]
  by (auto simp: mmu_walk_tables pte_at_def Let_def simp del: of_nat_mult)

text \<open>The first half of \<open>map_page\<close>: a table for the directory entry.\<close>

lemma ensure_table:
  assumes "space_inv s d" "i < 1024" "present (mem s) d i \<or> free_pages s \<noteq> {}"
  obtains m1 where
    "(if entry (mem s) (page_addr d) i AND PAGE_PRESENT = 0 then
        (let (pt, s) = create_page_table s
         in s\<lparr>mem := set_entry (page_addr d) i (pt OR PAGE_PRESENT OR PAGE_RW OR PAGE_USER) (mem s)\<rparr>)
      else s) = s\<lparr>mem := m1\<rparr>"
    "space_inv (s\<lparr>mem := m1\<rparr>) d"
    "free_pages (s\<lparr>mem := m1\<rparr>) = (if present (mem s) d i then free_pages s else free_pages s - {Min (free_pages s)})"
    "\<And>k. k < 1024 \<Longrightarrow> present m1 d k \<longleftrightarrow> k = i \<or> present (mem s) d k"
    "\<And>k n. k < 1024 \<Longrightarrow> n < 1024 \<Longrightarrow> present (mem s) d k \<Longrightarrow> pte_at m1 d k n = pte_at (mem s) d k n"
    "\<And>n. \<not> present (mem s) d i \<Longrightarrow> n < 1024 \<Longrightarrow> pte_at m1 d i n = 0"
    "only_changes (bitmap_region s \<union> page_span d \<union> page_span (table_of m1 d i)) (mem s) m1"
    "\<And>k. k < 1024 \<Longrightarrow> k \<noteq> i \<Longrightarrow> entry m1 (page_addr d) k = entry (mem s) (page_addr d) k"
    "table_of m1 d i = (if present (mem s) d i then table_of (mem s) d i else Min (free_pages s))"
proof (cases "present (mem s) d i")
  case True
  then show thesis
    by (intro that [of "mem s"]) (use True assms(1,2) in \<open>auto simp: present_def\<close>)
next
  case False
  have ne: "free_pages s \<noteq> {}" using False assms(3) by blast
  obtain m1 where a: "(let (pt, s) = create_page_table s
      in s\<lparr>mem := set_entry (page_addr d) i (pt OR PAGE_PRESENT OR PAGE_RW OR PAGE_USER) (mem s)\<rparr>) = s\<lparr>mem := m1\<rparr>"
    "space_inv (s\<lparr>mem := m1\<rparr>) d" "free_pages (s\<lparr>mem := m1\<rparr>) = free_pages s - {Min (free_pages s)}"
    "only_changes (bitmap_region s \<union> page_span d \<union> page_span (Min (free_pages s))) (mem s) m1"
    "\<And>k. k < 1024 \<Longrightarrow> k \<noteq> i \<Longrightarrow> entry m1 (page_addr d) k = entry (mem s) (page_addr d) k"
    "present m1 d i" "table_of m1 d i = Min (free_pages s)"
    "\<And>n. n < 1024 \<Longrightarrow> entry m1 (page_addr (Min (free_pages s))) n = 0"
    "\<And>k n. k < 1024 \<Longrightarrow> n < 1024 \<Longrightarrow> present (mem s) d k \<Longrightarrow>
      entry m1 (page_addr (table_of (mem s) d k)) n = entry (mem s) (page_addr (table_of (mem s) d k)) n"
    by (rule add_table [OF assms(1,2) False ne], rule that, assumption+)
  have tab: "table_of m1 d k = table_of (mem s) d k" "present m1 d k = present (mem s) d k"
    if "k < 1024" "k \<noteq> i" for k using a(5) [OF that] by (simp_all add: table_of_def present_def del: of_nat_mult)
  show thesis
  proof (rule that [of m1])
    show "(if entry (mem s) (page_addr d) i AND PAGE_PRESENT = 0 then
        (let (pt, s) = create_page_table s
         in s\<lparr>mem := set_entry (page_addr d) i (pt OR PAGE_PRESENT OR PAGE_RW OR PAGE_USER) (mem s)\<rparr>)
      else s) = s\<lparr>mem := m1\<rparr>"
      using False a(1) by (simp add: present_def del: of_nat_mult)
    show "pte_at m1 d k n = pte_at (mem s) d k n" if "k < 1024" "n < 1024" "present (mem s) d k" for k n
    proof -
      have "k \<noteq> i" using that(3) False by blast
      then show ?thesis using a(9) [OF that] tab(1) [OF that(1)] by (simp add: pte_at_def del: of_nat_mult)
    qed
    show "present m1 d k \<longleftrightarrow> k = i \<or> present (mem s) d k" if "k < 1024" for k
      using a(6) tab(2) [OF that] by (cases "k = i") auto
  qed (use False a tab in \<open>auto simp: pte_at_def simp del: of_nat_mult\<close>)
qed

text \<open>The second half: one entry of the table set.\<close>

lemma walk_after_map:
  assumes dir: "present m2 d (pdi v) \<longleftrightarrow> pdi v = pdi virt \<or> present m d (pdi v)"
    and tab: "present m2 d (pdi v) \<Longrightarrow> pte_at m2 d (pdi v) (pti v) =
      (if pdi v = pdi virt \<and> pti v = pti virt then phys OR (flags AND 0xFFF) OR PAGE_PRESENT
       else if present m d (pdi v) then pte_at m d (pdi v) (pti v) else 0)"
  shows "mmu_walk m2 (page_addr d) v =
    (if drop_bit 12 v = drop_bit 12 virt then Some ((phys AND 0xFFFFF000) OR (v AND 0xFFF)) else mmu_walk m (page_addr d) v)"
proof (cases "drop_bit 12 v = drop_bit 12 virt")
  case True
  then have "pdi v = pdi virt" "pti v = pti virt" using page_index by blast+
  then show ?thesis using True dir tab by (simp add: mmu_walk_pte pte_fields del: of_nat_mult)
next
  case False
  then have "\<not> (pdi v = pdi virt \<and> pti v = pti virt)" using page_index by blast
  then show ?thesis using False dir tab by (auto simp: mmu_walk_pte simp del: of_nat_mult)
qed

lemma map_page_result:
  assumes "space_inv s d" "present (mem s) d (pdi virt) \<or> free_pages s \<noteq> {}"
  obtains m' where "map_page (page_addr d) virt phys flags s = s\<lparr>mem := m'\<rparr>"
    "space_inv (s\<lparr>mem := m'\<rparr>) d"
    "free_pages (s\<lparr>mem := m'\<rparr>) =
       (if present (mem s) d (pdi virt) then free_pages s else free_pages s - {Min (free_pages s)})"
    "\<And>i. i < 1024 \<Longrightarrow> present m' d i \<longleftrightarrow> i = pdi virt \<or> present (mem s) d i"
    "\<And>v. mmu_walk m' (page_addr d) v =
       (if drop_bit 12 v = drop_bit 12 virt then Some ((phys AND 0xFFFFF000) OR (v AND 0xFFF))
        else mmu_walk (mem s) (page_addr d) v)"
    "only_changes (bitmap_region s \<union> page_span d \<union> page_span (table_of m' d (pdi virt))) (mem s) m'"
    "table_of m' d (pdi virt) =
       (if present (mem s) d (pdi virt) then table_of (mem s) d (pdi virt) else Min (free_pages s))"
    "\<And>i. i < 1024 \<Longrightarrow> i \<noteq> pdi virt \<Longrightarrow> entry m' (page_addr d) i = entry (mem s) (page_addr d) i"
proof -
  let ?i = "pdi virt" and ?j = "pti virt"
  let ?e = "phys OR (flags AND 0xFFF) OR PAGE_PRESENT"
  have ij: "?i < 1024" "?j < 1024" by (rule pdi_bound pti_bound)+
  note D = space_invD [OF assms(1)]
  obtain m1 where m1: "(if entry (mem s) (page_addr d) ?i AND PAGE_PRESENT = 0 then
        (let (pt, s) = create_page_table s
         in s\<lparr>mem := set_entry (page_addr d) ?i (pt OR PAGE_PRESENT OR PAGE_RW OR PAGE_USER) (mem s)\<rparr>)
      else s) = s\<lparr>mem := m1\<rparr>"
    and inv1: "space_inv (s\<lparr>mem := m1\<rparr>) d"
    and fr1: "free_pages (s\<lparr>mem := m1\<rparr>) = (if present (mem s) d ?i then free_pages s else free_pages s - {Min (free_pages s)})"
    and pr1: "\<And>i. i < 1024 \<Longrightarrow> present m1 d i \<longleftrightarrow> i = ?i \<or> present (mem s) d i"
    and old1: "\<And>k n. k < 1024 \<Longrightarrow> n < 1024 \<Longrightarrow> present (mem s) d k \<Longrightarrow> pte_at m1 d k n = pte_at (mem s) d k n"
    and new1: "\<And>n. \<not> present (mem s) d ?i \<Longrightarrow> n < 1024 \<Longrightarrow> pte_at m1 d ?i n = 0"
    and oc1: "only_changes (bitmap_region s \<union> page_span d \<union> page_span (table_of m1 d ?i)) (mem s) m1"
    and en1: "\<And>k. k < 1024 \<Longrightarrow> k \<noteq> ?i \<Longrightarrow> entry m1 (page_addr d) k = entry (mem s) (page_addr d) k"
    and tb1: "table_of m1 d ?i = (if present (mem s) d ?i then table_of (mem s) d ?i else Min (free_pages s))"
    by (rule ensure_table [OF assms(1) ij(1) assms(2)], rule that, assumption+)
  let ?s1 = "s\<lparr>mem := m1\<rparr>"
  have p1: "present (mem ?s1) d ?i" using pr1 ij by simp
  define m2 where "m2 = set_entry (page_addr (table_of m1 d ?i)) ?j ?e m1"
  have m2: "m2 = set_entry (page_addr (table_of (mem ?s1) d ?i)) ?j ?e (mem ?s1)" by (simp add: m2_def)
  note sp = set_pte [OF inv1 ij(1) p1 ij(2), where v = ?e, folded m2]
  have step: "map_page (page_addr d) virt phys flags s = s\<lparr>mem := m2\<rparr>"
    unfolding map_page_def Let_def m1 [unfolded Let_def]
    by (simp add: frame_of_mask m2_def table_of_def del: of_nat_mult)
  have pr2: "present m2 d i \<longleftrightarrow> i = ?i \<or> present (mem s) d i" and tab2: "table_of m2 d i = table_of m1 d i"
    if "i < 1024" for i
    using sp(2) [OF that] pr1 [OF that] by (simp_all add: present_def table_of_def del: of_nat_mult)
  have pte2: "pte_at m2 d k n = (if k = ?i \<and> n = ?j then ?e else if present (mem s) d k then pte_at (mem s) d k n else 0)"
    if "k < 1024" "n < 1024" "present m2 d k" for k n
  proof -
    have "present m1 d k" using that pr1 pr2 by simp
    then have "pte_at m2 d k n = (if k = ?i \<and> n = ?j then ?e else pte_at m1 d k n)"
      using sp(5) [OF that(1,2)] tab2 [OF that(1)] by (simp add: pte_at_def del: of_nat_mult)
    then show ?thesis using old1 [OF that(1,2)] new1 [OF _ that(2)] pr2 [OF that(1)] that(3) by auto
  qed
  note walk = walk_after_map [OF pr2 [OF pdi_bound] pte2 [OF pdi_bound pti_bound]]
  have "only_changes (bitmap_region s \<union> page_span d \<union> page_span (table_of m2 d ?i)) (mem s) m2"
  proof (rule only_changes_mono)
    have "only_changes (page_span (table_of m1 d ?i)) m1 m2" using sp(1) by simp
    then show "only_changes ((bitmap_region s \<union> page_span d \<union> page_span (table_of m1 d ?i)) \<union>
        page_span (table_of m1 d ?i)) (mem s) m2" by (rule only_changes_trans [OF oc1])
  qed (use tab2 [OF ij(1)] in simp)
  then show thesis using step walk pr2 sp(2,3,4) fr1 tb1 tab2 [OF ij(1)] en1
    by (intro that [of m2]) simp_all
qed

section \<open>Identity mappings\<close>

text \<open>Only memory changes.\<close>

lemma map_page_mem: "\<exists>m'. map_page pd virt phys flags s = s\<lparr>mem := m'\<rparr>"
  by (auto simp: map_page_def create_page_table_def pmm_alloc_page_spec Let_def split: if_splits)

lemma identity_phys:
  assumes "drop_bit 12 v = drop_bit 12 (a :: u32)"
  shows "(a AND 0xFFFFF000) OR (v AND 0xFFF) = v"
proof (rule bit_word_eqI)
  fix n assume n: "n < LENGTH(32)"
  have "bit v n = bit a n" if "12 \<le> n"
  proof -
    have "bit (drop_bit 12 v) (n - 12) = bit (drop_bit 12 a) (n - 12)" using assms by simp
    then show ?thesis using that by (simp add: bit_drop_bit_eq)
  qed
  then show "bit ((a AND 0xFFFFF000) OR (v AND 0xFFF)) n = bit v n"
    using n unfolding page_masks by (cases "12 \<le> n") (auto simp: bit_simps)
qed

text \<open>The directory entries a list of addresses still needs.\<close>

definition missing :: "memory \<Rightarrow> nat \<Rightarrow> u32 list \<Rightarrow> nat set" where
  "missing m d as = {i \<in> pdi ` set as. \<not> present m d i}"

lemma finite_missing [simp]: "finite (missing m d as)"
  by (simp add: missing_def)

text \<open>One page mapped to itself, with the frames and the missing tables counted.\<close>

lemma map_identity_step:
  assumes inv: "space_inv s d" and room: "card (missing (mem s) d (a # as)) \<le> card (free_pages s)"
  obtains m1 where "map_page (page_addr d) a a flags s = s\<lparr>mem := m1\<rparr>" "space_inv (s\<lparr>mem := m1\<rparr>) d"
    "free_pages (s\<lparr>mem := m1\<rparr>) \<subseteq> free_pages s"
    "card (free_pages (s\<lparr>mem := m1\<rparr>)) + card (missing (mem s) d (a # as)) = card (free_pages s) + card (missing m1 d as)"
    "\<And>v. mmu_walk m1 (page_addr d) v =
       (if drop_bit 12 v = drop_bit 12 a then Some v else mmu_walk (mem s) (page_addr d) v)"
proof -
  let ?M = "missing (mem s) d (a # as)"
  have some: "present (mem s) d (pdi a) \<or> free_pages s \<noteq> {}"
  proof (cases "present (mem s) d (pdi a)")
    case False
    then have "pdi a \<in> ?M" by (simp add: missing_def)
    then have "0 < card ?M" by (metis card_gt_0_iff empty_iff finite_missing)
    then show ?thesis using room by auto
  qed simp
  obtain m1 where m1: "map_page (page_addr d) a a flags s = s\<lparr>mem := m1\<rparr>" "space_inv (s\<lparr>mem := m1\<rparr>) d"
    "free_pages (s\<lparr>mem := m1\<rparr>) = (if present (mem s) d (pdi a) then free_pages s else free_pages s - {Min (free_pages s)})"
    "\<And>i. i < 1024 \<Longrightarrow> present m1 d i \<longleftrightarrow> i = pdi a \<or> present (mem s) d i"
    "\<And>v. mmu_walk m1 (page_addr d) v =
     (if drop_bit 12 v = drop_bit 12 a then Some ((a AND 0xFFFFF000) OR (v AND 0xFFF))
      else mmu_walk (mem s) (page_addr d) v)"
    by (rule map_page_result [OF inv some, of a flags], rule that, assumption+)
  have miss: "missing m1 d as = ?M - {pdi a}" using m1(4) pdi_bound by (auto simp: missing_def)
  have "card (free_pages (s\<lparr>mem := m1\<rparr>)) + card ?M = card (free_pages s) + card (missing m1 d as)"
  proof (cases "present (mem s) d (pdi a)")
    case True
    then have "pdi a \<notin> ?M" by (simp add: missing_def)
    then show ?thesis using True miss m1(3) by simp
  next
    case False
    then have "pdi a \<in> ?M" by (simp add: missing_def)
    then have "card ?M = Suc (card (missing m1 d as))" unfolding miss by (metis card_Suc_Diff1 finite_missing)
    moreover have "Min (free_pages s) \<in> free_pages s" using False some by (intro Min_in) auto
    then have "card (free_pages s) = Suc (card (free_pages (s\<lparr>mem := m1\<rparr>)))"
      unfolding m1(3) if_not_P [OF False] by (rule card_Suc_Diff1 [OF finite_free_pages, symmetric])
    ultimately show ?thesis by simp
  qed
  moreover have "mmu_walk m1 (page_addr d) v =
      (if drop_bit 12 v = drop_bit 12 a then Some v else mmu_walk (mem s) (page_addr d) v)" for v
    using identity_phys [of v a] unfolding m1(5) by simp
  moreover have "free_pages (s\<lparr>mem := m1\<rparr>) \<subseteq> free_pages s" using m1(3) by auto
  ultimately show thesis using that [OF m1(1,2)] by blast
qed

lemma map_identity_fold:
  assumes "space_inv s d" "card (missing (mem s) d as) \<le> card (free_pages s)"
  shows "\<exists>m'. fold (\<lambda>a s. map_page (page_addr d) a a flags s) as s = s\<lparr>mem := m'\<rparr> \<and>
    space_inv (s\<lparr>mem := m'\<rparr>) d \<and>
    card (free_pages (s\<lparr>mem := m'\<rparr>)) + card (missing (mem s) d as) = card (free_pages s) \<and>
    free_pages (s\<lparr>mem := m'\<rparr>) \<subseteq> free_pages s \<and>
    (\<forall>v. mmu_walk m' (page_addr d) v =
       (if drop_bit 12 v \<in> drop_bit 12 ` set as then Some v else mmu_walk (mem s) (page_addr d) v))"
  using assms
proof (induction as arbitrary: s)
  case Nil
  then show ?case by (intro exI [of _ "mem s"]) (simp add: missing_def del: of_nat_mult)
next
  case (Cons a as)
  obtain m1 where m1: "map_page (page_addr d) a a flags s = s\<lparr>mem := m1\<rparr>" "space_inv (s\<lparr>mem := m1\<rparr>) d"
    "free_pages (s\<lparr>mem := m1\<rparr>) \<subseteq> free_pages s"
    "card (free_pages (s\<lparr>mem := m1\<rparr>)) + card (missing (mem s) d (a # as)) = card (free_pages s) + card (missing m1 d as)"
    "\<And>v. mmu_walk m1 (page_addr d) v =
       (if drop_bit 12 v = drop_bit 12 a then Some v else mmu_walk (mem s) (page_addr d) v)"
    by (rule map_identity_step [OF Cons.prems, of flags], rule that, assumption+)
  have "card (missing (mem (s\<lparr>mem := m1\<rparr>)) d as) \<le> card (free_pages (s\<lparr>mem := m1\<rparr>))" using Cons.prems(2) m1(4) by simp
  note IH = Cons.IH [OF m1(2) this]
  have r: "mem (s\<lparr>mem := m1\<rparr>) = m1" "\<And>m'. s\<lparr>mem := m1\<rparr>\<lparr>mem := m'\<rparr> = s\<lparr>mem := m'\<rparr>" by simp_all
  obtain m' where m': "fold (\<lambda>a s. map_page (page_addr d) a a flags s) as (s\<lparr>mem := m1\<rparr>) = s\<lparr>mem := m'\<rparr>"
    "space_inv (s\<lparr>mem := m'\<rparr>) d"
    "card (free_pages (s\<lparr>mem := m'\<rparr>)) + card (missing m1 d as) = card (free_pages (s\<lparr>mem := m1\<rparr>))"
    "free_pages (s\<lparr>mem := m'\<rparr>) \<subseteq> free_pages (s\<lparr>mem := m1\<rparr>)"
    "\<And>v. mmu_walk m' (page_addr d) v =
     (if drop_bit 12 v \<in> drop_bit 12 ` set as then Some v else mmu_walk m1 (page_addr d) v)"
    using IH unfolding r by blast
  have "mmu_walk m' (page_addr d) v =
     (if drop_bit 12 v \<in> drop_bit 12 ` set (a # as) then Some v else mmu_walk (mem s) (page_addr d) v)" for v
    unfolding m'(5) m1(5) by simp
  moreover have "free_pages (s\<lparr>mem := m'\<rparr>) \<subseteq> free_pages s" using m'(4) m1(3) by blast
  ultimately show ?case using m' m1(1,4) by (intro exI [of _ m']) (simp del: of_nat_mult)
qed

lemma map_identity_result:
  assumes "space_inv s d" "card (missing (mem s) d as) \<le> card (free_pages s)"
  obtains m' where "fold (\<lambda>a s. map_page (page_addr d) a a flags s) as s = s\<lparr>mem := m'\<rparr>"
    "space_inv (s\<lparr>mem := m'\<rparr>) d"
    "card (free_pages (s\<lparr>mem := m'\<rparr>)) + card (missing (mem s) d as) = card (free_pages s)"
    "free_pages (s\<lparr>mem := m'\<rparr>) \<subseteq> free_pages s"
    "\<And>v. mmu_walk m' (page_addr d) v =
       (if drop_bit 12 v \<in> drop_bit 12 ` set as then Some v else mmu_walk (mem s) (page_addr d) v)"
  using map_identity_fold [OF assms, of flags] by blast

text \<open>The addresses \<open>map_physical_region\<close> visits.\<close>

lemma map_region_loop_fold:
  "map_region_loop pd a flags i pages s =
     fold (\<lambda>x s. map_page pd x x flags s) (map (\<lambda>k. a + of_nat k * 4096) [unat i..<unat pages]) s"
proof (induction pd a flags i pages s rule: map_region_loop.induct)
  case (1 pd a flags i pages s)
  show ?case
  proof (cases "i < pages")
    case True
    then have "[unat i..<unat pages] = unat i # [unat (i + 1)..<unat pages]"
      by (simp add: unat_inc upt_conv_Cons word_less_nat_alt)
    then show ?thesis using "1.IH" [OF True refl] True
      by (subst map_region_loop.simps) (simp add: Let_def)
  next
    case False
    then show ?thesis by (subst map_region_loop.simps) (simp add: word_less_nat_alt)
  qed
qed

lemma drop12_unat: "drop_bit 12 v = drop_bit 12 (x :: u32) \<longleftrightarrow> unat v div 4096 = unat x div 4096"
  by (simp add: word_unat_eq_iff drop_bit_eq_div unat_div)

lemma pdi_div: "pdi v = unat v div 4194304"
  by (simp add: drop_bit_eq_div unat_div)

text \<open>The pages of a range of addresses that starts at a page boundary.\<close>

lemma page_seq_pages:
  assumes "unat a mod 4096 = 0" "unat e mod 4096 = 0" "unat e + 4095 < 2 ^ 32"
  shows "drop_bit 12 v \<in> drop_bit 12 ` set (page_seq a e) \<longleftrightarrow> unat a \<le> unat v \<and> unat v < unat e"
proof
  assume "drop_bit 12 v \<in> drop_bit 12 ` set (page_seq a e)"
  then obtain x where x: "x \<in> set (page_seq a e)" "drop_bit 12 v = drop_bit 12 x" by blast
  then obtain i where i: "unat x = unat a + 4096 * i" "unat x < unat e"
    using set_page_seq [OF x(1) assms(3)] by blast
  have "4096 dvd unat a" "4096 dvd unat e" using assms(1,2) by (simp_all add: dvd_eq_mod_eq_0)
  then obtain A E where ae: "unat a = 4096 * A" "unat e = 4096 * E" by (auto elim!: dvdE)
  have xq: "unat x = 4096 * (A + i)" using i(1) ae(1) by simp
  have "unat v div 4096 = unat x div 4096" using x(2) drop12_unat by blast
  then have "unat v div 4096 = A + i" unfolding xq by simp
  then obtain r where v: "unat v = 4096 * (A + i) + r" "r < 4096"
    by (metis mult_div_mod_eq mod_less_divisor zero_less_numeral)
  have "A + i + 1 \<le> E" using i(2) xq ae(2) by simp
  then have "4096 * (A + i + 1) \<le> 4096 * E" by (rule mult_le_mono2)
  then show "unat a \<le> unat v \<and> unat v < unat e" using v ae by simp
next
  assume v: "unat a \<le> unat v \<and> unat v < unat e"
  let ?i = "unat v div 4096 - unat a div 4096"
  let ?x = "of_nat (unat a + 4096 * ?i) :: u32"
  have a: "unat a = 4096 * (unat a div 4096)" using assms(1) by auto
  have le: "unat a div 4096 \<le> unat v div 4096" using v by (simp add: div_le_mono)
  then have sum: "unat a + 4096 * ?i = 4096 * (unat v div 4096)" using a by (simp add: diff_mult_distrib2)
  have lt: "4096 * (unat v div 4096) < unat e" using v by (metis le_less_trans times_div_less_eq_dividend)
  then have x: "unat ?x = unat a + 4096 * ?i"
    using unat_bound32 [of e] sum by (intro unat_of_nat32) simp
  have "?x \<in> set (page_seq a e)" by (rule page_seqI [OF x]) (use lt x sum in simp)
  moreover have "drop_bit 12 v = drop_bit 12 ?x"
  proof -
    have "unat ?x = 4096 * (unat v div 4096)" by (rule trans [OF x sum])
    then have "unat ?x div 4096 = unat v div 4096" by (metis nonzero_mult_div_cancel_left zero_neq_numeral)
    then show ?thesis unfolding drop12_unat by (rule sym)
  qed
  ultimately show "drop_bit 12 v \<in> drop_bit 12 ` set (page_seq a e)" by blast
qed

text \<open>The kernel's own directory: the first 8 MiB, mapped to themselves.\<close>

lemma identity_tables: "pdi ` set (page_seq 0 0x800000) = {0, 1}"
proof
  show "pdi ` set (page_seq 0 0x800000) \<subseteq> {0, 1}"
  proof
    fix i assume "i \<in> pdi ` set (page_seq 0 0x800000)"
    then obtain x where x: "x \<in> set (page_seq 0 0x800000)" "i = pdi x" by blast
    have "unat x < 0x800000" using set_page_seq [OF x(1)] by auto
    then show "i \<in> {0, 1}" using x(2) unfolding pdi_div by auto
  qed
  have "0 \<in> set (page_seq 0 0x800000)" by (rule page_seqI [of _ 0 0]) simp_all
  moreover have "0x400000 \<in> set (page_seq 0 0x800000)" by (rule page_seqI [of _ 0 1024]) simp_all
  ultimately show "{0, 1} \<subseteq> pdi ` set (page_seq 0 0x800000)" by (force simp: pdi_div)
qed

text \<open>The kernel's directory as it is before the first mapping: allocated and empty.\<close>

lemma empty_directory:
  fixes s :: "'a paging_state_scheme"
  assumes "pmm_inv s" "free_pages s \<noteq> {}"
  defines "d \<equiv> Min (free_pages s)"
  obtains m2 t where "t = s\<lparr>mem := m2, kernel_page_dir_phys := page_addr d, kernel_page_dir := page_addr d\<rparr>"
    "init_page_tables s = page_loop (\<lambda>addr s. map_page (kernel_page_dir s) addr addr PAGE_RW s) 0 0x800000 t"
    "space_inv t d" "free_pages t = free_pages s - {d}" "card (free_pages t) + 1 = card (free_pages s)"
    "\<And>i. i < 1024 \<Longrightarrow> \<not> present (mem t) d i"
proof -
  obtain m1 where m1: "pmm_alloc_page s = (page_addr d, s\<lparr>mem := m1\<rparr>)"
    "free_pages (s\<lparr>mem := m1\<rparr>) = free_pages s - {d}" "pmm_inv (s\<lparr>mem := m1\<rparr>)"
    "d \<in> free_pages s" "d < 2 ^ 20" "page_span d \<inter> bitmap_region s = {}"
    using kernel_pages.alloc_frame [OF assms(1,2)] unfolding d_def by metis
  let ?m2 = "zero_table (page_addr d) m1"
  note z = zero_table_entries [OF m1(5), where m = m1]
  let ?t = "s\<lparr>mem := ?m2, kernel_page_dir_phys := page_addr d, kernel_page_dir := page_addr d\<rparr>"
  have fields: "free_pages (u\<lparr>kernel_page_dir_phys := p, kernel_page_dir := q\<rparr>) = free_pages u"
    "pmm_inv (u\<lparr>kernel_page_dir_phys := p, kernel_page_dir := q\<rparr>) = pmm_inv u"
    "bitmap_region (u\<lparr>kernel_page_dir_phys := p, kernel_page_dir := q\<rparr>) = bitmap_region u"
    for u :: "'a paging_state_scheme" and p q
    by (simp_all add: free_pages_def pmm_inv_def bitmap_region_def)
  have dis: "page_span d \<inter> bitmap_region (s\<lparr>mem := m1\<rparr>) = {}" using m1(6) by simp
  have keep: "pmm_inv (s\<lparr>mem := ?m2\<rparr>)" "free_pages (s\<lparr>mem := ?m2\<rparr>) = free_pages s - {d}"
    using kernel_pages.write_keeps [OF m1(3), of "page_span d" ?m2] z(2) dis m1(2) by simp_all
  have none: "\<not> present ?m2 d i" if "i < 1024" for i
    using z(1) [OF that] by (simp add: present_def del: of_nat_mult)
  have inv: "space_inv ?t d"
    unfolding space_inv_def fields using keep m1(5,6) none by (simp del: of_nat_mult)
  have cf: "card (free_pages ?t) + 1 = card (free_pages s)"
    using keep(2) m1(4) card_Suc_Diff1 [of "free_pages s" d] by (simp add: fields)
  have cm: "u\<lparr>kernel_page_dir_phys := p, kernel_page_dir := q, mem := m\<rparr> =
      u\<lparr>mem := m, kernel_page_dir_phys := p, kernel_page_dir := q\<rparr>"
    for u :: "'a paging_state_scheme" and p q m by (cases u) simp
  have "init_page_tables s = page_loop (\<lambda>addr s. map_page (kernel_page_dir s) addr addr PAGE_RW s) 0 0x800000
      (s\<lparr>kernel_page_dir_phys := page_addr d, kernel_page_dir := page_addr d, mem := ?m2\<rparr>)"
    unfolding init_page_tables_def m1(1) by (simp add: Let_def del: of_nat_mult)
  then show thesis
    unfolding cm by (rule that [OF refl]) (use inv cf keep(2) none in \<open>simp_all add: fields\<close>)
qed

lemma map_kernel_dir_fold:
  fixes u :: "'a paging_state_scheme"
  assumes "kernel_page_dir u = pd"
  shows "fold (\<lambda>a s. map_page (kernel_page_dir s) a a PAGE_RW s) as u = fold (\<lambda>a s. map_page pd a a PAGE_RW s) as u"
  using assms
proof (induction as arbitrary: u)
  case (Cons a as)
  obtain m where "map_page pd a a PAGE_RW u = u\<lparr>mem := m\<rparr>" using map_page_mem by blast
  then show ?case using Cons by simp
qed simp

lemma init_page_tables_result:
  assumes "pmm_inv s" "3 \<le> card (free_pages s)"
  obtains s' where "init_page_tables s = Some s'"
    "kernel_page_dir s' = page_addr (Min (free_pages s))" "kernel_page_dir_phys s' = kernel_page_dir s'"
    "space_inv s' (Min (free_pages s))" "free_pages s' \<subseteq> free_pages s - {Min (free_pages s)}"
    "card (free_pages s') + 3 = card (free_pages s)"
    "\<And>v. mmu_walk (mem s') (kernel_page_dir s') v = (if unat v < 0x800000 then Some v else None)"
    "\<exists>m' p. s' = s\<lparr>mem := m', kernel_page_dir_phys := p, kernel_page_dir := p\<rparr>"
proof -
  let ?d = "Min (free_pages s)" and ?as = "page_seq 0 0x800000"
  have ne: "free_pages s \<noteq> {}" using assms(2) by auto
  obtain m2 t where t: "t = s\<lparr>mem := m2, kernel_page_dir_phys := page_addr ?d, kernel_page_dir := page_addr ?d\<rparr>"
    "init_page_tables s = page_loop (\<lambda>addr s. map_page (kernel_page_dir s) addr addr PAGE_RW s) 0 0x800000 t"
    "space_inv t ?d" "free_pages t = free_pages s - {?d}" "card (free_pages t) + 1 = card (free_pages s)"
    "\<And>i. i < 1024 \<Longrightarrow> \<not> present (mem t) ?d i"
    by (rule empty_directory [OF assms(1) ne], rule that, assumption+)
  have miss: "missing (mem t) ?d ?as = {0, 1}"
    unfolding missing_def identity_tables using t(6) [of 0] t(6) [of 1] by auto
  then have room: "card (missing (mem t) ?d ?as) \<le> card (free_pages t)" using t(5) assms(2) by simp
  obtain m' where m': "fold (\<lambda>a s. map_page (page_addr ?d) a a PAGE_RW s) ?as t = t\<lparr>mem := m'\<rparr>"
    "space_inv (t\<lparr>mem := m'\<rparr>) ?d"
    "card (free_pages (t\<lparr>mem := m'\<rparr>)) + card (missing (mem t) ?d ?as) = card (free_pages t)"
    "free_pages (t\<lparr>mem := m'\<rparr>) \<subseteq> free_pages t"
    "\<And>v. mmu_walk m' (page_addr ?d) v =
       (if drop_bit 12 v \<in> drop_bit 12 ` set ?as then Some v else mmu_walk (mem t) (page_addr ?d) v)"
    by (rule map_identity_result [OF t(3) room, of PAGE_RW], rule that, assumption+)
  have kd: "kernel_page_dir t = page_addr ?d" unfolding t(1) by simp
  have "init_page_tables s = Some (fold (\<lambda>a s. map_page (kernel_page_dir s) a a PAGE_RW s) ?as t)"
    unfolding t(2) by (rule page_loop_fold) simp
  then have run: "init_page_tables s = Some (t\<lparr>mem := m'\<rparr>)"
    unfolding map_kernel_dir_fold [OF kd] m'(1) .
  have walk: "mmu_walk m' (page_addr ?d) v = (if unat v < 0x800000 then Some v else None)" for v
    using m'(5) [of v] page_seq_pages [of 0 "0x800000" v] t(6) [OF pdi_bound] by (simp add: mmu_walk_pte del: of_nat_mult)
  show thesis
  proof (rule that [OF run])
    show "card (free_pages (t\<lparr>mem := m'\<rparr>)) + 3 = card (free_pages s)" using m'(3) t(5) unfolding miss by simp
    show "free_pages (t\<lparr>mem := m'\<rparr>) \<subseteq> free_pages s - {?d}" using m'(4) t(4) by simp
    show "\<exists>m p. t\<lparr>mem := m'\<rparr> = s\<lparr>mem := m, kernel_page_dir_phys := p, kernel_page_dir := p\<rparr>"
      unfolding t(1) by (intro exI [of _ m'] exI [of _ "page_addr ?d"]) simp
  qed (use m'(2) kd walk in \<open>simp_all add: t(1) del: of_nat_mult\<close>)
qed

section \<open>Copies\<close>

lemma copy_page_bytes:
  assumes "a < 2 ^ 20" "b < 2 ^ 20" "a \<noteq> b"
  shows "\<forall>i < 4096. copy_page (page_addr a) (page_addr b) m (page_addr b + of_nat i) = m (page_addr a + of_nat i)"
    and "only_changes (page_span b) m (copy_page (page_addr a) (page_addr b) m)"
proof -
  let ?f = "\<lambda>i m. m(page_addr b + of_nat i := m (page_addr a + of_nat i) :: u8)"
  have in_page: "page_addr c + of_nat i \<in> page_span c" if "i < 4096" for c i
    unfolding page_span_def using that by (intro in_span_offset) simp_all
  have inj: "page_addr b + of_nat i = page_addr b + of_nat j \<longleftrightarrow> i = j" if "i < 4096" "j < 4096" for i j
  proof -
    have "unat (of_nat i :: u32) = i" "unat (of_nat j :: u32) = j" using that by (auto intro: unat_of_nat32)
    then have "(of_nat i :: u32) = of_nat j \<longleftrightarrow> i = j" by (metis)
    then show ?thesis by (simp del: of_nat_mult)
  qed
  have "(\<forall>i < n. fold ?f [0..<n] m (page_addr b + of_nat i) = m (page_addr a + of_nat i)) \<and>
      only_changes (page_span b) m (fold ?f [0..<n] m)" if "n \<le> 4096" for n
    using that
  proof (induction n)
    case (Suc n)
    let ?m = "fold ?f [0..<n] m"
    have IH: "\<forall>i < n. ?m (page_addr b + of_nat i) = m (page_addr a + of_nat i)"
      "only_changes (page_span b) m ?m" using Suc by (auto simp del: fun_upd_apply of_nat_mult)
    have n: "n < 4096" using Suc.prems by simp
    have "page_addr a + of_nat n \<notin> page_span b"
      using in_page [OF n, of a] page_span_disjoint [OF assms] by blast
    then have src: "?m (page_addr a + of_nat n) = m (page_addr a + of_nat n)" by (rule only_changesD [OF IH(2)])
    have "(?f n ?m) (page_addr b + of_nat i) = m (page_addr a + of_nat i)" if "i < Suc n" for i
      using inj [of i n] n that IH(1) src by (cases "i = n") (simp_all del: of_nat_mult)
    moreover have u: "only_changes (page_span b) ?m (?f n ?m)"
      by (rule only_changes_upd [OF in_page [OF n]])
    have "only_changes (page_span b) m (?f n ?m)"
      using only_changes_trans [OF IH(2) u] by (simp only: Un_absorb)
    ultimately show ?case by (simp del: of_nat_mult fun_upd_apply)
  qed simp
  from this [of 4096] show
    "\<forall>i < 4096. copy_page (page_addr a) (page_addr b) m (page_addr b + of_nat i) = m (page_addr a + of_nat i)"
    "only_changes (page_span b) m (copy_page (page_addr a) (page_addr b) m)"
    by (simp_all add: copy_page_def del: of_nat_mult upt_rec_numeral upt.simps)
qed

lemma clone_entries:
  assumes "d < 2 ^ 20" "e < 2 ^ 20" "d \<noteq> e"
  defines "f \<equiv> \<lambda>i m. set_entry (page_addr e) i (entry m (page_addr d) i) m"
  shows "n \<le> 1024 \<Longrightarrow> k \<le> n \<Longrightarrow>
    (\<forall>i < 1024. entry (fold f [k..<n] m) (page_addr e) i =
       (if k \<le> i \<and> i < n then entry m (page_addr d) i else entry m (page_addr e) i)) \<and>
    only_changes (page_span e) m (fold f [k..<n] m)"
proof (induction n)
  case (Suc n)
  show ?case
  proof (cases "k = Suc n")
    case False
    let ?m = "fold f [k..<n] m"
    have kn: "k \<le> n" "n < 1024" using False Suc.prems by simp_all
    have IH: "\<forall>i < 1024. entry ?m (page_addr e) i =
       (if k \<le> i \<and> i < n then entry m (page_addr d) i else entry m (page_addr e) i)"
      "only_changes (page_span e) m ?m" using Suc.IH kn by simp_all
    have src: "entry ?m (page_addr d) n = entry m (page_addr d) n"
      by (rule entry_only [OF assms(1) kn(2) IH(2) page_span_disjoint [OF assms(1-3)]])
    have "entry (f n ?m) (page_addr e) i =
       (if k \<le> i \<and> i < Suc n then entry m (page_addr d) i else entry m (page_addr e) i)" if "i < 1024" for i
    proof (cases "i = n")
      case True
      then show ?thesis using kn(1) src by (simp add: f_def del: of_nat_mult)
    next
      case False
      then have "entry (f n ?m) (page_addr e) i = entry ?m (page_addr e) i"
        unfolding f_def by (intro entry_set_other [OF assms(2,2) kn(2) that]) simp
      then show ?thesis using IH(1) that False by auto
    qed
    moreover have "only_changes (page_span e) m (f n ?m)"
      using only_changes_trans [OF IH(2) set_entry_only [OF assms(2) kn(2)]] by (simp add: f_def)
    ultimately show ?thesis using kn(1) by simp
  next
    case True
    have "\<not> (k \<le> i \<and> i < Suc n)" for i using True by simp
    moreover have "[k..<Suc n] = []" using True by simp
    ultimately show ?thesis by (auto simp del: of_nat_mult upt_Suc)
  qed
qed simp

text \<open>The pages \<open>map_physical_region\<close> maps: how many, and that they cover the region.\<close>

abbreviation region_base :: "u32 \<Rightarrow> u32" where
  "region_base start \<equiv> start AND 0xFFFFF000"

abbreviation region_count :: "u32 \<Rightarrow> u32 \<Rightarrow> u32" where
  "region_count start sz \<equiv>
     (sz + PAGE_SIZE - 1) div PAGE_SIZE + ((start - region_base start) + PAGE_SIZE - 1) div PAGE_SIZE"

abbreviation region_pages :: "u32 \<Rightarrow> u32 \<Rightarrow> u32 list" where
  "region_pages start sz \<equiv> map (\<lambda>k. region_base start + of_nat k * 4096) [0..<unat (region_count start sz)]"

lemma region_base: "unat (region_base start) = unat start div 4096 * 4096"
proof -
  have "frame_of start = unat start div 4096" by (simp add: frame_of_def drop_bit_eq_div unat_div)
  then show ?thesis unfolding frame_of_mask by (subst unat_page_addr [OF frame_of_bound]) simp
qed

lemma region_count:
  assumes "unat start + unat sz + 8192 \<le> 2 ^ 32"
  shows "unat (region_count start sz) = (unat sz + 4095) div 4096 + (unat start mod 4096 + 4095) div 4096"
proof -
  let ?r = "unat start mod 4096"
  have r: "unat start = unat (region_base start) + ?r" unfolding region_base by (metis div_mult_mod_eq)
  then have "region_base start \<le> start" by (simp add: word_le_nat_alt)
  then have "unat (start - region_base start) = ?r" using r by (simp add: unat_sub)
  moreover have "?r < 4096" by simp
  ultimately have "unat (sz + PAGE_SIZE - 1) = unat sz + 4095" "unat (start - region_base start + PAGE_SIZE - 1) = ?r + 4095"
    using assms by (simp_all add: unat_word_ariths)
  then have "unat ((sz + PAGE_SIZE - 1) div PAGE_SIZE) = (unat sz + 4095) div 4096"
    "unat ((start - region_base start + PAGE_SIZE - 1) div PAGE_SIZE) = (?r + 4095) div 4096"
    by (simp_all add: unat_div)
  moreover have "(unat sz + 4095) div 4096 + (?r + 4095) div 4096 < 2 ^ 32"
    using assms mod_less_divisor [of 4096 "unat start"] by linarith
  ultimately show ?thesis by (simp add: unat_word_ariths)
qed

lemma region_cover:
  assumes "unat start + unat sz + 8192 \<le> 2 ^ 32" "unat start \<le> unat v" "unat v < unat start + unat sz"
  shows "drop_bit 12 v \<in> drop_bit 12 ` set (region_pages start sz)"
proof -
  let ?a = "region_base start" and ?r = "unat start mod 4096" and ?n = "region_count start sz"
  let ?k = "(unat v - unat ?a) div 4096"
  let ?x = "?a + of_nat ?k * 4096"
  have r: "unat start = unat ?a + ?r" "?r < 4096" unfolding region_base by (metis div_mult_mod_eq, simp)
  have av: "unat ?a \<le> unat v" using assms(2) r(1) by linarith
  have "unat v - unat ?a < unat sz + ?r" using assms(2,3) r(1) by linarith
  also have "unat sz + ?r \<le> 4096 * unat ?n" unfolding region_count [OF assms(1)] using r(2) by simp
  finally have kn: "?k < unat ?n" by (simp add: less_mult_imp_div_less mult.commute)
  have x: "unat ?x = unat ?a + 4096 * ?k"
  proof -
    have "?x = of_nat (unat ?a + 4096 * ?k)" by simp
    moreover have "unat ?a + 4096 * ?k < 2 ^ 32"
      using av unat_bound32 [of v] times_div_less_eq_dividend [of 4096 "unat v - unat ?a"] by simp
    ultimately show ?thesis by (metis unat_of_nat32)
  qed
  obtain A where A: "unat ?a = 4096 * A" unfolding region_base by (metis mult.commute)
  have "unat v = 4096 * A + (unat v - unat ?a)" using av A by simp
  then have "unat v div 4096 = A + ?k" by (metis div_mult_self4 zero_neq_numeral)
  moreover have "unat ?x div 4096 = A + ?k"
  proof -
    have "unat ?x div 4096 = (unat ?a + 4096 * ?k) div 4096" by (simp only: x)
    also have "\<dots> = A + ?k" unfolding A by simp
    finally show ?thesis .
  qed
  ultimately have "drop_bit 12 v = drop_bit 12 ?x" unfolding drop12_unat by simp
  moreover have "?x \<in> set (region_pages start sz)" using kn by auto
  ultimately show ?thesis by (rule image_eqI)
qed

section \<open>Boot state\<close>

definition paging0 :: "heap_state \<Rightarrow> paging_state" where
  "paging0 h = heap_state.extend h (paging_state.fields 0 0)"

lemma paging0_simps [simp]:
  "free_pages (paging0 h) = free_pages h" "pmm_inv (paging0 h) = pmm_inv h"
  "bitmap_region (paging0 h) = bitmap_region h" "mem (paging0 h) = mem h"
  by (simp_all add: paging0_def heap_state.defs paging_state.defs free_pages_def pmm_inv_def bitmap_region_def)

definition before_paging :: paging_state where
  "before_paging = paging0 (heap0 booted_pmm)"

lemma before_paging_ok: "pmm_inv before_paging" "Min (free_pages before_paging) = 0"
  "3 \<le> card (free_pages before_paging)" "i < 159 \<Longrightarrow> i \<in> free_pages before_paging"
proof -
  show "pmm_inv before_paging" "Min (free_pages before_paging) = 0"
    by (simp_all add: before_paging_def booted_pmm_free(1) booted_pmm_Min)
  show "i < 159 \<Longrightarrow> i \<in> free_pages before_paging"
    by (simp add: before_paging_def booted_pmm_low)
  have "{0..<3} \<subseteq> free_pages booted_pmm" using booted_pmm_low by auto
  then show "3 \<le> card (free_pages before_paging)"
    using card_mono [OF finite_free_pages, of "{0..<3}" booted_pmm] by (simp add: before_paging_def)
qed

text \<open>The 128 MiB machine with the kernel's directory in place.\<close>

definition paged :: paging_state where
  "paged = the (init_page_tables before_paging)"

lemma paged_ok:
  "space_inv paged 0" "kernel_page_dir paged = 0" "mmu_walk (mem paged) 0 v = (if unat v < 0x800000 then Some v else None)"
  "card (free_pages paged) + 3 = card (free_pages before_paging)" "free_pages paged \<subseteq> free_pages before_paging - {0}"
proof -
  obtain s' where s': "init_page_tables before_paging = Some s'"
    "kernel_page_dir s' = page_addr (Min (free_pages before_paging))"
    "space_inv s' (Min (free_pages before_paging))"
    "free_pages s' \<subseteq> free_pages before_paging - {Min (free_pages before_paging)}"
    "card (free_pages s') + 3 = card (free_pages before_paging)"
    "\<And>v. mmu_walk (mem s') (kernel_page_dir s') v = (if unat v < 0x800000 then Some v else None)"
    by (rule init_page_tables_result [OF before_paging_ok(1,3)]) blast
  then show "space_inv paged 0" "kernel_page_dir paged = 0"
    "mmu_walk (mem paged) 0 v = (if unat v < 0x800000 then Some v else None)"
    "card (free_pages paged) + 3 = card (free_pages before_paging)" "free_pages paged \<subseteq> free_pages before_paging - {0}"
    by (simp_all add: paged_def before_paging_ok(2))
qed

lemma paged_free: "100 \<le> card (free_pages paged)"
proof -
  have "{0..<159} \<subseteq> free_pages before_paging" using before_paging_ok(4) by auto
  then have "159 \<le> card (free_pages before_paging)"
    using card_mono [OF finite_free_pages, of "{0..<159}" before_paging] by simp
  then show ?thesis using paged_ok(4) by simp
qed

section \<open>Properties\<close>

text \<open>
  C8 (mapping a page): in a well-formed address space, with a table present or a
  frame free for one, \<open>map_page\<close> makes the processor translate every address of
  the page to the frame asked for, leaves the translation of every other address as
  it was, keeps the address space well formed, and takes a frame exactly when a
  table is missing.
\<close>

theorem map_page_translates:
  assumes "space_inv s d" "present (mem s) d (unat (drop_bit 22 virt)) \<or> free_pages s \<noteq> {}"
  shows "\<exists>s'. map_page (page_addr d) virt phys flags s = s' \<and> space_inv s' d \<and>
    free_pages s' = (if present (mem s) d (unat (drop_bit 22 virt)) then free_pages s
      else free_pages s - {Min (free_pages s)}) \<and>
    (\<forall>v. mmu_walk (mem s') (page_addr d) v =
       (if drop_bit 12 v = drop_bit 12 virt then Some ((phys AND 0xFFFFF000) OR (v AND 0xFFF))
        else mmu_walk (mem s) (page_addr d) v))"
proof -
  obtain m' where "map_page (page_addr d) virt phys flags s = s\<lparr>mem := m'\<rparr>" "space_inv (s\<lparr>mem := m'\<rparr>) d"
    "free_pages (s\<lparr>mem := m'\<rparr>) =
       (if present (mem s) d (pdi virt) then free_pages s else free_pages s - {Min (free_pages s)})"
    "\<And>v. mmu_walk m' (page_addr d) v =
       (if drop_bit 12 v = drop_bit 12 virt then Some ((phys AND 0xFFFFF000) OR (v AND 0xFFF))
        else mmu_walk (mem s) (page_addr d) v)"
    by (rule map_page_result [OF assms, of phys flags], rule that, assumption+)
  then show ?thesis by (intro exI [of _ "s\<lparr>mem := m'\<rparr>"] conjI) (simp_all del: of_nat_mult)
qed

theorem map_page_translates_witness:
  "\<exists>s'. map_page 0 0xBFF000 0x123000 7 paged = s' \<and>
    mmu_walk (mem s') 0 0xBFF010 = Some 0x123010 \<and> mmu_walk (mem s') 0 0x5000 = Some 0x5000"
proof -
  have "free_pages paged \<noteq> {}" using paged_free by auto
  then show ?thesis
    using map_page_translates [OF paged_ok(1), of "0xBFF000" "0x123000" 7] paged_ok(3)
    by (auto simp: drop_bit_eq_div)
qed

text \<open>
  C17 (the kernel's directory): given three free frames, \<open>init_pages\<close> builds a
  well-formed address space in which exactly the first 8 MiB are mapped, each
  address to itself, and takes exactly three frames: the directory and two tables.
\<close>

theorem init_pages_identity:
  assumes "pmm_inv s" "3 \<le> card (free_pages s)"
  shows "\<exists>s'. init_page_tables s = Some s' \<and> space_inv s' (Min (free_pages s)) \<and>
    kernel_page_dir_phys s' = page_addr (Min (free_pages s)) \<and> kernel_page_dir s' = kernel_page_dir_phys s' \<and>
    card (free_pages s') + 3 = card (free_pages s) \<and>
    (\<forall>v. mmu_walk (mem s') (kernel_page_dir s') v = (if unat v < 0x800000 then Some v else None))"
proof -
  obtain s' where "init_page_tables s = Some s'"
    "kernel_page_dir s' = page_addr (Min (free_pages s))" "kernel_page_dir_phys s' = kernel_page_dir s'"
    "space_inv s' (Min (free_pages s))" "card (free_pages s') + 3 = card (free_pages s)"
    "\<And>v. mmu_walk (mem s') (kernel_page_dir s') v = (if unat v < 0x800000 then Some v else None)"
    by (rule init_page_tables_result [OF assms]) blast
  then show ?thesis by (intro exI [of _ s'] conjI allI) (simp_all del: of_nat_mult)
qed

theorem init_pages_identity_witness:
  "\<exists>s'. init_page_tables before_paging = Some s' \<and> mmu_walk (mem s') (kernel_page_dir s') 0x7FFFFF = Some 0x7FFFFF \<and>
    mmu_walk (mem s') (kernel_page_dir s') 0x800000 = None"
  using init_pages_identity [OF before_paging_ok(1,3)] by auto

text \<open>
  Mapping a device region: when the region does not reach the end of the
  address space and a frame is free for every page of it, \<open>map_physical_region\<close>
  maps each of its addresses to itself and keeps the address space well formed.
\<close>

theorem map_physical_region_identity:
  assumes "space_inv s d" "unat start + unat sz + 8192 \<le> 2 ^ 32"
    and "unat sz div 4096 + 2 \<le> card (free_pages s)"
  shows "\<exists>s'. map_physical_region (page_addr d) start sz flags s = s' \<and> space_inv s' d \<and>
    (\<forall>v. unat start \<le> unat v \<and> unat v < unat start + unat sz \<longrightarrow> mmu_walk (mem s') (page_addr d) v = Some v)"
proof -
  let ?as = "region_pages start sz"
  have run: "map_physical_region (page_addr d) start sz flags s = fold (\<lambda>x s. map_page (page_addr d) x x flags s) ?as s"
    by (simp add: map_physical_region_def map_region_loop_fold Let_def del: of_nat_mult)
  have "card (missing (mem s) d ?as) \<le> card (set ?as)"
    unfolding missing_def by (rule le_trans [OF card_mono card_image_le]) auto
  also have "\<dots> \<le> unat (region_count start sz)" using card_length [of ?as] by simp
  also have "\<dots> \<le> unat sz div 4096 + 2"
  proof -
    have "(unat sz + 4095) div 4096 \<le> unat sz div 4096 + 1" by arith
    moreover have "(r + 4095) div 4096 \<le> 1" if "r < 4096" for r :: nat using that by arith
    then have "(unat start mod 4096 + 4095) div 4096 \<le> 1" by simp
    ultimately show ?thesis unfolding region_count [OF assms(2)] by linarith
  qed
  finally have room: "card (missing (mem s) d ?as) \<le> card (free_pages s)" using assms(3) by simp
  obtain m' where m': "fold (\<lambda>x s. map_page (page_addr d) x x flags s) ?as s = s\<lparr>mem := m'\<rparr>"
    "space_inv (s\<lparr>mem := m'\<rparr>) d"
    "\<And>v. mmu_walk m' (page_addr d) v =
       (if drop_bit 12 v \<in> drop_bit 12 ` set ?as then Some v else mmu_walk (mem s) (page_addr d) v)"
    by (rule map_identity_result [OF assms(1) room, of flags], rule that, assumption+)
  have "mmu_walk m' (page_addr d) v = Some v" if "unat start \<le> unat v" "unat v < unat start + unat sz" for v
    unfolding m'(3) by (rule if_P [OF region_cover [OF assms(2) that]])
  then show ?thesis using m'(1,2) run by simp
qed

theorem map_physical_region_identity_witness:
  "\<exists>s'. map_physical_region 0 0xFD000123 10000 2 paged = s' \<and> mmu_walk (mem s') 0 0xFD002000 = Some 0xFD002000"
proof -
  have "unat (10000 :: u32) div 4096 + 2 \<le> card (free_pages paged)" using paged_free by simp
  from map_physical_region_identity [OF paged_ok(1) _ this, of "0xFD000123" 2]
  have "\<forall>v. 0xFD000123 \<le> unat v \<and> unat v < 0xFD000123 + 10000 \<longrightarrow>
      mmu_walk (mem (map_physical_region 0 0xFD000123 10000 2 paged)) 0 v = Some v" by simp
  from spec [OF this, of "0xFD002000"] show ?thesis by simp
qed

text \<open>
  Sharing the kernel's half: after \<open>clone_kernel_space\<close> the new directory
  translates every address from 0xC0000000 on as the kernel's does; its own entries
  below are untouched, and only the new directory's page is written.
\<close>

theorem clone_kernel_space_shares:
  assumes "kernel_page_dir s = page_addr d" "d < 2 ^ 20" "e < 2 ^ 20" "d \<noteq> e"
    and "\<forall>i < 1024. KERNEL_PD_INDEX \<le> i \<longrightarrow> present (mem s) d i \<longrightarrow> table_of (mem s) d i \<noteq> e"
  shows "\<exists>s'. clone_kernel_space (page_addr e) s = s' \<and> only_changes (page_span e) (mem s) (mem s') \<and>
    (\<forall>v. 0xC0000000 \<le> v \<longrightarrow> mmu_walk (mem s') (page_addr e) v = mmu_walk (mem s) (page_addr d) v) \<and>
    (\<forall>i < KERNEL_PD_INDEX. entry (mem s') (page_addr e) i = entry (mem s) (page_addr e) i)"
proof -
  let ?m = "fold (\<lambda>i m. set_entry (page_addr e) i (entry m (page_addr d) i) m) [768..<1024] (mem s)"
  have c: "entry ?m (page_addr e) i =
      (if 768 \<le> i then entry (mem s) (page_addr d) i else entry (mem s) (page_addr e) i)" if "i < 1024" for i
    using clone_entries [OF assms(2-4), of 1024 768 "mem s"] that by (simp del: upt_rec_numeral)
  have o: "only_changes (page_span e) (mem s) ?m"
    using clone_entries [OF assms(2-4), of 1024 768 "mem s"] by (simp del: upt_rec_numeral)
  have run: "clone_kernel_space (page_addr e) s = s\<lparr>mem := ?m\<rparr>"
    by (simp add: clone_kernel_space_def assms(1) del: of_nat_mult upt_rec_numeral upt_Suc)
  have "mmu_walk ?m (page_addr e) v = mmu_walk (mem s) (page_addr d) v" if "0xC0000000 \<le> v" for v
  proof -
    have i: "768 \<le> pdi v" using that unfolding pdi_div by (simp add: word_le_nat_alt)
    have e: "entry ?m (page_addr e) (pdi v) = entry (mem s) (page_addr d) (pdi v)"
      by (subst c [OF pdi_bound]) (rule if_P [OF i])
    have pe: "present ?m e (pdi v) = present (mem s) d (pdi v)" "table_of ?m e (pdi v) = table_of (mem s) d (pdi v)"
      unfolding present_def table_of_def e by simp_all
    show ?thesis
    proof (cases "present (mem s) d (pdi v)")
      case True
      then have "table_of (mem s) d (pdi v) \<noteq> e" using assms(5) i pdi_bound by blast
      then have "entry ?m (page_addr (table_of (mem s) d (pdi v))) (pti v) =
          entry (mem s) (page_addr (table_of (mem s) d (pdi v))) (pti v)"
        by (intro entry_only [OF table_bound pti_bound o] page_span_disjoint table_bound assms(3))
      then show ?thesis using pe by (simp add: mmu_walk_pte pte_at_def del: of_nat_mult upt_rec_numeral)
    next
      case False
      then show ?thesis using pe by (simp add: mmu_walk_pte del: of_nat_mult upt_rec_numeral)
    qed
  qed
  then show ?thesis using run o c by (simp del: of_nat_mult upt_rec_numeral)
qed

text \<open>A directory in frame 1 with one table, in frame 2, that maps one page.\<close>

definition small_space :: memory where
  "small_space = set_entry 0x2000 5 0x7003 (set_entry 0x1000 800 0x2007 (\<lambda>_. 0))"

lemma small_space_entry: "i < 1024 \<Longrightarrow> entry small_space (page_addr 1) i = (if i = 800 then 0x2007 else 0)"
  using entry_set_other [of 2 1 5 i "0x7003" "set_entry 0x1000 800 0x2007 (\<lambda>_. 0)"]
    entry_set_other [of 1 1 800 i "0x2007" "\<lambda>_. 0"] entry_set_same [of "0x1000" 800 "0x2007" "\<lambda>_. 0"]
  by (auto simp: small_space_def) (simp add: entry_def rd32_def)

theorem clone_kernel_space_shares_witness:
  "\<exists>s'. clone_kernel_space 0x50000 (before_paging\<lparr>mem := small_space, kernel_page_dir := 0x1000\<rparr>) = s' \<and>
    mmu_walk (mem s') 0x50000 0xC8005010 = Some 0x7010"
proof -
  let ?s = "before_paging\<lparr>mem := small_space, kernel_page_dir := 0x1000\<rparr>"
  have kd: "kernel_page_dir ?s = page_addr 1" by simp
  have none: "\<forall>i < 1024. 768 \<le> i \<longrightarrow> present (mem ?s) 1 i \<longrightarrow> table_of (mem ?s) 1 i \<noteq> 80"
  proof (intro allI impI)
    fix i assume "i < (1024 :: nat)" "present (mem ?s) 1 i"
    then show "table_of (mem ?s) 1 i \<noteq> 80"
      using small_space_entry [of i]
      by (cases "i = 800") (simp_all add: present_def table_of_def frame_of_def drop_bit_eq_div)
  qed
  have "mmu_walk small_space 0x1000 0xC8005010 = Some 0x7010"
    by (simp add: mmu_walk_def small_space_def entry_def set_entry_def slot_def rd32_def wr32_def
        drop_bit_eq_div push_bit_eq_mult Let_def)
  then show ?thesis using clone_kernel_space_shares [OF kd _ _ _ none] by simp
qed

text \<open>
  Copying a page: \<open>copy_page\<close> makes the destination frame byte for byte equal
  to the source frame and writes nothing else.
\<close>

theorem copy_page_copies:
  assumes "a < 2 ^ 20" "b < 2 ^ 20" "a \<noteq> b"
  shows "(\<forall>i < 4096. copy_page (page_addr a) (page_addr b) m (page_addr b + of_nat i) = m (page_addr a + of_nat i)) \<and>
    only_changes (page_span b) m (copy_page (page_addr a) (page_addr b) m)"
  using copy_page_bytes [OF assms] by blast

theorem copy_page_copies_witness:
  "copy_page 0x1000 0x5000 strings0 0x5002 = 107"
  using copy_page_copies [of 1 5 strings0] by (auto simp: strings0_def dest!: spec [of _ 2])

end
