(* ===== verification/Gd.thy ===== *)
theory Gd
  imports Paging Font
begin

text \<open>
  The graphics driver, \<open>drivers/gd.c\<close>: the framebuffer the boot loader
  describes, pixels at 32, 24 and 16 bits, rectangles, characters, scrolling and
  the formatted log \<open>kDebug\<close>.  The framebuffer is physical memory and is
  written byte for byte.  \<open>None\<close> is undefined behaviour, as for \<open>EarlyLog\<close>.
\<close>

section \<open>State\<close>

datatype GD_STATUS = GSUCCESS | GERROR

record gd_framebuffer =
  fb_addr :: u32
  fb_width :: u32
  fb_height :: u32
  fb_pitch :: u32
  fb_bpp :: u8
  fb_type :: u8

record gdl_log =
  gdl_color :: u32
  gdl_x :: u32
  gdl_y :: u32

record gd_state = paging_state +
  gd_ok :: int
  fb_info :: gd_framebuffer
  gdl_log :: gdl_log

text \<open>The framebuffer fields of \<open>multiboot_info_t\<close>, at their offsets.\<close>

definition mb_framebuffer_addr :: "memory \<Rightarrow> u32 \<Rightarrow> u64" where
  "mb_framebuffer_addr m mbd = rd64 m (mbd + 88)"

definition mb_framebuffer_pitch :: "memory \<Rightarrow> u32 \<Rightarrow> u32" where
  "mb_framebuffer_pitch m mbd = rd32 m (mbd + 96)"

definition mb_framebuffer_width :: "memory \<Rightarrow> u32 \<Rightarrow> u32" where
  "mb_framebuffer_width m mbd = rd32 m (mbd + 100)"

definition mb_framebuffer_height :: "memory \<Rightarrow> u32 \<Rightarrow> u32" where
  "mb_framebuffer_height m mbd = rd32 m (mbd + 104)"

definition mb_framebuffer_bpp :: "memory \<Rightarrow> u32 \<Rightarrow> u8" where
  "mb_framebuffer_bpp m mbd = m (mbd + 108)"

definition mb_framebuffer_type :: "memory \<Rightarrow> u32 \<Rightarrow> u8" where
  "mb_framebuffer_type m mbd = m (mbd + 109)"

section \<open>Initialisation\<close>

text \<open>The checks of the recorded framebuffer, the second half of \<open>get_framebuffer\<close>.\<close>

definition check_framebuffer :: "'a gd_state_scheme \<Rightarrow> (GD_STATUS \<times> 'a gd_state_scheme) option" where
  "check_framebuffer s =
     (if fb_width (fb_info s) = 0 \<or> fb_height (fb_info s) = 0 then do {
        s \<leftarrow> EarlyLog (bytes ''GD: Error! Invalid dimensions\<newline>'') [] s;
        Some (GERROR, s)
      }
      else do {
        s \<leftarrow> (if fb_bpp (fb_info s) \<noteq> 32 \<and> fb_bpp (fb_info s) \<noteq> 24 \<and> fb_bpp (fb_info s) \<noteq> 16
             then EarlyLog (bytes ''GD: Warning! BPP is %d (expected 16, 24 or 32)\<newline>'')
                    [VInt (ucast (fb_bpp (fb_info s)))] s
             else Some s);
        if fb_addr (fb_info s) = 0 then do {
          s \<leftarrow> EarlyLog (bytes ''GD: Error! Framebuffer address is NULL\<newline>'') [] s;
          Some (GERROR, s)
        }
        else Some (GSUCCESS, s)
      })"

definition get_framebuffer ::
  "u32 \<Rightarrow> u32 \<Rightarrow> 'a gd_state_scheme \<Rightarrow> (GD_STATUS \<times> 'a gd_state_scheme) option" where
  "get_framebuffer mbd magic s =
     (if magic \<noteq> MULTIBOOT_BOOTLOADER_MAGIC then do {
        s \<leftarrow> EarlyLog (bytes ''GD: Error! The magic is invalid! Got: 0x%x\<newline>'') [VInt magic] s;
        Some (GERROR, s)
      }
      else if mb_flags (mem s) mbd AND push_bit 12 1 = 0 then do {
        s \<leftarrow> EarlyLog (bytes ''GD: Error! No framebuffer (flags: 0x%x)\<newline>'') [VInt (mb_flags (mem s) mbd)] s;
        Some (GERROR, s)
      }
      else let s = s\<lparr>fb_info := (fb_info s)\<lparr>fb_type := mb_framebuffer_type (mem s) mbd\<rparr>\<rparr> in
        if fb_type (fb_info s) \<noteq> 1 \<and> fb_type (fb_info s) \<noteq> 2 then do {
          s \<leftarrow> EarlyLog (bytes ''GD: Error! Framebuffer type is not RGB (type=%d)\<newline>'')
                 [VInt (ucast (fb_type (fb_info s)))] s;
          Some (GERROR, s)
        }
        else let s = s\<lparr>fb_info := (fb_info s)
               \<lparr>fb_addr := ucast (mb_framebuffer_addr (mem s) mbd),
                fb_width := mb_framebuffer_width (mem s) mbd,
                fb_height := mb_framebuffer_height (mem s) mbd,
                fb_pitch := mb_framebuffer_pitch (mem s) mbd,
                fb_bpp := mb_framebuffer_bpp (mem s) mbd\<rparr>\<rparr> in
          check_framebuffer s)"

definition gd_init ::
  "u32 \<Rightarrow> u32 \<Rightarrow> 'a gd_state_scheme \<Rightarrow> (GD_STATUS \<times> 'a gd_state_scheme) option" where
  "gd_init mbd magic s = do {
     (r, s) \<leftarrow> get_framebuffer mbd magic s;
     if r \<noteq> GSUCCESS then do {
       s \<leftarrow> EarlyLog (bytes ''GD Failed to get framebuffer\<newline>'') [] s;
       Some (GERROR, s)
     }
     else let fb_size = fb_height (fb_info s) * fb_pitch (fb_info s);
              s = map_framebuffer (fb_addr (fb_info s)) fb_size s
          in Some (GSUCCESS, s\<lparr>gd_ok := 1\<rparr>)
   }"

section \<open>Drawing\<close>

text \<open>
  The three layouts: 32-bit pixels, three bytes, or RGB565.
\<close>

definition put_pixel :: "u32 \<Rightarrow> u32 \<Rightarrow> u32 \<Rightarrow> 'a gd_state_scheme \<Rightarrow> 'a gd_state_scheme" where
  "put_pixel x y color s = (let fb = fb_addr (fb_info s) in
     if gd_ok s = 0 then s
     else if x \<ge> fb_width (fb_info s) \<or> y \<ge> fb_height (fb_info s) then s
     else if fb_bpp (fb_info s) = 32 then
       let offset = y * (fb_pitch (fb_info s) div 4) + x
       in s\<lparr>mem := wr32 (mem s) (fb + 4 * offset) color\<rparr>
     else if fb_bpp (fb_info s) = 24 then
       let offset = y * fb_pitch (fb_info s) + x * 3
       in s\<lparr>mem := (mem s)(fb + (offset + 0) := ucast (color AND 0xFF),
                         fb + (offset + 1) := ucast (drop_bit 8 color AND 0xFF),
                         fb + (offset + 2) := ucast (drop_bit 16 color AND 0xFF))\<rparr>
     else if fb_bpp (fb_info s) = 16 then
       let offset = y * (fb_pitch (fb_info s) div 2) + x;
           r = ucast (drop_bit 19 color AND 0x1F) :: u16;
           g = ucast (drop_bit 10 color AND 0x3F) :: u16;
           b = ucast (drop_bit 3 color AND 0x1F) :: u16
       in s\<lparr>mem := wr16 (mem s) (fb + 2 * offset) (push_bit 11 r OR push_bit 5 g OR b)\<rparr>
     else s)"

definition write_fb_pixel :: "u32 \<Rightarrow> u32 \<Rightarrow> u32 \<Rightarrow> memory \<Rightarrow> memory" where
  "write_fb_pixel fb offset color m = wr32 m (fb + 4 * offset) color"

definition draw_rect ::
  "u32 \<Rightarrow> u32 \<Rightarrow> u32 \<Rightarrow> u32 \<Rightarrow> u32 \<Rightarrow> 'a gd_state_scheme \<Rightarrow> 'a gd_state_scheme option" where
  "draw_rect x y w h color s =
     (if gd_ok s = 0 then EarlyLog (bytes ''GD is not initialized\<newline>'') [] s
      else Some (fold (\<lambda>i. fold (\<lambda>j. put_pixel (x + of_nat j) (y + of_nat i) color) [0..<unat w])
                   [0..<unat h] s))"

definition clear :: "u32 \<Rightarrow> 'a gd_state_scheme \<Rightarrow> 'a gd_state_scheme option" where
  "clear color s =
     (if gd_ok s = 0 then EarlyLog (bytes ''GD is not initialized\<newline>'') [] s
      else draw_rect 0 0 (fb_width (fb_info s)) (fb_height (fb_info s)) color s)"

definition scroll_screen :: "u32 \<Rightarrow> 'a gd_state_scheme \<Rightarrow> 'a gd_state_scheme option" where
  "scroll_screen pixels s =
     (let fb = fb_addr (fb_info s);
          bytes_per_line = fb_pitch (fb_info s) * ucast (fb_bpp (fb_info s) div 8);
          s = s\<lparr>mem := memmove (mem s) fb (fb + pixels * bytes_per_line)
                  ((fb_height (fb_info s) - pixels) * bytes_per_line)\<rparr>
      in draw_rect 0 (fb_height (fb_info s) - pixels) (fb_width (fb_info s)) pixels 0 s)"

definition draw_char :: "u32 \<Rightarrow> u32 \<Rightarrow> u8 \<Rightarrow> u32 \<Rightarrow> 'a gd_state_scheme \<Rightarrow> 'a gd_state_scheme" where
  "draw_char x y c color s =
     (if c > 127 then s
      else fold (\<lambda>row. fold (\<lambda>col s.
             if font8x8_basic ! unat c ! row AND push_bit col 1 \<noteq> 0
             then put_pixel (x + of_nat col) (y + of_nat row) color s else s) [0..<8]) [0..<8] s)"

section \<open>The log\<close>

abbreviation log_x :: "'a gd_state_scheme \<Rightarrow> u32" where "log_x s \<equiv> gdl_x (gdl_log s)"
abbreviation log_y :: "'a gd_state_scheme \<Rightarrow> u32" where "log_y s \<equiv> gdl_y (gdl_log s)"

definition set_log_x :: "u32 \<Rightarrow> 'a gd_state_scheme \<Rightarrow> 'a gd_state_scheme" where
  "set_log_x v s = s\<lparr>gdl_log := (gdl_log s)\<lparr>gdl_x := v\<rparr>\<rparr>"

definition set_log_y :: "u32 \<Rightarrow> 'a gd_state_scheme \<Rightarrow> 'a gd_state_scheme" where
  "set_log_y v s = s\<lparr>gdl_log := (gdl_log s)\<lparr>gdl_y := v\<rparr>\<rparr>"

text \<open>
  \<open>gdl_log.x = 0; gdl_log.y += 8;\<close> and the scroll when the next line does not
  fit, which four places of the source share; \<open>wrap_line\<close> is the one without
  the scroll.
\<close>

definition wrap_line :: "'a gd_state_scheme \<Rightarrow> 'a gd_state_scheme" where
  "wrap_line s = (let s = set_log_x 0 s in set_log_y (log_y s + 8) s)"

definition new_line :: "'a gd_state_scheme \<Rightarrow> 'a gd_state_scheme option" where
  "new_line s = (let s = wrap_line s in
     if log_y s + 8 > fb_height (fb_info s)
     then map_option (\<lambda>s. set_log_y (log_y s - 8) s) (scroll_screen 8 s)
     else Some s)"

definition gdl_putchar :: "u8 \<Rightarrow> 'a gd_state_scheme \<Rightarrow> 'a gd_state_scheme option" where
  "gdl_putchar c s =
     (if c = 10 then new_line s
      else let s = draw_char (log_x s) (log_y s) c (gdl_color (gdl_log s)) s;
               s = set_log_x (log_x s + 8) s
           in if log_x s + 8 > fb_width (fb_info s) then new_line s else Some s)"

definition gdl_puts :: "u8 list \<Rightarrow> 'a gd_state_scheme \<Rightarrow> 'a gd_state_scheme option" where
  "gdl_puts = for_each gdl_putchar"

definition gdl_print_char :: "u32 \<Rightarrow> u8 \<Rightarrow> 'a gd_state_scheme \<Rightarrow> 'a gd_state_scheme option" where
  "gdl_print_char color c s =
     (if c = 10 then new_line s
      else let s = draw_char (log_x s) (log_y s) c color s;
               s = set_log_x (log_x s + 8) s
           in Some (if log_x s + 8 > fb_width (fb_info s) then wrap_line s else s))"

definition gdl_print_color :: "u8 list \<Rightarrow> u32 \<Rightarrow> 'a gd_state_scheme \<Rightarrow> 'a gd_state_scheme option" where
  "gdl_print_color str color = for_each (gdl_print_char color) str"

fun kDebug :: "u8 list \<Rightarrow> varg list \<Rightarrow> 'a gd_state_scheme \<Rightarrow> 'a gd_state_scheme option" where
  "kDebug [] args s = Some s"
| "kDebug (c # fmt) args s =
     (if c = 37 then
        (case fmt of
           [] \<Rightarrow> None
         | f # rest \<Rightarrow>
             (if f = 100 then
                (case args of VInt v # as \<Rightarrow>
                   do { buf \<leftarrow> itoa (sint v) 10; s \<leftarrow> gdl_puts buf s; kDebug rest as s } | _ \<Rightarrow> None)
              else if f = 120 then
                (case args of VInt v # as \<Rightarrow>
                   do { buf \<leftarrow> itoa (sint v) 16; s \<leftarrow> gdl_puts buf s; kDebug rest as s } | _ \<Rightarrow> None)
              else if f = 112 then
                (case args of VInt v # as \<Rightarrow>
                   do { s \<leftarrow> gdl_print_color (bytes ''0x'') (gdl_color (gdl_log s)) s;
                        buf \<leftarrow> itoa (sint v) 16; s \<leftarrow> gdl_puts buf s; kDebug rest as s } | _ \<Rightarrow> None)
              else if f = 99 then
                (case args of VInt v # as \<Rightarrow>
                   do { s \<leftarrow> gdl_putchar (ucast v) s; kDebug rest as s } | _ \<Rightarrow> None)
              else if f = 115 then
                (case args of VStr str # as \<Rightarrow>
                   do { s \<leftarrow> gdl_puts str s; kDebug rest as s } | _ \<Rightarrow> None)
              else if f = 37 then do { s \<leftarrow> gdl_putchar 37 s; kDebug rest args s }
              else do { s \<leftarrow> gdl_putchar 37 s; s \<leftarrow> gdl_putchar f s; kDebug rest args s }))
      else if c = 10 then do { s \<leftarrow> new_line s; kDebug fmt args s }
      else do {
        s \<leftarrow> gdl_putchar c s;
        let s = set_log_x (log_x s + 8) s;
        let s = (if log_x s + 8 > fb_width (fb_info s) then wrap_line s else s);
        kDebug fmt args s
      })"

text \<open>The macro of \<open>inc/vga.h\<close> on this log.\<close>

definition INFO :: "string \<Rightarrow> 'a gd_state_scheme \<Rightarrow> 'a gd_state_scheme option" where
  "INFO str = kDebug (bytes ''[INFO] %s'') [VStr (bytes str)]"

text \<open>\<open>init_pages\<close> of \<open>memory/paging.c\<close>, with its message.\<close>

definition init_pages :: "'a gd_state_scheme \<Rightarrow> 'a gd_state_scheme option" where
  "init_pages s = do {
     s \<leftarrow> init_page_tables s;
     s \<leftarrow> INFO ''Activating paging...\<newline>'' s;
     Some (EnablePaging (kernel_page_dir_phys s) s)
   }"

section \<open>Pixels stay inside the framebuffer\<close>

text \<open>
  A framebuffer whose lines hold its pixels and that does not wrap around the
  address space, and the bytes it occupies.
\<close>

definition fb_bytes :: "gd_framebuffer \<Rightarrow> nat" where
  "fb_bytes f = unat (fb_height f) * unat (fb_pitch f)"

definition fb_region :: "gd_framebuffer \<Rightarrow> u32 set" where
  "fb_region f = span (fb_addr f) (fb_bytes f)"

definition fb_ok :: "gd_framebuffer \<Rightarrow> bool" where
  "fb_ok f \<longleftrightarrow> unat (fb_width f) * unat (fb_bpp f div 8) \<le> unat (fb_pitch f) \<and>
     unat (fb_addr f) + fb_bytes f \<le> 2 ^ 32"

lemma put_pixel_mem: "put_pixel x y color s = s\<lparr>mem := mem (put_pixel x y color s)\<rparr>"
  by (simp add: put_pixel_def Let_def)

lemma put_pixel_fields [simp]:
  "fb_info (put_pixel x y color s) = fb_info s" "gd_ok (put_pixel x y color s) = gd_ok s"
  by (subst put_pixel_mem; simp)+

text \<open>The byte offset of a pixel, without wrap-around.\<close>

lemma line_offset:
  fixes x y p :: u32
  assumes "k \<noteq> 0"
  shows "of_nat k * (y * (p div of_nat k) + x) =
      (of_nat (k * (unat y * (unat (p div of_nat k)) + unat x)) :: u32)"
  by simp

lemma sub_span: "k + n \<le> N \<Longrightarrow> span (a + of_nat k) n \<subseteq> span a N"
  using span_add [of a k n] span_mono [of "k + n" N a] by blast

lemma pixel_fits:
  assumes "y < (h :: nat)" "x < w" "w * k \<le> p" "q * k \<le> p"
  shows "k * (y * q + x) + k \<le> h * p"
proof -
  have "k * (y * q + x) + k = y * (q * k) + Suc x * k" by (simp add: algebra_simps)
  also have "\<dots> \<le> y * p + w * k"
    using assms(2,4) by (intro add_mono mult_le_mono) auto
  also have "\<dots> \<le> Suc y * p" using assms(3) by simp
  also have "\<dots> \<le> h * p" using assms(1) by (intro mult_le_mono1) simp
  finally show ?thesis .
qed

text \<open>At 32 bits a pixel is the write that the unused \<open>write_fb_pixel\<close> makes.\<close>

lemma put_pixel_write_fb:
  assumes "gd_ok s \<noteq> 0" "x < fb_width (fb_info s)" "y < fb_height (fb_info s)" "fb_bpp (fb_info s) = 32"
  shows "put_pixel x y color s =
    s\<lparr>mem := write_fb_pixel (fb_addr (fb_info s)) (y * (fb_pitch (fb_info s) div 4) + x) color (mem s)\<rparr>"
  using assms by (simp add: put_pixel_def write_fb_pixel_def Let_def)

lemma put_pixel_only:
  assumes "fb_ok (fb_info s)"
  shows "only_changes (fb_region (fb_info s)) (mem s) (mem (put_pixel x y color s))"
proof -
  let ?f = "fb_info s"
  let ?a = "fb_addr ?f" and ?p = "fb_pitch ?f"
  show ?thesis
  proof (cases "gd_ok s = 0 \<or> x \<ge> fb_width ?f \<or> y \<ge> fb_height ?f \<or> fb_bpp ?f \<notin> {32, 24, 16}")
    case True
    then show ?thesis by (auto simp: put_pixel_def Let_def)
  next
    case False
    then have xy: "unat x < unat (fb_width ?f)" "unat y < unat (fb_height ?f)"
      by (simp_all add: word_less_nat_alt word_le_nat_alt)
    note fits = pixel_fits [OF xy(2,1)]
    have w: "unat (fb_width ?f) * unat (fb_bpp ?f div 8) \<le> unat ?p" using assms by (simp add: fb_ok_def)
    from False consider "fb_bpp ?f = 32" | "fb_bpp ?f = 24" | "fb_bpp ?f = 16" by auto
    then show ?thesis
    proof cases
      case 1
      let ?k = "4 * (unat y * unat (?p div 4) + unat x)"
      have "?k + 4 \<le> fb_bytes ?f" unfolding fb_bytes_def
        using w 1 by (intro fits) (simp_all add: unat_div)
      then have "span (?a + of_nat ?k) 4 \<subseteq> fb_region ?f" unfolding fb_region_def by (rule sub_span)
      then have "only_changes (fb_region ?f) (mem s) (wr32 (mem s) (?a + 4 * (y * (?p div 4) + x)) color)"
        by (intro only_changes_wr32) simp
      then show ?thesis using False 1 by (simp add: put_pixel_def Let_def)
    next
      case 2
      let ?k = "3 * (0 + unat x) + unat y * unat ?p"
      have "unat (fb_width ?f) * 3 \<le> unat ?p" using w 2 by simp
      then have "3 * unat x + 3 \<le> unat ?p" using xy(1) by linarith
      then have "?k + 3 \<le> Suc (unat y) * unat ?p" by simp
      also have "\<dots> \<le> fb_bytes ?f" unfolding fb_bytes_def using xy(2) by (intro mult_le_mono1) simp
      finally have "span (?a + of_nat ?k) 3 \<subseteq> fb_region ?f" unfolding fb_region_def by (rule sub_span)
      moreover have "?a + of_nat ?k = ?a + (y * ?p + x * 3)" by (simp add: ac_simps)
      ultimately have "span (?a + (y * ?p + x * 3)) 3 \<subseteq> fb_region ?f" by (simp only:)
      then have "?a + (y * ?p + x * 3 + 0) \<in> fb_region ?f" "?a + (y * ?p + x * 3 + 1) \<in> fb_region ?f"
        "?a + (y * ?p + x * 3 + 2) \<in> fb_region ?f"
        by (auto simp: span_Suc numeral_eq_Suc add.assoc)
      then show ?thesis using False 2
        by (simp add: put_pixel_def Let_def) (auto simp: only_changes_def)
    next
      case 3
      let ?k = "2 * (unat y * unat (?p div 2) + unat x)"
      have "?k + 2 \<le> fb_bytes ?f" unfolding fb_bytes_def
        using w 3 by (intro fits) (simp_all add: unat_div)
      then have "span (?a + of_nat ?k) 2 \<subseteq> fb_region ?f" unfolding fb_region_def by (rule sub_span)
      then have "only_changes (fb_region ?f) (mem s) (wr16 (mem s) (?a + 2 * (y * (?p div 2) + x)) v)" for v
        by (intro wr16_only) (simp add: span_Suc numeral_eq_Suc)
      then show ?thesis using False 3 by (simp add: put_pixel_def Let_def)
    qed
  qed
qed

text \<open>A sequence of pixels of one colour.\<close>

definition plot :: "(u32 \<times> u32) list \<Rightarrow> u32 \<Rightarrow> 'a gd_state_scheme \<Rightarrow> 'a gd_state_scheme" where
  "plot ps color = fold (\<lambda>p. put_pixel (fst p) (snd p) color) ps"

lemma plot_simps [simp]:
  "plot [] color s = s" "plot (p # ps) color s = plot ps color (put_pixel (fst p) (snd p) color s)"
  by (simp_all add: plot_def)

lemma plot_mem: "plot ps color s = s\<lparr>mem := mem (plot ps color s)\<rparr>"
proof (induction ps arbitrary: s)
  case (Cons p ps)
  show ?case by (simp, subst Cons.IH, subst put_pixel_mem) simp
qed simp

lemma plot_only:
  assumes "fb_ok (fb_info s)"
  shows "only_changes (fb_region (fb_info s)) (mem s) (mem (plot ps color s))"
  using assms
proof (induction ps arbitrary: s)
  case (Cons p ps)
  then show ?case
    using only_changes_trans [OF put_pixel_only [OF Cons.prems, of "fst p" "snd p" color]
        Cons.IH [of "put_pixel (fst p) (snd p) color s"]] by simp
qed simp

definition rect_points :: "u32 \<Rightarrow> u32 \<Rightarrow> u32 \<Rightarrow> u32 \<Rightarrow> (u32 \<times> u32) list" where
  "rect_points x y w h = concat (map (\<lambda>i. map (\<lambda>j. (x + of_nat j, y + of_nat i)) [0..<unat w]) [0..<unat h])"

definition glyph_points :: "u32 \<Rightarrow> u32 \<Rightarrow> u8 \<Rightarrow> (u32 \<times> u32) list" where
  "glyph_points x y c = concat (map (\<lambda>i. map (\<lambda>j. (x + of_nat j, y + of_nat i))
     (filter (\<lambda>j. bit (font8x8_basic ! unat c ! i) j) [0..<8])) [0..<8])"

lemma plot_append: "plot (ps @ qs) color s = plot qs color (plot ps color s)"
  by (simp add: plot_def)

lemma fold_plot:
  "(\<And>i s. f i s = plot (g i) color s) \<Longrightarrow> fold f is s = plot (concat (map g is)) color s"
  by (induction "is" arbitrary: s) (simp_all add: plot_append)

lemma plot_map: "plot (map g js) color s = fold (\<lambda>j. put_pixel (fst (g j)) (snd (g j)) color) js s"
  by (simp add: plot_def fold_map comp_def)

lemma draw_rect_plot:
  "gd_ok s \<noteq> 0 \<Longrightarrow> draw_rect x y w h color s = Some (plot (rect_points x y w h) color s)"
  unfolding draw_rect_def rect_points_def by (simp add: fold_plot plot_map)

lemma plot_filter:
  "plot (map g (filter P js)) color s =
     fold (\<lambda>j s. if P j then put_pixel (fst (g j)) (snd (g j)) color s else s) js s"
  by (induction js arbitrary: s) (simp_all add: plot_def)

lemma draw_char_plot:
  "draw_char x y c color s = (if c > 127 then s else plot (glyph_points x y c) color s)"
proof -
  have b: "(v AND push_bit col 1 \<noteq> 0) = bit v col" for v :: u8 and col :: nat
    by (simp add: bit_iff_and_push_bit_not_eq_0)
  have "fold (\<lambda>row. fold (\<lambda>col s. if bit (font8x8_basic ! unat c ! row) col
      then put_pixel (x + of_nat col) (y + of_nat row) color s else s) [0..<8]) [0..<8] s =
      plot (glyph_points x y c) color s"
    unfolding glyph_points_def by (rule fold_plot) (simp only: plot_filter fst_conv snd_conv)
  then show ?thesis unfolding draw_char_def b by simp
qed

section \<open>Pixels on a 32-bit screen\<close>

definition pixel_at :: "gd_framebuffer \<Rightarrow> u32 \<Rightarrow> u32 \<Rightarrow> u32" where
  "pixel_at f x y = fb_addr f + 4 * (y * (fb_pitch f div 4) + x)"

definition pixel32 :: "'a gd_state_scheme \<Rightarrow> u32 \<Rightarrow> u32 \<Rightarrow> u32" where
  "pixel32 s x y = rd32 (mem s) (pixel_at (fb_info s) x y)"

definition on_screen :: "gd_framebuffer \<Rightarrow> u32 \<Rightarrow> u32 \<Rightarrow> bool" where
  "on_screen f x y \<longleftrightarrow> x < fb_width f \<and> y < fb_height f"

lemma line_order:
  assumes "(x :: nat) < q" "y' < y"
  shows "y' * q + x + 1 \<le> y * q"
proof -
  have "y' * q + x + 1 \<le> Suc y' * q" using assms(1) by simp
  also have "\<dots> \<le> y * q" using assms(2) by (intro mult_le_mono1) simp
  finally show ?thesis .
qed

lemma pixel_span:
  assumes "fb_ok f" "fb_bpp f = 32" "on_screen f x y"
  defines "k \<equiv> unat (fb_addr f) + 4 * (unat y * unat (fb_pitch f div 4) + unat x)"
  shows "span (pixel_at f x y) 4 = nspan k 4" "k + 4 \<le> 2 ^ 32" "unat x < unat (fb_pitch f div 4)"
proof -
  have xy: "unat x < unat (fb_width f)" "unat y < unat (fb_height f)"
    using assms(3) by (simp_all add: on_screen_def word_less_nat_alt)
  have w: "unat (fb_width f) * 4 \<le> unat (fb_pitch f)" using assms(1,2) by (simp add: fb_ok_def)
  then have "unat (fb_width f) \<le> unat (fb_pitch f div 4)" by (simp add: unat_div)
  then show "unat x < unat (fb_pitch f div 4)" by (rule less_le_trans [OF xy(1)])
  have "4 * (unat y * unat (fb_pitch f div 4) + unat x) + 4 \<le> fb_bytes f" unfolding fb_bytes_def
    using w by (intro pixel_fits [OF xy(2,1)]) (simp_all add: unat_div)
  then show k: "k + 4 \<le> 2 ^ 32" using assms(1) by (simp add: fb_ok_def k_def)
  have a: "pixel_at f x y = of_nat k" by (simp add: pixel_at_def k_def)
  have u: "unat (pixel_at f x y) = k" unfolding a using k by (intro unat_of_nat32) simp
  have "unat (pixel_at f x y) + 4 \<le> 2 ^ 32" using k u by simp
  from span_nspan [OF this] show "span (pixel_at f x y) 4 = nspan k 4" by (simp only: u)
qed

lemma pixels_disjoint:
  assumes "fb_ok f" "fb_bpp f = 32" "on_screen f x y" "on_screen f x' y'" "(x, y) \<noteq> (x', y')"
  shows "span (pixel_at f x y) 4 \<inter> span (pixel_at f x' y') 4 = {}"
proof -
  note p = pixel_span [OF assms(1,2)]
  let ?q = "unat (fb_pitch f div 4)"
  have "unat y * ?q + unat x \<noteq> unat y' * ?q + unat x'"
  proof (cases "y = y'")
    case True
    then show ?thesis using assms(5) by (simp add: word_unat_eq_iff)
  next
    case False
    then have "unat y < unat y' \<or> unat y' < unat y" by (simp add: word_unat_eq_iff neq_iff)
    then show ?thesis
      using line_order [OF p(3) [OF assms(3)], of "unat y" "unat y'"]
        line_order [OF p(3) [OF assms(4)], of "unat y'" "unat y"] by linarith
  qed
  then show ?thesis unfolding p(1) [OF assms(3)] p(1) [OF assms(4)] by auto
qed

lemma put_pixel_pixel32:
  assumes "fb_ok (fb_info s)" "fb_bpp (fb_info s) = 32" "gd_ok s \<noteq> 0" "on_screen (fb_info s) px py"
  shows "pixel32 (put_pixel x y color s) px py = (if x = px \<and> y = py then color else pixel32 s px py)"
proof (cases "on_screen (fb_info s) x y")
  case True
  then have m: "mem (put_pixel x y color s) = wr32 (mem s) (pixel_at (fb_info s) x y) color"
    using assms by (simp add: put_pixel_def pixel_at_def on_screen_def Let_def flip: not_le)
  show ?thesis
  proof (cases "(x, y) = (px, py)")
    case False
    then show ?thesis using pixels_disjoint [OF assms(1,2,4) True]
      by (auto simp: pixel32_def m rd32_wr32_disjoint)
  next
    case True
    then show ?thesis using m by (simp add: pixel32_def)
  qed
next
  case False
  then have "put_pixel x y color s = s" by (auto simp: put_pixel_def on_screen_def Let_def)
  then show ?thesis using False assms(4) by auto
qed

lemma plot_pixel32:
  assumes "fb_ok (fb_info s)" "fb_bpp (fb_info s) = 32" "gd_ok s \<noteq> 0" "on_screen (fb_info s) px py"
  shows "pixel32 (plot ps color s) px py = (if (px, py) \<in> set ps then color else pixel32 s px py)"
  using assms
proof (induction ps arbitrary: s)
  case (Cons p ps)
  then show ?case using put_pixel_pixel32 [OF Cons.prems, of "fst p" "snd p" color] by (cases p) auto
qed simp

lemma pointsI:
  "i \<in> set is \<Longrightarrow> j \<in> set (js i) \<Longrightarrow> p = g i j \<Longrightarrow> p \<in> set (concat (map (\<lambda>i. map (g i) (js i)) is))"
  by auto

lemma rect_points_iff: "(px, py) \<in> set (rect_points x y w h) \<longleftrightarrow> px - x < w \<and> py - y < h"
proof
  assume "(px, py) \<in> set (rect_points x y w h)"
  then obtain i j where ij: "i < unat h" "j < unat w" "px = x + of_nat j" "py = y + of_nat i"
    by (auto simp: rect_points_def)
  have "i < 2 ^ 32" "j < 2 ^ 32" using ij(1,2) unat_bound32 [of h] unat_bound32 [of w] by simp_all
  then show "px - x < w \<and> py - y < h" using ij by (simp add: word_less_nat_alt unat_of_nat32)
next
  assume "px - x < w \<and> py - y < h"
  then have "unat (py - y) < unat h" "unat (px - x) < unat w" by (simp_all add: word_less_nat_alt)
  moreover have "px = x + of_nat (unat (px - x))" "py = y + of_nat (unat (py - y))" by simp_all
  ultimately show "(px, py) \<in> set (rect_points x y w h)" unfolding rect_points_def
    by (intro pointsI [of "unat (py - y)" _ "unat (px - x)"]) auto
qed

lemma glyph_points_iff:
  "(px, py) \<in> set (glyph_points x y c) \<longleftrightarrow> px - x < 8 \<and> py - y < 8 \<and>
     bit (font8x8_basic ! unat c ! unat (py - y)) (unat (px - x))"
proof
  assume "(px, py) \<in> set (glyph_points x y c)"
  then obtain i j where ij: "i < 8" "j < 8" "bit (font8x8_basic ! unat c ! i) j"
      "px = x + of_nat j" "py = y + of_nat i"
    by (auto simp: glyph_points_def)
  then have "unat (px - x) = j" "unat (py - y) = i" by (simp_all add: unat_of_nat32)
  then show "px - x < 8 \<and> py - y < 8 \<and> bit (font8x8_basic ! unat c ! unat (py - y)) (unat (px - x))"
    using ij by (simp add: word_less_nat_alt)
next
  assume r: "px - x < 8 \<and> py - y < 8 \<and> bit (font8x8_basic ! unat c ! unat (py - y)) (unat (px - x))"
  then have "unat (py - y) < 8" "unat (px - x) < 8" by (simp_all add: word_less_nat_alt)
  moreover have "px = x + of_nat (unat (px - x))" "py = y + of_nat (unat (py - y))" by simp_all
  ultimately show "(px, py) \<in> set (glyph_points x y c)"
    using r unfolding glyph_points_def
    by (intro pointsI [of "unat (py - y)" _ "unat (px - x)"]) (auto simp del: upt_rec_numeral)
qed

section \<open>Formatted output is always defined\<close>

lemma EarlyLog_plain: "37 \<notin> set fmt \<Longrightarrow> EarlyLog fmt args s = Some (Stdout fmt s)"
  by (induction fmt arbitrary: s) auto

text \<open>What drawing and logging can change: memory and the two cursors.\<close>

definition gd_only :: "'a gd_state_scheme \<Rightarrow> 'a gd_state_scheme \<Rightarrow> bool" where
  "gd_only s s' \<longleftrightarrow> (\<exists>m cx cy l. s' = s\<lparr>mem := m, con_x := cx, con_y := cy, gdl_log := l\<rparr>)"

lemma gd_only_refl [intro]: "gd_only s s"
proof -
  have "s = s\<lparr>mem := mem s, con_x := con_x s, con_y := con_y s, gdl_log := gdl_log s\<rparr>" by simp
  then show ?thesis unfolding gd_only_def by blast
qed

lemma gd_only_trans: "gd_only s t \<Longrightarrow> gd_only t u \<Longrightarrow> gd_only s u"
  unfolding gd_only_def by (elim exE) (simp, blast)

lemma gd_only_mem: "gd_only s (s\<lparr>mem := m\<rparr>)"
proof -
  have "s\<lparr>mem := m\<rparr> = s\<lparr>mem := m, con_x := con_x s, con_y := con_y s, gdl_log := gdl_log s\<rparr>" by simp
  then show ?thesis unfolding gd_only_def by blast
qed

lemma gd_only_log: "gd_only s (set_log_x v s)" "gd_only s (set_log_y v s)"
proof -
  have "s\<lparr>gdl_log := l\<rparr> = s\<lparr>mem := mem s, con_x := con_x s, con_y := con_y s, gdl_log := l\<rparr>" for l by simp
  then have "gd_only s (s\<lparr>gdl_log := l\<rparr>)" for l unfolding gd_only_def by blast
  then show "gd_only s (set_log_x v s)" "gd_only s (set_log_y v s)"
    by (simp_all add: set_log_x_def set_log_y_def)
qed

lemma gd_only_Stdout: "gd_only s (Stdout cs s)"
proof -
  have "Stdout cs s = s\<lparr>mem := mem (Stdout cs s), con_x := con_x (Stdout cs s), con_y := con_y (Stdout cs s),
      gdl_log := gdl_log s\<rparr>"
    by (subst Stdout_update) (simp add: con_update_def)
  then show ?thesis unfolding gd_only_def by blast
qed

lemma gd_only_plot: "gd_only s (plot ps color s)"
  by (subst plot_mem) (rule gd_only_mem)

lemma gd_only_char: "gd_only s (draw_char x y c color s)"
  by (auto simp: draw_char_plot intro: gd_only_plot)

text \<open>A drawing step that always succeeds and keeps everything else.\<close>

definition draws :: "('a gd_state_scheme \<Rightarrow> 'a gd_state_scheme option) \<Rightarrow> bool" where
  "draws f \<longleftrightarrow> (\<forall>s. \<exists>s'. f s = Some s' \<and> gd_only s s')"

lemma drawsD: "draws f \<Longrightarrow> \<exists>s'. f s = Some s' \<and> gd_only s s'"
  by (simp add: draws_def)

lemma draws_bind: "draws f \<Longrightarrow> draws g \<Longrightarrow> draws (\<lambda>s. Option.bind (f s) g)"
  unfolding draws_def by (metis bind.bind_lunit gd_only_trans)

lemma draws_for_each: "(\<And>x. draws (f x)) \<Longrightarrow> draws (for_each f xs)"
proof (induction xs)
  case Nil
  show ?case by (auto simp: draws_def)
next
  case (Cons x xs)
  then show ?case using draws_bind [of "f x" "for_each f xs"] by (simp add: draws_def)
qed

lemma draws_rect: "draws (draw_rect x y w h color)"
  unfolding draws_def
proof
  fix s :: "'a gd_state_scheme"
  show "\<exists>s'. draw_rect x y w h color s = Some s' \<and> gd_only s s'"
  proof (cases "gd_ok s = 0")
    case True
    have "37 \<notin> set (bytes ''GD is not initialized\<newline>'')" by (simp add: bytes_def chr_def)
    then show ?thesis using True by (auto simp: draw_rect_def EarlyLog_plain gd_only_Stdout)
  next
    case False
    then show ?thesis using draw_rect_plot gd_only_plot by blast
  qed
qed

lemma draws_scroll: "draws (scroll_screen pixels)"
  unfolding draws_def scroll_screen_def Let_def
proof
  fix s :: "'a gd_state_scheme"
  let ?f = "fb_info s" and ?n = "fb_pitch (fb_info s) * ucast (fb_bpp (fb_info s) div 8)"
  let ?m = "memmove (mem s) (fb_addr ?f) (fb_addr ?f + pixels * ?n) ((fb_height ?f - pixels) * ?n)"
  obtain t where t: "draw_rect 0 (fb_height ?f - pixels) (fb_width ?f) pixels 0 (s\<lparr>mem := ?m\<rparr>) = Some t"
    and o: "gd_only (s\<lparr>mem := ?m\<rparr>) t"
    using drawsD [OF draws_rect] by blast
  have "gd_only s t" by (rule gd_only_trans [OF gd_only_mem o])
  then have "\<exists>s'. Some t = Some s' \<and> gd_only s s'" by blast
  then show "\<exists>s'. draw_rect 0 (fb_height (fb_info (s\<lparr>mem := ?m\<rparr>)) - pixels) (fb_width (fb_info (s\<lparr>mem := ?m\<rparr>)))
      pixels 0 (s\<lparr>mem := ?m\<rparr>) = Some s' \<and> gd_only s s'"
    unfolding t [symmetric] by simp
qed

lemma gd_only_wrap: "gd_only s (wrap_line s)"
  unfolding wrap_line_def Let_def by (rule gd_only_trans [OF gd_only_log(1) gd_only_log(2)])

lemma draws_new_line: "draws new_line"
  unfolding draws_def
proof
  fix s :: "'a gd_state_scheme"
  obtain t where t: "scroll_screen 8 (wrap_line s) = Some t" "gd_only (wrap_line s) t"
    using drawsD [OF draws_scroll] by blast
  have "gd_only s (set_log_y (log_y t - 8) t)"
    by (rule gd_only_trans [OF gd_only_wrap gd_only_trans [OF t(2) gd_only_log(2)]])
  then show "\<exists>s'. new_line s = Some s' \<and> gd_only s s'"
    using t(1) gd_only_wrap [of s] by (simp add: new_line_def Let_def)
qed

lemma draws_if_wrap: "gd_only s (if b then wrap_line s else s)"
  using gd_only_wrap by auto

lemma draws_putchar: "draws (gdl_putchar c)"
  unfolding draws_def
proof
  fix s :: "'a gd_state_scheme"
  let ?s = "draw_char (log_x s) (log_y s) c (gdl_color (gdl_log s)) s"
  have o: "gd_only s (set_log_x (log_x ?s + 8) ?s)" by (rule gd_only_trans [OF gd_only_char gd_only_log(1)])
  obtain t where t: "new_line (set_log_x (log_x ?s + 8) ?s) = Some t" "gd_only (set_log_x (log_x ?s + 8) ?s) t"
    using drawsD [OF draws_new_line] by blast
  show "\<exists>s'. gdl_putchar c s = Some s' \<and> gd_only s s'"
    using drawsD [OF draws_new_line, of s] o t(1) gd_only_trans [OF o t(2)]
    by (auto simp: gdl_putchar_def Let_def)
qed

lemma draws_puts: "draws (gdl_puts cs)"
  unfolding gdl_puts_def by (intro draws_for_each draws_putchar)

lemma draws_print_char: "draws (gdl_print_char color c)"
  unfolding draws_def
proof
  fix s :: "'a gd_state_scheme"
  let ?s = "draw_char (log_x s) (log_y s) c color s"
  have "gd_only s (set_log_x (log_x ?s + 8) ?s)" by (rule gd_only_trans [OF gd_only_char gd_only_log(1)])
  from gd_only_trans [OF this draws_if_wrap]
  show "\<exists>s'. gdl_print_char color c s = Some s' \<and> gd_only s s'"
    using drawsD [OF draws_new_line, of s] by (auto simp: gdl_print_char_def Let_def)
qed

lemma draws_print_color: "draws (gdl_print_color str color)"
  unfolding gdl_print_color_def by (intro draws_for_each draws_print_char)

lemma draws_kDebug_char:
  fixes fmt :: "u8 list" and args :: "varg list"
  assumes c: "c \<noteq> 37" and "draws (kDebug fmt args :: 'a gd_state_scheme \<Rightarrow> _)"
  shows "draws (kDebug (c # fmt) args :: 'a gd_state_scheme \<Rightarrow> _)"
  unfolding draws_def
proof
  fix s :: "'a gd_state_scheme"
  have k: "\<exists>s'. kDebug fmt args s = Some s' \<and> gd_only s s'" for s :: "'a gd_state_scheme"
    using assms(2) by (rule drawsD)
  obtain t where t: "(if c = 10 then new_line s else gdl_putchar c s) = Some t" "gd_only s t"
    using drawsD [OF draws_new_line, of s] drawsD [OF draws_putchar, of c s] by (cases "c = 10") auto
  let ?t = "set_log_x (log_x t + 8) t"
  let ?u = "if log_x ?t + 8 > fb_width (fb_info ?t) then wrap_line ?t else ?t"
  have u: "gd_only s ?u"
    by (rule gd_only_trans [OF t(2) gd_only_trans [OF gd_only_log(1) draws_if_wrap]])
  obtain v where v: "kDebug fmt args t = Some v" "gd_only t v" using k by blast
  obtain w where w: "kDebug fmt args ?u = Some w" "gd_only ?u w" using k by blast
  show "\<exists>s'. kDebug (c # fmt) args s = Some s' \<and> gd_only s s'"
    using c t v w gd_only_trans [OF t(2) v(2)] gd_only_trans [OF u w(2)]
    by (cases "c = 10") (simp_all add: Let_def)
qed

lemma draws_kDebug_plain: "37 \<notin> set fmt \<Longrightarrow> draws (kDebug fmt args)"
proof (induction fmt)
  case Nil
  show ?case by (auto simp: draws_def)
next
  case (Cons c fmt)
  then show ?case by (simp add: draws_kDebug_char del: kDebug.simps)
qed

lemma draws_kDebug_str: "37 \<notin> set fmt \<Longrightarrow> draws (kDebug (fmt @ [37, 115]) [VStr str])"
proof (induction fmt)
  case Nil
  have "kDebug ([] @ [37, 115]) [VStr str] s = Option.bind (gdl_puts str s) Some" for s :: "'a gd_state_scheme"
    by (simp add: fun_eq_iff cong: Option.bind_cong)
  then show ?case using draws_puts [of str] by (simp add: draws_def)
next
  case (Cons c fmt)
  then show ?case by (simp add: draws_kDebug_char del: kDebug.simps)
qed

lemma draws_INFO: "draws (INFO str)"
proof -
  have "bytes ''[INFO] %s'' = bytes ''[INFO] '' @ [37, 115]" by (simp add: bytes_def chr_def)
  moreover have "37 \<notin> set (bytes ''[INFO] '')" by (simp add: bytes_def chr_def)
  ultimately show ?thesis unfolding INFO_def using draws_kDebug_str by metis
qed

lemma gd_only_fields:
  "gd_only s s' \<Longrightarrow> fb_info s' = fb_info s \<and> gd_ok s' = gd_ok s \<and> kernel_page_dir s' = kernel_page_dir s \<and>
     kernel_page_dir_phys s' = kernel_page_dir_phys s \<and> iolog s' = iolog s \<and> dev8 s' = dev8 s \<and> dev32 s' = dev32 s"
  by (auto simp: gd_only_def)

lemma itoa_hex_defined: "\<exists>buf. itoa (sint (v :: u32)) 16 = Some buf"
proof (cases "0 \<le> sint v")
  case True
  then show ?thesis by (simp add: itoa_unsigned)
next
  case False
  then have "sint v < 0" by simp
  from itoa_loop_negative [OF this, of "[]"] show ?thesis by (auto simp: itoa_def)
qed

lemma itoa_byte_defined: "\<exists>buf. itoa (sint (ucast (b :: u8) :: u32)) 10 = Some buf"
proof -
  have "sint (ucast b :: u32) = uint b"
    using uint_lt2p [of b] by (simp add: sint_uint unsigned_ucast_eq take_bit_int_eq_self) (rule signed_take_bit_int_eq_self, rule order_trans [OF _ uint_nonnegative], simp_all)
  then show ?thesis by (simp add: itoa_unsigned)
qed

lemma EarlyLog_defined: "\<exists>out. render fmt args = Some out \<Longrightarrow> \<exists>s'. EarlyLog fmt args s = Some s' \<and> gd_only s s'"
  using gd_only_Stdout by (fastforce simp: EarlyLog_renders)

lemma gd_messages:
  "\<exists>out. render (bytes ''GD: Error! The magic is invalid! Got: 0x%x\<newline>'') [VInt v] = Some out"
  "\<exists>out. render (bytes ''GD: Error! No framebuffer (flags: 0x%x)\<newline>'') [VInt v] = Some out"
  "\<exists>out. render (bytes ''GD: Error! Framebuffer type is not RGB (type=%d)\<newline>'') [VInt (ucast (b :: u8))] = Some out"
  "\<exists>out. render (bytes ''GD: Error! Invalid dimensions\<newline>'') [] = Some out"
  "\<exists>out. render (bytes ''GD: Warning! BPP is %d (expected 16, 24 or 32)\<newline>'') [VInt (ucast (b :: u8))] = Some out"
  "\<exists>out. render (bytes ''GD: Error! Framebuffer address is NULL\<newline>'') [] = Some out"
  "\<exists>out. render (bytes ''GD Failed to get framebuffer\<newline>'') [] = Some out"
  using itoa_hex_defined [of v] itoa_byte_defined [of b]
  by (auto simp: bytes_def chr_def takes_arg_def fmt_arg_def)

section \<open>Initialisation\<close>

definition mb_framebuffer :: "memory \<Rightarrow> u32 \<Rightarrow> gd_framebuffer" where
  "mb_framebuffer m mbd =
     \<lparr>fb_addr = ucast (mb_framebuffer_addr m mbd), fb_width = mb_framebuffer_width m mbd,
      fb_height = mb_framebuffer_height m mbd, fb_pitch = mb_framebuffer_pitch m mbd,
      fb_bpp = mb_framebuffer_bpp m mbd, fb_type = mb_framebuffer_type m mbd\<rparr>"

definition fb_described :: "memory \<Rightarrow> u32 \<Rightarrow> u32 \<Rightarrow> bool" where
  "fb_described m mbd magic \<longleftrightarrow> magic = MULTIBOOT_BOOTLOADER_MAGIC \<and> mb_flags m mbd AND push_bit 12 1 \<noteq> 0 \<and>
     fb_type (mb_framebuffer m mbd) \<in> {1, 2} \<and> fb_width (mb_framebuffer m mbd) \<noteq> 0 \<and>
     fb_height (mb_framebuffer m mbd) \<noteq> 0 \<and> fb_addr (mb_framebuffer m mbd) \<noteq> 0"

lemma check_framebuffer_result:
  "\<exists>r s'. check_framebuffer s = Some (r, s') \<and> gd_only s s' \<and>
     (r = GSUCCESS \<longleftrightarrow> fb_width (fb_info s) \<noteq> 0 \<and> fb_height (fb_info s) \<noteq> 0 \<and> fb_addr (fb_info s) \<noteq> 0)"
proof (cases "fb_width (fb_info s) = 0 \<or> fb_height (fb_info s) = 0")
  case True
  then show ?thesis using EarlyLog_defined [OF gd_messages(4), of s] by (auto simp: check_framebuffer_def)
next
  case False
  obtain v where v: "(if fb_bpp (fb_info s) \<noteq> 32 \<and> fb_bpp (fb_info s) \<noteq> 24 \<and> fb_bpp (fb_info s) \<noteq> 16
      then EarlyLog (bytes ''GD: Warning! BPP is %d (expected 16, 24 or 32)\<newline>'') [VInt (ucast (fb_bpp (fb_info s)))] s
      else Some s) = Some v" "gd_only s v"
    using EarlyLog_defined [OF gd_messages(5), of "fb_bpp (fb_info s)" s] gd_only_refl [of s]
    by (cases "fb_bpp (fb_info s) \<noteq> 32 \<and> fb_bpp (fb_info s) \<noteq> 24 \<and> fb_bpp (fb_info s) \<noteq> 16")
      (simp_all, blast)
  obtain w where w: "EarlyLog (bytes ''GD: Error! Framebuffer address is NULL\<newline>'') [] v = Some w" "gd_only v w"
    using EarlyLog_defined [OF gd_messages(6)] by blast
  have "check_framebuffer s = Some (if fb_addr (fb_info s) = 0 then (GERROR, w) else (GSUCCESS, v))"
    unfolding check_framebuffer_def v(1) using False w(1) gd_only_fields [OF v(2)] by simp
  then show ?thesis using False v(2) gd_only_trans [OF v(2) w(2)] by simp
qed

lemma fb_record: "f\<lparr>fb_type := t, fb_addr := a, fb_width := w, fb_height := h, fb_pitch := p, fb_bpp := b\<rparr> =
    \<lparr>fb_addr = a, fb_width = w, fb_height = h, fb_pitch = p, fb_bpp = b, fb_type = t\<rparr>"
  by (cases f) simp

lemma get_framebuffer_result:
  "\<exists>r s' f. get_framebuffer mbd magic s = Some (r, s') \<and> gd_only (s\<lparr>fb_info := f\<rparr>) s' \<and>
     (if fb_described (mem s) mbd magic then r = GSUCCESS \<and> f = mb_framebuffer (mem s) mbd else r = GERROR)"
proof -
  let ?f = "mb_framebuffer (mem s) mbd" and ?M = "MULTIBOOT_BOOTLOADER_MAGIC"
  consider "magic \<noteq> ?M" | "magic = ?M" "mb_flags (mem s) mbd AND push_bit 12 1 = 0"
    | "magic = ?M" "mb_flags (mem s) mbd AND push_bit 12 1 \<noteq> 0" "fb_type ?f \<notin> {1, 2}"
    | "magic = ?M" "mb_flags (mem s) mbd AND push_bit 12 1 \<noteq> 0" "fb_type ?f \<in> {1, 2}" by blast
  then show ?thesis
  proof cases
    case 1
    obtain t where "EarlyLog (bytes ''GD: Error! The magic is invalid! Got: 0x%x\<newline>'') [VInt magic] s = Some t"
      "gd_only s t" using EarlyLog_defined [OF gd_messages(1)] by blast
    then show ?thesis using 1
      by (intro exI [of _ GERROR] exI [of _ t] exI [of _ "fb_info s"]) (simp add: get_framebuffer_def fb_described_def)
  next
    case 2
    obtain t where "EarlyLog (bytes ''GD: Error! No framebuffer (flags: 0x%x)\<newline>'')
        [VInt (mb_flags (mem s) mbd)] s = Some t" "gd_only s t" using EarlyLog_defined [OF gd_messages(2)] by blast
    then show ?thesis using 2
      by (intro exI [of _ GERROR] exI [of _ t] exI [of _ "fb_info s"]) (simp add: get_framebuffer_def fb_described_def)
  next
    case 3
    let ?g = "(fb_info s)\<lparr>fb_type := mb_framebuffer_type (mem s) mbd\<rparr>"
    obtain t where "EarlyLog (bytes ''GD: Error! Framebuffer type is not RGB (type=%d)\<newline>'')
        [VInt (ucast (mb_framebuffer_type (mem s) mbd))] (s\<lparr>fb_info := ?g\<rparr>) = Some t" "gd_only (s\<lparr>fb_info := ?g\<rparr>) t"
      using EarlyLog_defined [OF gd_messages(3)] by blast
    then show ?thesis using 3
      by (intro exI [of _ GERROR] exI [of _ t] exI [of _ ?g])
        (simp add: get_framebuffer_def fb_described_def mb_framebuffer_def)
  next
    case 4
    then have "get_framebuffer mbd magic s = check_framebuffer (s\<lparr>fb_info := ?f\<rparr>)"
      by (auto simp: get_framebuffer_def mb_framebuffer_def fb_record Let_def)
    then show ?thesis
      using 4 check_framebuffer_result [of "s\<lparr>fb_info := ?f\<rparr>"] unfolding fb_described_def
      by (cases "fb_width ?f \<noteq> 0 \<and> fb_height ?f \<noteq> 0 \<and> fb_addr ?f \<noteq> 0") (auto, (metis GD_STATUS.exhaust)+)
  qed
qed

lemma map_framebuffer_mem: "\<exists>m. map_framebuffer a n s = s\<lparr>mem := m\<rparr>"
proof -
  have "\<exists>m. fold (\<lambda>x s. map_page pd x x flags s) xs s = s\<lparr>mem := m\<rparr>" for pd flags xs and s :: "'a paging_state_scheme"
  proof (induction xs arbitrary: s)
    case (Cons x xs)
    obtain m where "map_page pd x x flags s = s\<lparr>mem := m\<rparr>" using map_page_mem by blast
    then show ?case using Cons.IH [of "s\<lparr>mem := m\<rparr>"] by auto
  next
    case Nil
    have "s = s\<lparr>mem := mem s\<rparr>" by simp
    then show ?case by (auto simp only: fold.simps id_apply)
  qed
  then show ?thesis
    by (auto simp: map_framebuffer_def map_physical_region_def map_region_loop_fold Let_def)
qed

section \<open>Machine with a screen\<close>

definition gd0 :: "paging_state \<Rightarrow> gd_state" where
  "gd0 p = paging_state.extend p (gd_state.fields 0
     \<lparr>fb_addr = 0, fb_width = 0, fb_height = 0, fb_pitch = 0, fb_bpp = 0, fb_type = 0\<rparr>
     \<lparr>gdl_color = 0xFFFFFF, gdl_x = 0, gdl_y = 0\<rparr>)"

text \<open>1024 by 768 pixels of 32 bits at 0xFD000000.\<close>

definition xga :: gd_framebuffer where
  "xga = \<lparr>fb_addr = 0xFD000000, fb_width = 1024, fb_height = 768, fb_pitch = 4096, fb_bpp = 32, fb_type = 1\<rparr>"

definition screen :: gd_state where
  "screen = (gd0 paged)\<lparr>gd_ok := 1, fb_info := xga\<rparr>"

lemma screen_simps [simp]: "fb_info screen = xga" "gd_ok screen = 1"
  by (simp_all add: screen_def)

lemma xga_simps [simp]: "fb_addr xga = 0xFD000000" "fb_width xga = 1024" "fb_height xga = 768"
  "fb_pitch xga = 4096" "fb_bpp xga = 32" "fb_ok xga"
  by (simp_all add: xga_def fb_ok_def fb_bytes_def)

section \<open>Properties\<close>



text \<open>
  C24 (rectangles): on a 32-bit screen \<open>draw_rect\<close> gives the colour to exactly the
  pixels of the rectangle that are on the screen and leaves every other pixel alone;
  \<open>clear\<close> gives it to all of them.
\<close>

theorem draw_rect_fills:
  assumes "fb_ok (fb_info s)" "fb_bpp (fb_info s) = 32" "gd_ok s \<noteq> 0" "on_screen (fb_info s) px py"
  shows "(\<exists>s'. draw_rect x y w h color s = Some s' \<and>
      pixel32 s' px py = (if px - x < w \<and> py - y < h then color else pixel32 s px py)) \<and>
    (\<exists>s'. clear color s = Some s' \<and> pixel32 s' px py = color)"
  using assms plot_pixel32 [OF assms] draw_rect_plot [OF assms(3)]
  by (simp add: rect_points_iff clear_def on_screen_def)

theorem draw_rect_fills_witness:
  "\<exists>s'. draw_rect 100 50 20 10 0x00FF00 screen = Some s' \<and> pixel32 s' 119 59 = 0x00FF00"
  using draw_rect_fills [of screen 119 59 100 50 20 10 "0x00FF00"] by (auto simp: on_screen_def)

text \<open>
  C25 (characters): on a 32-bit screen \<open>draw_char\<close> gives the colour to exactly the
  pixels of the character's font bitmap, the least significant bit leftmost.
\<close>

theorem draw_char_paints_glyph:
  assumes "fb_ok (fb_info s)" "fb_bpp (fb_info s) = 32" "gd_ok s \<noteq> 0" "on_screen (fb_info s) px py" "c \<le> 127"
  shows "pixel32 (draw_char x y c color s) px py =
    (if px - x < 8 \<and> py - y < 8 \<and> bit (font8x8_basic ! unat c ! unat (py - y)) (unat (px - x))
     then color else pixel32 s px py)"
  using plot_pixel32 [OF assms(1-4)] assms(5) by (simp add: draw_char_plot glyph_points_iff flip: not_le)

theorem draw_char_paints_glyph_witness:
  "pixel32 (draw_char 0 0 65 0xFFFFFF screen) 2 0 = 0xFFFFFF"
  using draw_char_paints_glyph [of screen 2 0 65 0 0 "0xFFFFFF"]
  by (simp add: on_screen_def font8x8_basic_def)

text \<open>
  C40 (scrolling overruns the framebuffer): the line length \<open>scroll_screen\<close> computes
  multiplies the pitch, which is already in bytes, by the bytes per pixel.  On a
  32-bit screen the move reaches four times too far: the bytes that follow the
  framebuffer, up to \<open>4 * pitch * (height - 8)\<close>, are overwritten with those
  32 lines further on.
\<close>

theorem scroll_screen_overruns:
  assumes "fb_ok (fb_info s)" "fb_bpp (fb_info s) = 32" "gd_ok s \<noteq> 0" "8 \<le> unat (fb_height (fb_info s))"
    and "unat (fb_addr (fb_info s)) + 4 * fb_bytes (fb_info s) \<le> 2 ^ 32"
    and "fb_bytes (fb_info s) \<le> k" "k < 4 * unat (fb_pitch (fb_info s)) * (unat (fb_height (fb_info s)) - 8)"
  shows "\<exists>s'. scroll_screen 8 s = Some s' \<and>
    mem s' (fb_addr (fb_info s) + of_nat k) =
    mem s (fb_addr (fb_info s) + of_nat (k + 32 * unat (fb_pitch (fb_info s))))"
proof -
  let ?f = "fb_info s"
  let ?a = "fb_addr ?f" and ?p = "fb_pitch ?f" and ?h = "fb_height ?f"
  let ?n = "(?h - 8) * (?p * 4)"
  let ?m = "memmove (mem s) ?a (?a + 8 * (?p * 4)) ?n" and ?x = "?a + of_nat k"
  have h8: "unat (?h - 8) = unat ?h - 8" using assms(4) by (simp add: unat_sub word_le_nat_alt)
  have "0 < unat ?p" using assms(7) by (cases "unat ?p = 0") auto
  moreover have "unat ?h - 8 < unat ?h" using assms(4) by simp
  ultimately have "4 * unat ?p * (unat ?h - 8) < 4 * unat ?p * unat ?h" by (intro mult_strict_left_mono) simp_all
  also have "\<dots> = 4 * fb_bytes ?f" by (simp add: fb_bytes_def)
  finally have big: "4 * unat ?p * (unat ?h - 8) < 2 ^ 32" using assms(5) by linarith
  then have k32: "k < 2 ^ 32" using assms(7) by linarith
  have "?n = of_nat (4 * unat ?p * (unat ?h - 8))" unfolding h8 [symmetric] by simp
  then have "unat ?n = 4 * unat ?p * (unat ?h - 8)" using big by (simp only: unat_of_nat32)
  then have "?x \<in> span ?a (unat ?n)" using assms(7) k32 by (simp add: span_iff unat_of_nat32)
  then have m: "?m ?x = mem s (?a + of_nat (k + 32 * unat ?p))" by (simp add: memmove_def algebra_simps)
  have out: "?x \<notin> fb_region ?f" using assms(6) k32 by (simp add: fb_region_def span_iff unat_of_nat32)
  let ?s = "s\<lparr>mem := ?m\<rparr>"
  let ?t = "plot (rect_points 0 (?h - 8) (fb_width ?f) 8) 0 ?s"
  have run: "scroll_screen 8 s = Some ?t"
    using assms(2,3) draw_rect_plot [of ?s] by (simp add: scroll_screen_def Let_def)
  have "only_changes (fb_region ?f) ?m (mem ?t)" using plot_only [of ?s] assms(1) by simp
  from only_changesD [OF this out] show ?thesis using run m by auto
qed

theorem scroll_screen_overruns_witness:
  "\<exists>s'. scroll_screen 8 (screen\<lparr>fb_info := xga\<lparr>fb_addr := 0xE0000000\<rparr>\<rparr>) = Some s' \<and>
    mem s' 0xE0300000 = mem screen 0xE0320000"
  using scroll_screen_overruns [of "screen\<lparr>fb_info := xga\<lparr>fb_addr := 0xE0000000\<rparr>\<rparr>" "0x300000"]
  by (simp add: fb_ok_def fb_bytes_def screen_def)


end
