(* ===== verification/Pci.thy ===== *)
theory Pci
  imports Gd
begin

text \<open>
  The PCI scan, \<open>drivers/pci.c\<close>.  The configuration space is the machine's
  answer to 32-bit port reads.  \<open>checkBus\<close>, \<open>checkDev\<close> and
  \<open>checkFunction\<close> call each other; the recursion goes from bus to bus, so the
  first argument of \<open>checkBus\<close> bounds the depth of nested buses and
  \<open>None\<close> is a scan that goes deeper.
\<close>

section \<open>Configuration space\<close>

definition pci_config_addr :: "u8 \<Rightarrow> u8 \<Rightarrow> u8 \<Rightarrow> u8 \<Rightarrow> u32" where
  "pci_config_addr bus device func offset = (let
     lbus = ucast bus :: u32; ldevice = ucast device :: u32; lfunc = ucast func :: u32
   in (if lbus < 16 then 1 else 0) OR push_bit 11 ldevice OR push_bit 8 lfunc
        OR (ucast offset * 0xFC) OR 0x80000000)"

definition pciConfigReadWord :: "u8 \<Rightarrow> u8 \<Rightarrow> u8 \<Rightarrow> u8 \<Rightarrow> 'a hw_scheme \<Rightarrow> u16 \<times> 'a hw_scheme" where
  "pciConfigReadWord bus device func offset s = (let
     s = x86WriteL 0xCF8 (pci_config_addr bus device func offset) s;
     (v, s) = x86ReadL 0xCFC s
   in (ucast (drop_bit (unat ((offset AND 2) * 8)) v AND 0xFFFF), s))"

definition getVendorID :: "u8 \<Rightarrow> u8 \<Rightarrow> u8 \<Rightarrow> 'a hw_scheme \<Rightarrow> u16 \<times> 'a hw_scheme" where
  "getVendorID bus device func s = pciConfigReadWord bus device func 0x00 s"

definition getHeaderType :: "u8 \<Rightarrow> u8 \<Rightarrow> u8 \<Rightarrow> 'a hw_scheme \<Rightarrow> u8 \<times> 'a hw_scheme" where
  "getHeaderType bus device func s =
     (let (val, s) = pciConfigReadWord bus device func 0x0E s in (ucast (val AND 0xFF), s))"

definition getBaseClass :: "u8 \<Rightarrow> u8 \<Rightarrow> u8 \<Rightarrow> 'a hw_scheme \<Rightarrow> u8 \<times> 'a hw_scheme" where
  "getBaseClass bus device func s =
     (let (val, s) = pciConfigReadWord bus device func 0x0A s in (ucast (drop_bit 8 val), s))"

definition getSubClass :: "u8 \<Rightarrow> u8 \<Rightarrow> u8 \<Rightarrow> 'a hw_scheme \<Rightarrow> u8 \<times> 'a hw_scheme" where
  "getSubClass bus device func s =
     (let (val, s) = pciConfigReadWord bus device func 0x0A s in (ucast (val AND 0xFF), s))"

text \<open>The cast binds tighter than the shift: the low byte is shifted out.\<close>

definition getSecondaryBus :: "u8 \<Rightarrow> u8 \<Rightarrow> u8 \<Rightarrow> 'a hw_scheme \<Rightarrow> u8 \<times> 'a hw_scheme" where
  "getSecondaryBus bus device func s =
     (let (val, s) = pciConfigReadWord bus device func 0x18 s in (drop_bit 8 (ucast val), s))"

definition pciCheckVendor :: "u8 \<Rightarrow> u8 \<Rightarrow> 'a hw_scheme \<Rightarrow> u16 \<times> 'a hw_scheme" where
  "pciCheckVendor bus device s = pciConfigReadWord bus device 0 0 s"

section \<open>The scan\<close>

record pci_state = gd_state +
  headerType :: u8
  vendorID :: u16

definition checkFunction ::
  "(u8 \<Rightarrow> 'a pci_state_scheme \<Rightarrow> 'a pci_state_scheme option) \<Rightarrow>
   u8 \<Rightarrow> u8 \<Rightarrow> u8 \<Rightarrow> 'a pci_state_scheme \<Rightarrow> 'a pci_state_scheme option" where
  "checkFunction check_bus bus dev func s =
     (let (baseClass, s) = getBaseClass bus dev func s;
          (subClass, s) = getSubClass bus dev func s
      in if baseClass = 0x6 \<and> subClass = 0x4 then
           let (secondaryBus, s) = getSecondaryBus bus dev func s in check_bus secondaryBus s
         else Some s)"

text \<open>The functions 1 to 7 of a device, the second half of \<open>checkDev\<close>.\<close>

definition check_func ::
  "(u8 \<Rightarrow> 'a pci_state_scheme \<Rightarrow> 'a pci_state_scheme option) \<Rightarrow>
   u8 \<Rightarrow> u8 \<Rightarrow> u8 \<Rightarrow> 'a pci_state_scheme \<Rightarrow> 'a pci_state_scheme option" where
  "check_func check_bus bus dev func s =
     (let (v, s) = getVendorID bus dev func s
      in if v \<noteq> 0xFFFF then checkFunction check_bus bus dev func s else Some s)"

definition check_multi ::
  "(u8 \<Rightarrow> 'a pci_state_scheme \<Rightarrow> 'a pci_state_scheme option) \<Rightarrow>
   u8 \<Rightarrow> u8 \<Rightarrow> 'a pci_state_scheme \<Rightarrow> 'a pci_state_scheme option" where
  "check_multi check_bus bus dev s =
     (let (h, s) = getHeaderType bus dev 0 s;
          s = s\<lparr>headerType := h\<rparr>
      in if headerType s AND 0x80 \<noteq> 0
         then for_each (\<lambda>func. check_func check_bus bus dev (of_nat func)) [1..<8] s
         else Some s)"

definition checkDev ::
  "(u8 \<Rightarrow> 'a pci_state_scheme \<Rightarrow> 'a pci_state_scheme option) \<Rightarrow>
   u8 \<Rightarrow> u8 \<Rightarrow> 'a pci_state_scheme \<Rightarrow> 'a pci_state_scheme option" where
  "checkDev check_bus bus dev s =
     (let (v, s) = getVendorID bus dev 0 s;
          s = s\<lparr>vendorID := v\<rparr>
      in if vendorID s = 0xFFF then WARN ''devs does not exists!'' s
         else do {
           s \<leftarrow> checkFunction check_bus bus dev 0 s;
           check_multi check_bus bus dev s
         })"

primrec checkBus :: "nat \<Rightarrow> u8 \<Rightarrow> 'a pci_state_scheme \<Rightarrow> 'a pci_state_scheme option" where
  "checkBus 0 = (\<lambda>bus s. None)"
| "checkBus (Suc depth) = (\<lambda>bus. for_each (\<lambda>dev. checkDev (checkBus depth) bus (of_nat dev)) [0..<32])"

fun check_hosts :: "nat \<Rightarrow> nat list \<Rightarrow> 'a pci_state_scheme \<Rightarrow> 'a pci_state_scheme option" where
  "check_hosts depth [] s = Some s"
| "check_hosts depth (func # funcs) s =
     (let (v, s) = getVendorID 0 0 (of_nat func) s
      in if v = 0xFFFF then Some s
         else do { s \<leftarrow> checkBus depth (of_nat func) s; check_hosts depth funcs s })"

definition checkAllBuses :: "nat \<Rightarrow> 'a pci_state_scheme \<Rightarrow> 'a pci_state_scheme option" where
  "checkAllBuses depth s =
     (let (h, s) = getHeaderType 0 0 0 s;
          s = s\<lparr>headerType := h\<rparr>
      in if headerType s AND 0x80 = 0 then checkBus depth 0 s
         else check_hosts depth [0..<8] s)"

definition pcisub_init :: "nat \<Rightarrow> 'a pci_state_scheme \<Rightarrow> (int \<times> 'a pci_state_scheme) option" where
  "pcisub_init depth s = do { s \<leftarrow> checkAllBuses depth s; Some (0, s) }"

section \<open>Reading the configuration space\<close>

text \<open>
  Documented behaviour of configuration mechanism 1: a read of the data port right
  after a write of the address port answers from the addressed register.
\<close>

definition config_space :: "'a hw_scheme \<Rightarrow> (u32 \<Rightarrow> u32) \<Rightarrow> bool" where
  "config_space s cfg \<longleftrightarrow> (\<forall>log a. dev32 s (log @ [OutL 0xCF8 a]) 0xCFC = cfg a)"

definition config_word :: "(u32 \<Rightarrow> u32) \<Rightarrow> u8 \<Rightarrow> u8 \<Rightarrow> u8 \<Rightarrow> u8 \<Rightarrow> u16" where
  "config_word cfg bus device func offset =
     ucast (drop_bit (unat ((offset AND 2) * 8)) (cfg (pci_config_addr bus device func offset)) AND 0xFFFF)"

text \<open>What the scan may change: the port log, the console, memory and its two variables.\<close>

definition pci_only :: "'a pci_state_scheme \<Rightarrow> 'a pci_state_scheme \<Rightarrow> bool" where
  "pci_only s s' \<longleftrightarrow> (\<exists>m log cx cy h v. s' = s\<lparr>mem := m, iolog := log, con_x := cx, con_y := cy, headerType := h, vendorID := v\<rparr>)"

lemma pci_only_refl [simp]: "pci_only s s"
proof -
  have "s = s\<lparr>mem := mem s, iolog := iolog s, con_x := con_x s, con_y := con_y s, headerType := headerType s,
      vendorID := vendorID s\<rparr>" by simp
  then show ?thesis unfolding pci_only_def by blast
qed

lemma pci_only_trans: "pci_only s t \<Longrightarrow> pci_only t u \<Longrightarrow> pci_only s u"
  unfolding pci_only_def by (elim exE) (simp, blast)

lemma pci_only_config: "pci_only s t \<Longrightarrow> config_space t cfg = config_space s cfg"
  by (auto simp: pci_only_def config_space_def)

lemma pci_only_update:
  "pci_only s (s\<lparr>iolog := log\<rparr>)" "pci_only s (s\<lparr>headerType := h\<rparr>)" "pci_only s (s\<lparr>vendorID := v\<rparr>)"
proof -
  have "s\<lparr>iolog := log, headerType := h, vendorID := v\<rparr> = s\<lparr>mem := mem s, iolog := log, con_x := con_x s,
      con_y := con_y s, headerType := h, vendorID := v\<rparr>" for log h v by simp
  then have all: "pci_only s (s\<lparr>iolog := log, headerType := h, vendorID := v\<rparr>)" for log h v
    unfolding pci_only_def by blast
  show "pci_only s (s\<lparr>iolog := log\<rparr>)" using all [where log = log and h = "headerType s" and v = "vendorID s"] by simp
  show "pci_only s (s\<lparr>headerType := h\<rparr>)" using all [where log = "iolog s" and h = h and v = "vendorID s"] by simp
  show "pci_only s (s\<lparr>vendorID := v\<rparr>)" using all [where log = "iolog s" and h = "headerType s" and v = v] by simp
qed

lemma read_word:
  assumes "config_space s cfg"
  shows "\<exists>s'. pciConfigReadWord bus device func offset s = (config_word cfg bus device func offset, s') \<and> pci_only s s'"
  using assms pci_only_update(1) [of s]
  by (auto simp: pciConfigReadWord_def config_word_def config_space_def hw_io_defs)

lemma WARN_only: "\<exists>s'. WARN str s = Some s' \<and> pci_only s s'"
proof -
  have "37 \<notin> set (bytes ''[WARN] '')" by (simp add: bytes_def chr_def)
  then have w: "WARN str s = Some (Stdout (bytes ''[WARN] '') s)" by (simp add: WARN_def EarlyLog_plain)
  let ?t = "Stdout (bytes ''[WARN] '') s"
  have "?t = s\<lparr>mem := mem ?t, iolog := iolog s, con_x := con_x ?t, con_y := con_y ?t, headerType := headerType s,
      vendorID := vendorID s\<rparr>"
    by (subst Stdout_update) (simp add: con_update_def)
  then show ?thesis unfolding w pci_only_def by blast
qed

text \<open>A function of a device is a bridge when its class word, as the scan reads it, is 0604.\<close>

definition bridge :: "(u32 \<Rightarrow> u32) \<Rightarrow> u8 \<Rightarrow> u8 \<Rightarrow> u8 \<Rightarrow> bool" where
  "bridge cfg bus dev func \<longleftrightarrow> config_word cfg bus dev func 0x0A = 0x0604"

lemma class_word: "(ucast (drop_bit 8 w) :: u8) = 0x06 \<and> (ucast (w AND 0xFF) :: u8) = 0x04 \<longleftrightarrow> w = (0x0604 :: u16)"
proof
  have ff: "(0xFF :: u16) = mask 8" by (simp add: mask_eq_exp_minus_1)
  assume a: "(ucast (drop_bit 8 w) :: u8) = 0x06 \<and> (ucast (w AND 0xFF) :: u8) = 0x04"
  have "w = push_bit 8 (ucast (ucast (drop_bit 8 w) :: u8)) OR ucast (ucast (w AND 0xFF) :: u8)"
    unfolding ff by (rule bit_word_eqI) (auto simp: bit_simps)
  then show "w = 0x0604" using a by simp
qed simp

lemma checkFunction_result:
  assumes "config_space s cfg"
  shows "\<exists>t. pci_only s t \<and>
    checkFunction check_bus bus dev func s = (if bridge cfg bus dev func then check_bus 0 t else Some t)"
proof -
  obtain t where t: "pciConfigReadWord bus dev func 0x0A s = (config_word cfg bus dev func 0x0A, t)" "pci_only s t"
    using read_word [OF assms] by blast
  have ct: "config_space t cfg" using pci_only_config [OF t(2)] assms by simp
  obtain u where u: "pciConfigReadWord bus dev func 0x0A t = (config_word cfg bus dev func 0x0A, u)" "pci_only t u"
    using read_word [OF ct] by blast
  have cu: "config_space u cfg" using pci_only_config [OF u(2)] ct by simp
  obtain w where w: "pciConfigReadWord bus dev func 0x18 u = (config_word cfg bus dev func 0x18, w)" "pci_only u w"
    using read_word [OF cu] by blast
  have su: "pci_only s u" by (rule pci_only_trans [OF t(2) u(2)])
  have z: "drop_bit 8 (v :: u8) = 0" for v by (rule bit_word_eqI) (auto simp: bit_simps dest: bit_imp_le_length)
  let ?w = "config_word cfg bus dev func 0x0A"
  have run: "checkFunction check_bus bus dev func s =
      (if (ucast (drop_bit 8 ?w) :: u8) = 0x06 \<and> (ucast (?w AND 0xFF) :: u8) = 0x04 then check_bus 0 w else Some u)"
    by (simp add: checkFunction_def getBaseClass_def getSubClass_def getSecondaryBus_def t u w z Let_def)
  show ?thesis unfolding run class_word bridge_def
    using su pci_only_trans [OF su w(2)] by auto
qed

text \<open>A visit that returns and changes only what a scan may change.\<close>

definition visits :: "(u32 \<Rightarrow> u32) \<Rightarrow> ('a pci_state_scheme \<Rightarrow> 'a pci_state_scheme option) \<Rightarrow> bool" where
  "visits cfg f \<longleftrightarrow> (\<forall>s. config_space s cfg \<longrightarrow> (\<exists>t. f s = Some t \<and> pci_only s t))"

lemma visitsD: "visits cfg f \<Longrightarrow> config_space s cfg \<Longrightarrow> \<exists>t. f s = Some t \<and> pci_only s t \<and> config_space t cfg"
  unfolding visits_def using pci_only_config by blast

lemma visits_for_each:
  fixes f :: "'b \<Rightarrow> 'a pci_state_scheme \<Rightarrow> 'a pci_state_scheme option"
  shows "(\<And>x. x \<in> set xs \<Longrightarrow> visits cfg (f x)) \<Longrightarrow> visits cfg (for_each f xs)"
proof (induction xs)
  case Nil
  show ?case by (simp add: visits_def)
next
  case (Cons x xs)
  show ?case unfolding visits_def
  proof (intro allI impI)
    fix s :: "'a pci_state_scheme" assume c: "config_space s cfg"
    obtain t where t: "f x s = Some t" "pci_only s t" "config_space t cfg"
      using visitsD [OF Cons.prems c, of x] by auto
    obtain u where "for_each f xs t = Some u" "pci_only t u"
      using visitsD [OF Cons.IH t(3)] Cons.prems by auto
    then show "\<exists>t. for_each f (x # xs) s = Some t \<and> pci_only s t" using t pci_only_trans by auto
  qed
qed

text \<open>A step of a list that never returns.\<close>

lemma for_each_stuck:
  assumes "y \<in> set xs" "\<And>s. config_space s cfg \<Longrightarrow> f y s = None"
    and "\<And>x s t. f x s = Some t \<Longrightarrow> config_space s cfg \<Longrightarrow> config_space t cfg"
  shows "config_space s cfg \<Longrightarrow> for_each f xs s = None"
  using assms(1)
proof (induction xs arbitrary: s)
  case (Cons x xs)
  show ?case
  proof (cases "f x s")
    case (Some t)
    then have "x \<noteq> y" using assms(2) [OF Cons.prems(1)] by auto
    then show ?thesis using Cons.IH [OF assms(3) [OF Some Cons.prems(1)]] Cons.prems(2) Some by auto
  qed simp
qed simp

section \<open>Scans that return\<close>

lemma visits_function: "\<not> bridge cfg bus dev func \<Longrightarrow> visits cfg (checkFunction cb bus dev func)"
  unfolding visits_def using checkFunction_result [of _ cfg cb bus dev func] by fastforce

lemma visits_func:
  assumes "\<not> bridge cfg bus dev func"
  shows "visits cfg (check_func cb bus dev func)"
  unfolding visits_def
proof (intro allI impI)
  fix s :: "'a pci_state_scheme" assume c: "config_space s cfg"
  obtain t where t: "getVendorID bus dev func s = (config_word cfg bus dev func 0, t)" "pci_only s t"
    using read_word [OF c, of bus dev func 0] unfolding getVendorID_def by blast
  then have "config_space t cfg" using pci_only_config [OF t(2)] c by simp
  from visitsD [OF visits_function [OF assms] this, of cb] show "\<exists>t. check_func cb bus dev func s = Some t \<and> pci_only s t"
    using t pci_only_trans [OF t(2)] by (auto simp: check_func_def)
qed

lemma header_read:
  assumes "config_space s cfg"
  shows "\<exists>t. pci_only s t \<and> (let (h, s) = getHeaderType bus dev func s in f (s\<lparr>headerType := h\<rparr>)) = f t \<and>
    headerType t = ucast (config_word cfg bus dev func 0x0E AND 0xFF)"
proof -
  obtain t where t: "pciConfigReadWord bus dev func 0x0E s = (config_word cfg bus dev func 0x0E, t)" "pci_only s t"
    using read_word [OF assms] by blast
  show ?thesis using t pci_only_trans [OF t(2) pci_only_update(2)]
    by (intro exI [of _ "t\<lparr>headerType := ucast (config_word cfg bus dev func 0x0E AND 0xFF)\<rparr>"])
      (simp add: getHeaderType_def)
qed

lemma host_controller:
  assumes "config_space s cfg"
  shows "\<exists>t. pci_only s t \<and> (\<forall>depth. checkAllBuses depth s =
    (if headerType t AND 0x80 = 0 then checkBus depth 0 t else check_hosts depth [0..<8] t))"
proof -
  let ?w = "config_word cfg 0 0 0 0x0E"
  obtain t where t: "pciConfigReadWord 0 0 0 0x0E s = (?w, t)" "pci_only s t"
    using read_word [OF assms] by blast
  show ?thesis using t pci_only_trans [OF t(2) pci_only_update(2)]
    by (intro exI [of _ "t\<lparr>headerType := ucast (?w AND 0xFF)\<rparr>"])
      (simp add: checkAllBuses_def getHeaderType_def del: upt_rec_numeral)
qed

lemma visits_multi:
  assumes "\<And>func. func < 8 \<Longrightarrow> \<not> bridge cfg bus dev (of_nat func)"
  shows "visits cfg (check_multi cb bus dev :: 'a pci_state_scheme \<Rightarrow> _)"
  unfolding visits_def
proof (intro allI impI)
  fix s :: "'a pci_state_scheme" assume c: "config_space s cfg"
  let ?loop = "for_each (\<lambda>func. check_func cb bus dev (of_nat func)) [1..<8] :: 'a pci_state_scheme \<Rightarrow> _"
  have loop: "visits cfg ?loop" using assms by (intro visits_for_each visits_func) auto
  obtain t where t: "pci_only s t" "check_multi cb bus dev s = (if headerType t AND 0x80 \<noteq> 0 then ?loop t else Some t)"
    using header_read [OF c, of bus dev 0 "\<lambda>s. if headerType s AND 0x80 \<noteq> 0 then ?loop s else Some s"]
    by (auto simp: check_multi_def Let_def)
  then have "config_space t cfg" using pci_only_config c by blast
  from visitsD [OF loop this] show "\<exists>t. check_multi cb bus dev s = Some t \<and> pci_only s t"
    using t pci_only_trans [OF t(1)] by auto
qed

lemma vendor_read:
  assumes "config_space s cfg"
  shows "\<exists>t. pci_only s t \<and> config_space t cfg \<and> checkDev cb bus dev s =
    (if config_word cfg bus dev 0 0 = 0xFFF then WARN ''devs does not exists!'' t
     else Option.bind (checkFunction cb bus dev 0 t) (check_multi cb bus dev))"
proof -
  obtain t where t: "pciConfigReadWord bus dev 0 0 s = (config_word cfg bus dev 0 0, t)" "pci_only s t"
    using read_word [OF assms] by blast
  have "pci_only s (t\<lparr>vendorID := config_word cfg bus dev 0 0\<rparr>)"
    by (rule pci_only_trans [OF t(2) pci_only_update(3)])
  then show ?thesis using t(1) pci_only_config assms
    by (intro exI [of _ "t\<lparr>vendorID := config_word cfg bus dev 0 0\<rparr>"])
      (auto simp: checkDev_def getVendorID_def)
qed

lemma visits_dev:
  assumes "\<And>func. func < 8 \<Longrightarrow> \<not> bridge cfg bus dev (of_nat func)"
  shows "visits cfg (checkDev cb bus dev :: 'a pci_state_scheme \<Rightarrow> _)"
  unfolding visits_def
proof (intro allI impI)
  fix s :: "'a pci_state_scheme" assume "config_space s cfg"
  from vendor_read [OF this] obtain t where t: "pci_only s t" "config_space t cfg" "checkDev cb bus dev s =
    (if config_word cfg bus dev 0 0 = 0xFFF then WARN ''devs does not exists!'' t
     else Option.bind (checkFunction cb bus dev 0 t) (check_multi cb bus dev))" by blast
  have "\<not> bridge cfg bus dev 0" using assms [of 0] by simp
  from visitsD [OF visits_function [OF this] t(2), of cb] obtain u where
    u: "checkFunction cb bus dev 0 t = Some u" "pci_only t u" "config_space u cfg" by blast
  obtain v where v: "check_multi cb bus dev u = Some v" "pci_only u v"
    using visitsD [OF visits_multi [OF assms] u(3)] by blast
  show "\<exists>t. checkDev cb bus dev s = Some t \<and> pci_only s t"
    using WARN_only [of "''devs does not exists!''" t] u v t pci_only_trans [OF t(1)] pci_only_trans [OF u(2) v(2)]
    by auto
qed

lemma visits_bus:
  assumes "\<And>dev func. dev < 32 \<Longrightarrow> func < 8 \<Longrightarrow> \<not> bridge cfg bus (of_nat dev) (of_nat func)"
  shows "visits cfg (checkBus (Suc depth) bus)"
  using assms by (auto intro!: visits_for_each visits_dev)

section \<open>Scans that do not return\<close>

definition keeps_devices :: "('a pci_state_scheme \<Rightarrow> 'a pci_state_scheme option) \<Rightarrow> bool" where
  "keeps_devices f \<longleftrightarrow> (\<forall>s t. f s = Some t \<longrightarrow> dev32 t = dev32 s)"

lemma read_keeps_devices: "pciConfigReadWord bus dev func offset s = (v, t) \<Longrightarrow> dev32 t = dev32 s"
  by (auto simp: pciConfigReadWord_def hw_io_defs)

lemma keeps_devicesD: "keeps_devices f \<Longrightarrow> f s = Some t \<Longrightarrow> dev32 t = dev32 s"
  by (simp add: keeps_devices_def)

lemma keeps_for_each: "(\<And>x. keeps_devices (f x)) \<Longrightarrow> keeps_devices (for_each f xs)"
proof (induction xs)
  case (Cons x xs)
  then show ?case by (fastforce simp: keeps_devices_def bind_eq_Some_conv)
qed (simp add: keeps_devices_def)

lemma keeps_function:
  assumes "\<And>b. keeps_devices (cb b)"
  shows "keeps_devices (checkFunction cb bus dev func)"
  unfolding keeps_devices_def
  by (auto simp: checkFunction_def getBaseClass_def getSubClass_def getSecondaryBus_def
      split: prod.splits if_splits dest!: keeps_devicesD [OF assms] read_keeps_devices)

lemma keeps_func:
  assumes "\<And>b. keeps_devices (cb b)"
  shows "keeps_devices (check_func cb bus dev func)"
  unfolding keeps_devices_def
  by (auto simp: check_func_def getVendorID_def
      split: prod.splits if_splits dest!: keeps_devicesD [OF keeps_function [OF assms]] read_keeps_devices)

lemma keeps_multi:
  assumes "\<And>b. keeps_devices (cb b)"
  shows "keeps_devices (check_multi cb bus dev)"
  unfolding keeps_devices_def
  by (auto simp: check_multi_def getHeaderType_def Let_def simp del: upt_rec_numeral
      split: prod.splits if_splits dest!: keeps_devicesD [OF keeps_for_each [OF keeps_func [OF assms]]] read_keeps_devices)

lemma WARN_keeps: "keeps_devices (WARN str :: 'a pci_state_scheme \<Rightarrow> _)"
  unfolding keeps_devices_def
proof (intro allI impI)
  fix s t :: "'a pci_state_scheme" assume "WARN str s = Some t"
  then show "dev32 t = dev32 s" using WARN_only [of str s] by (auto simp: pci_only_def)
qed

lemma keeps_dev:
  assumes "\<And>b. keeps_devices (cb b)"
  shows "keeps_devices (checkDev cb bus dev)"
  unfolding keeps_devices_def
  by (auto simp: checkDev_def getVendorID_def bind_eq_Some_conv Let_def
      split: prod.splits if_splits dest!: keeps_devicesD [OF keeps_function [OF assms]]
      keeps_devicesD [OF keeps_multi [OF assms]] keeps_devicesD [OF WARN_keeps] read_keeps_devices)

lemma keeps_bus: "keeps_devices (checkBus depth bus)"
proof (induction depth arbitrary: bus)
  case 0
  show ?case by (simp add: keeps_devices_def)
next
  case (Suc depth)
  then show ?case by (simp add: keeps_for_each keeps_dev)
qed

lemma bus_stuck:
  assumes "dev < 32" "bridge cfg 0 (of_nat dev) 0" "config_word cfg 0 (of_nat dev) 0 0 \<noteq> 0xFFF"
  shows "config_space s cfg \<Longrightarrow> checkBus depth 0 s = None"
proof (induction depth arbitrary: s)
  case (Suc depth)
  have "checkDev (checkBus depth) 0 (of_nat dev) t = None" if c: "config_space t cfg" for t :: "'a pci_state_scheme"
  proof -
    obtain u where u: "config_space u cfg" "checkDev (checkBus depth) 0 (of_nat dev) t =
        Option.bind (checkFunction (checkBus depth) 0 (of_nat dev) 0 u) (check_multi (checkBus depth) 0 (of_nat dev))"
      using vendor_read [OF c] assms(3) by metis
    from checkFunction_result [OF u(1)] obtain v where "pci_only u v"
      "checkFunction (checkBus depth) 0 (of_nat dev) 0 u = checkBus depth 0 v" using assms(2) by metis
    then show ?thesis using u Suc.IH pci_only_config by (metis bind.bind_lzero)
  qed
  moreover have "config_space t cfg" if "checkDev (checkBus depth) 0 x s = Some t" "config_space s cfg"
    for x and s t :: "'a pci_state_scheme"
    using keeps_devicesD [OF keeps_dev [OF keeps_bus] that(1)] that(2) by (simp add: config_space_def)
  ultimately show ?case using Suc.prems assms(1)
    by (simp del: upt_rec_numeral) (rule for_each_stuck [of dev], auto)
qed simp

lemma pci_scan_no_bridge:
  assumes "config_space s cfg"
    and "\<And>bus dev func. bus < 8 \<Longrightarrow> dev < 32 \<Longrightarrow> func < 8 \<Longrightarrow> \<not> bridge cfg (of_nat bus) (of_nat dev) (of_nat func)"
  shows "\<exists>s'. pcisub_init 1 s = Some (0, s') \<and> pci_only s s'"
proof -
  have bus: "visits cfg (checkBus 1 (of_nat b) :: 'a pci_state_scheme \<Rightarrow> _)" if "b < 8" for b
    using visits_bus [of cfg "of_nat b" 0] assms(2) [OF that] by simp
  have hosts: "visits cfg (check_hosts 1 fs :: 'a pci_state_scheme \<Rightarrow> _)" if "set fs \<subseteq> {0..<8}" for fs
    using that
  proof (induction fs)
    case Nil
    show ?case by (simp add: visits_def)
  next
    case (Cons b fs)
    show ?case unfolding visits_def
    proof (intro allI impI)
      fix s :: "'a pci_state_scheme" assume c: "config_space s cfg"
      obtain t where t: "getVendorID 0 0 (of_nat b) s = (config_word cfg 0 0 (of_nat b) 0, t)" "pci_only s t"
        using read_word [OF c, of 0 0 "of_nat b" 0] unfolding getVendorID_def by blast
      have ct: "config_space t cfg" using pci_only_config [OF t(2)] c by simp
      obtain u where u: "checkBus 1 (of_nat b) t = Some u" "pci_only t u" "config_space u cfg"
        using visitsD [OF bus ct, of b] Cons.prems by auto
      obtain v where "check_hosts 1 fs u = Some v" "pci_only u v"
        using visitsD [OF Cons.IH u(3)] Cons.prems by auto
      then show "\<exists>t. check_hosts 1 (b # fs) s = Some t \<and> pci_only s t"
        using t u pci_only_trans [OF t(2)] pci_only_trans [OF u(2)] by (simp del: checkBus.simps)
    qed
  qed
  obtain t where t: "pci_only s t" "checkAllBuses 1 s =
      (if headerType t AND 0x80 = 0 then checkBus 1 0 t else check_hosts 1 [0..<8] t)"
    using host_controller [OF assms(1)] by blast
  then have ct: "config_space t cfg" using pci_only_config assms(1) by blast
  obtain u v where "checkBus 1 0 t = Some u" "pci_only t u" "check_hosts 1 [0..<8] t = Some v" "pci_only t v"
    using visitsD [OF bus ct, of 0] visitsD [OF hosts ct, of "[0..<8]"] by auto
  then show ?thesis using t pci_only_trans [OF t(1)]
    by (auto simp: pcisub_init_def simp del: checkBus.simps upt_rec_numeral)
qed

section \<open>Properties\<close>


definition pci0 :: "gd_state \<Rightarrow> pci_state" where
  "pci0 g = gd_state.extend g (pci_state.fields 0 0)"

text \<open>A machine whose configuration space is the given function.\<close>

definition last_address :: "io_event list \<Rightarrow> u32" where
  "last_address log = (case last log of OutL p a \<Rightarrow> a | _ \<Rightarrow> 0)"

definition with_config :: "(u32 \<Rightarrow> u32) \<Rightarrow> pci_state" where
  "with_config cfg = (pci0 screen)\<lparr>dev32 := \<lambda>log p. cfg (last_address log)\<rparr>"

lemma with_config_space: "config_space (with_config cfg) cfg"
  by (simp add: config_space_def with_config_def last_address_def)


text \<open>
  C39 (a bridge ends the boot): the shift in \<open>getSecondaryBus\<close> drops the byte it
  should keep, so the bus behind every bridge is bus 0; and as soon as function 0 of a
  device of bus 0 reads as a bridge the scan calls itself without end, whatever the
  stack depth.
\<close>

theorem pci_bridge_never_returns:
  assumes "config_space s cfg" "dev < 32" "bridge cfg 0 (of_nat dev) 0" "config_word cfg 0 (of_nat dev) 0 0 \<noteq> 0xFFF"
    and "config_word cfg 0 0 0 0 \<noteq> 0xFFFF"
  shows "(\<forall>depth. pcisub_init depth s = None) \<and> fst (getSecondaryBus bus d f s) = 0"
proof
  have z: "drop_bit 8 (v :: u8) = 0" for v by (rule bit_word_eqI) (auto simp: bit_simps dest: bit_imp_le_length)
  show "fst (getSecondaryBus bus d f s) = 0" by (simp add: getSecondaryBus_def z split_beta)
  note stuck = bus_stuck [OF assms(2-4)]
  obtain t where t: "pci_only s t" "\<And>depth. checkAllBuses depth s =
      (if headerType t AND 0x80 = 0 then checkBus depth 0 t else check_hosts depth [0..<8] t)"
    using host_controller [OF assms(1)] by blast
  then have ct: "config_space t cfg" using pci_only_config assms(1) by blast
  obtain u where u: "getVendorID 0 0 0 t = (config_word cfg 0 0 0 0, u)" "pci_only t u"
    using read_word [OF ct, of 0 0 0 0] unfolding getVendorID_def by blast
  then have "config_space u cfg" using pci_only_config ct by blast
  then have "check_hosts depth [0..<8] t = None" for depth
  proof -
    have "check_hosts depth [0..<8] t = Option.bind (checkBus depth 0 u) (check_hosts depth [1..<8])"
      using u(1) assms(5) unfolding upt_conv_Cons [of 0 8, simplified] by simp
    then show ?thesis using stuck [OF \<open>config_space u cfg\<close>] by simp
  qed
  then show "\<forall>depth. pcisub_init depth s = None"
    using t(2) stuck [OF ct] by (simp add: pcisub_init_def)
qed

theorem pci_bridge_never_returns_witness:
  "\<forall>depth. pcisub_init depth (with_config (\<lambda>_. 0x06040000)) = None"
proof -
  let ?cfg = "\<lambda>_ :: u32. 0x06040000 :: u32"
  have "bridge ?cfg 0 (of_nat 3) 0" "config_word ?cfg 0 (of_nat 3) 0 0 \<noteq> 0xFFF" "config_word ?cfg 0 0 0 0 \<noteq> 0xFFFF"
    by (simp_all add: bridge_def config_word_def drop_bit_eq_div)
  then show ?thesis using pci_bridge_never_returns [OF with_config_space, of 3 ?cfg] by simp
qed

text \<open>
  The configuration address: the bus number never reaches the address, whatever
  the bus, device and function, so every access goes to bus 0; and the scan's class
  word, register 0x0A, is read from register 0xD8 of a device and function with an odd
  number.
\<close>

theorem pci_address_loses_bus:
  assumes "device < 32" "func < 8"
  shows "drop_bit 16 (pci_config_addr bus device func offset) AND 0xFF = 0 \<and>
    pci_config_addr bus device func 0x0A AND 0xFC = 0xD8 \<and>
    bit (pci_config_addr bus device func 0x0A) 11 \<and> bit (pci_config_addr bus device func 0x0A) 8"
proof -
  have small: "\<not> bit v n" if "unat v < 2 ^ k" "k \<le> n" for v :: "'l::len word" and k n
  proof -
    have "unat v < 2 ^ n" using that(1) power_increasing [OF that(2), of "2 :: nat"] by linarith
    then have "\<not> bit (unat v) n" by (simp add: bit_iff_odd)
    then show ?thesis by (simp add: bit_unsigned_iff)
  qed
  have d: "\<not> bit device n" if "5 \<le> n" for n
    using small [of device 5 n] assms(1) that by (simp add: word_less_nat_alt)
  have o: "\<not> bit (ucast offset * 0xFC :: u32) n" if "16 \<le> n" for n
  proof (rule small [of _ 16, OF _ that])
    have "unat offset < 2 ^ LENGTH(8)" by (rule unsigned_less)
    then have "unat (ucast offset :: u32) < 2 ^ 8"
      by (simp add: unsigned_ucast_eq le_less_trans [OF take_bit_nat_less_eq_self])
    then show "unat (ucast offset * 0xFC :: u32) < 2 ^ 16" by (simp add: unat_word_ariths)
  qed
  have one: "bit (if b then 1 else 0 :: u32) n \<longleftrightarrow> b \<and> n = 0" for b n by (simp add: bit_1_iff)
  have top: "(0x80000000 :: u32) = push_bit 31 1" and ff: "(0xFF :: u32) = mask 8" and fc: "(0xFC :: u32) = push_bit 2 (mask 6)"
    by (simp_all add: push_bit_eq_mult mask_eq_exp_minus_1)
  have hi: "\<not> bit (0x8000 :: u32) n" if "n < 8" for n
  proof -
    have e: "(0x8000 :: u32) = push_bit 15 1" by (simp add: push_bit_eq_mult)
    show ?thesis unfolding e bit_push_bit_iff using that by simp
  qed
  have 1: "drop_bit 16 (pci_config_addr bus device func offset) AND 0xFF = 0"
    unfolding pci_config_addr_def Let_def top ff
    by (rule bit_word_eqI) (use d o hi in \<open>auto simp: bit_simps one dest: bit_imp_le_length\<close>)
  have z: "(if b then 1 else 0 :: u32) AND 0xFC = 0" "push_bit 11 v AND 0xFC = 0" "push_bit 8 v AND 0xFC = 0"
    for b and v :: u32
    unfolding fc by (rule bit_word_eqI; auto simp: bit_simps)+
  have 2: "pci_config_addr bus device func 0x0A AND 0xFC = 0xD8"
    unfolding pci_config_addr_def Let_def by (simp only: bit.conj_disj_distrib2 z) simp
  show ?thesis using 1 2 by (simp add: pci_config_addr_def bit_or_iff)
qed

theorem pci_address_loses_bus_witness:
  "drop_bit 16 (pci_config_addr 5 3 0 0x10) AND 0xFF = 0"
  using pci_address_loses_bus [of 3 0 5 "0x10"] by simp

end
