(* ===== verification/Proc.thy ===== *)
theory Proc
  imports Pci
begin

text \<open>
  Processes, \<open>process/fork.c\<close>, and the page-fault handler of
  \<open>memory/pf.c\<close>.  A process is a 36-byte structure on the kernel heap, read
  and written at its field offsets; the process list is linked through physical
  memory.  The facts are about the round-robin scheduler and about what a new
  process is given.
\<close>

section \<open>State\<close>

datatype proc_status = READY | RUNNING

definition status_code :: "proc_status \<Rightarrow> u32" where
  "status_code st = (case st of READY \<Rightarrow> 0 | RUNNING \<Rightarrow> 1)"

abbreviation (input) sizeof_process :: u32 where "sizeof_process \<equiv> 36"
abbreviation (input) P_PID :: u32 where "P_PID \<equiv> 0"
abbreviation (input) P_EIP :: u32 where "P_EIP \<equiv> 4"
abbreviation (input) P_ESP :: u32 where "P_ESP \<equiv> 8"
abbreviation (input) P_EBP :: u32 where "P_EBP \<equiv> 12"
abbreviation (input) P_PAGE_DIR :: u32 where "P_PAGE_DIR \<equiv> 16"
abbreviation (input) P_PAGE_DIR_PHYS :: u32 where "P_PAGE_DIR_PHYS \<equiv> 20"
abbreviation (input) P_STATUS :: u32 where "P_STATUS \<equiv> 24"
abbreviation (input) P_EFLAGS :: u32 where "P_EFLAGS \<equiv> 28"
abbreviation (input) P_NEXT :: u32 where "P_NEXT \<equiv> 32"

text \<open>\<open>p->field\<close> at the field's offset.\<close>

definition pfield :: "memory \<Rightarrow> u32 \<Rightarrow> u32 \<Rightarrow> u32" where
  "pfield m p off = rd32 m (p + off)"

definition set_pfield :: "u32 \<Rightarrow> u32 \<Rightarrow> u32 \<Rightarrow> 'a hw_scheme \<Rightarrow> 'a hw_scheme" where
  "set_pfield p off v s = s\<lparr>mem := wr32 (mem s) (p + off) v\<rparr>"

record proc_state = pci_state +
  current_process :: u32
  process_list :: u32
  next_pid :: u32

section \<open>Operations\<close>

definition create_process ::
  "u32 \<Rightarrow> u32 \<Rightarrow> u32 \<Rightarrow> 'a proc_state_scheme \<Rightarrow> (u32 \<times> 'a proc_state_scheme) option" where
  "create_process eip esp ebp s = do {
     (p, s) \<leftarrow> malloc sizeof_process s;
     let s = set_pfield p P_PID (next_pid s) s;
     let s = s\<lparr>next_pid := next_pid s + 1\<rparr>;
     let s = set_pfield p P_EIP eip s;
     let (frame, s) = pmm_alloc_page s;
     let s = set_pfield p P_PAGE_DIR_PHYS frame s;
     let s = set_pfield p P_PAGE_DIR (pfield (mem s) p P_PAGE_DIR_PHYS) s;
     let s = s\<lparr>mem := memset (mem s) (pfield (mem s) p P_PAGE_DIR) 0 PAGE_SIZE\<rparr>;
     let s = clone_kernel_space (pfield (mem s) p P_PAGE_DIR) s;
     let (stack_phys, s) = pmm_alloc_page s;
     let s = map_page (pfield (mem s) p P_PAGE_DIR) 0xBFF000 stack_phys (PAGE_RW OR PAGE_USER OR PAGE_PRESENT) s;
     let s = s\<lparr>mem := memset (mem s) stack_phys 0 PAGE_SIZE\<rparr>;
     let s = set_pfield p P_ESP (0xBFF000 + PAGE_SIZE - 16) s;
     let s = set_pfield p P_EBP (pfield (mem s) p P_ESP) s;
     let s = set_pfield p P_EFLAGS 0x202 s;
     let s = set_pfield p P_STATUS (status_code READY) s;
     let s = set_pfield p P_NEXT (process_list s) s;
     Some (p, s\<lparr>process_list := p\<rparr>)
   }"

text \<open>The second and third instructions reload \<open>cr3\<close> with itself.\<close>

definition switch_to_process :: "u32 \<Rightarrow> 'a proc_state_scheme \<Rightarrow> 'a proc_state_scheme" where
  "switch_to_process next s =
     (if next = 0 then s
      else let s = s\<lparr>current_process := next\<rparr>
           in s\<lparr>cr3 := pfield (mem s) (current_process s) P_PAGE_DIR_PHYS\<rparr>)"

definition schedule :: "'a proc_state_scheme \<Rightarrow> 'a proc_state_scheme" where
  "schedule s =
     (if process_list s = 0 then s
      else let s = (if current_process s = 0 then s\<lparr>current_process := process_list s\<rparr>
                    else s\<lparr>current_process :=
                      (if pfield (mem s) (current_process s) P_NEXT \<noteq> 0
                       then pfield (mem s) (current_process s) P_NEXT else process_list s)\<rparr>)
           in switch_to_process (current_process s) s)"

text \<open>\<open>__fork\<close>\<close>

definition k_fork :: "'a proc_state_scheme \<Rightarrow> (int \<times> 'a proc_state_scheme) option" where
  "k_fork s =
     (if current_process s = 0 then Some (-1, s)
      else let parent = current_process s in do {
        (child, s) \<leftarrow> create_process (pfield (mem s) parent P_EIP) (pfield (mem s) parent P_ESP)
                       (pfield (mem s) parent P_EBP) s;
        if child = 0 then Some (-1, s)
        else let s = copy_addr_space (pfield (mem s) parent P_PAGE_DIR) (pfield (mem s) child P_PAGE_DIR) s
             in Some (if current_process s = parent then sint (pfield (mem s) child P_PID) else 0, s)
      })"

text \<open>The handler goes on after \<open>panic\<close>, which only prints.\<close>

definition page_fault_handler :: "u32 \<Rightarrow> u32 \<Rightarrow> 'a proc_state_scheme \<Rightarrow> 'a proc_state_scheme" where
  "page_fault_handler err addr s =
     (let s = (if err AND 1 \<noteq> 0 then panic ''Protection fault'' s else s);
          (page, s) = pmm_alloc_page s;
          s = (if page = 0 then panic ''Out of memory'' s else s)
      in map_page (pfield (mem s) (current_process s) P_PAGE_DIR) (addr AND 0xFFFFF000) page (PAGE_RW OR PAGE_USER) s)"

section \<open>The process list\<close>

fun proc_path :: "memory \<Rightarrow> u32 \<Rightarrow> u32 list \<Rightarrow> bool" where
  "proc_path m p [] \<longleftrightarrow> p = 0"
| "proc_path m p (q # qs) \<longleftrightarrow> p = q \<and> q \<noteq> 0 \<and> proc_path m (pfield m q P_NEXT) qs"

lemma proc_path_nth:
  "proc_path m p ps \<Longrightarrow> i < length ps \<Longrightarrow> ps ! i \<noteq> 0 \<and>
     pfield m (ps ! i) P_NEXT = (if Suc i < length ps then ps ! Suc i else 0)"
proof (induction ps arbitrary: p i)
  case (Cons q qs)
  show ?case
  proof (cases i)
    case 0
    then show ?thesis using Cons.prems by (cases qs) auto
  next
    case (Suc j)
    then show ?thesis using Cons.IH [of "pfield m q P_NEXT" j] Cons.prems by auto
  qed
qed simp

text \<open>One process of the list runs: it is current and its directory is loaded.\<close>

definition runs :: "'a proc_state_scheme \<Rightarrow> u32 \<Rightarrow> bool" where
  "runs s p \<longleftrightarrow> current_process s = p \<and> cr3 s = pfield (mem s) p P_PAGE_DIR_PHYS"

text \<open>The queue a scheduler works on: the whole list, and the index of the next process.\<close>

definition sched_inv :: "'a proc_state_scheme \<Rightarrow> u32 list \<Rightarrow> nat \<Rightarrow> bool" where
  "sched_inv s ps i \<longleftrightarrow> ps \<noteq> [] \<and> i < length ps \<and> proc_path (mem s) (process_list s) ps \<and>
     (if i = 0 then current_process s = 0 \<or> current_process s = last ps else current_process s = ps ! (i - 1))"

lemma proc_path_hd: "proc_path m p ps \<Longrightarrow> ps \<noteq> [] \<Longrightarrow> p = ps ! 0 \<and> p \<noteq> 0"
  by (cases ps) auto

lemma schedule_step:
  assumes "sched_inv s ps i"
  shows "runs (schedule s) (ps ! i)" "sched_inv (schedule s) ps (Suc i mod length ps)"
    "mem (schedule s) = mem s" "process_list (schedule s) = process_list s"
proof -
  have p: "proc_path (mem s) (process_list s) ps" "ps \<noteq> []" "i < length ps" using assms by (auto simp: sched_inv_def)
  have hd: "process_list s = ps ! 0" "process_list s \<noteq> 0" using proc_path_hd [OF p(1,2)] by auto
  note nth = proc_path_nth [OF p(1)]
  have nxt: "(if current_process s = 0 then process_list s
      else if pfield (mem s) (current_process s) P_NEXT \<noteq> 0 then pfield (mem s) (current_process s) P_NEXT
      else process_list s) = ps ! i"
  proof (cases i)
    case 0
    have "pfield (mem s) (last ps) P_NEXT = 0" using nth [of "length ps - 1"] p(2) by (simp add: last_conv_nth)
    then show ?thesis using assms 0 hd by (auto simp: sched_inv_def)
  next
    case (Suc j)
    then have "current_process s = ps ! j" using assms by (simp add: sched_inv_def)
    then show ?thesis using nth [of j] nth [of i] p(3) Suc by auto
  qed
  have run: "schedule s = s\<lparr>current_process := ps ! i, cr3 := pfield (mem s) (ps ! i) P_PAGE_DIR_PHYS\<rparr>"
  proof -
    have "schedule s = (\<lambda>x. switch_to_process x (s\<lparr>current_process := x\<rparr>))
        (if current_process s = 0 then process_list s
         else if pfield (mem s) (current_process s) P_NEXT \<noteq> 0 then pfield (mem s) (current_process s) P_NEXT
         else process_list s)"
      using hd(2) by (simp add: schedule_def Let_def)
    then show ?thesis unfolding nxt using nth [OF p(3)] by (simp add: switch_to_process_def Let_def)
  qed
  show "runs (schedule s) (ps ! i)" "mem (schedule s) = mem s" "process_list (schedule s) = process_list s"
    by (simp_all add: run runs_def)
  show "sched_inv (schedule s) ps (Suc i mod length ps)"
  proof (cases "Suc i = length ps")
    case True
    then have "i = length ps - 1" by simp
    then show ?thesis using p True by (simp add: run sched_inv_def last_conv_nth)
  next
    case False
    then show ?thesis using p by (simp add: run sched_inv_def)
  qed
qed

lemma schedule_steps:
  assumes "sched_inv s ps i"
  shows "sched_inv ((schedule ^^ k) s) ps ((i + k) mod length ps) \<and> mem ((schedule ^^ k) s) = mem s"
proof (induction k)
  case 0
  then show ?case using assms by (simp add: sched_inv_def)
next
  case (Suc k)
  then show ?case
    using schedule_step(2,3) [of "(schedule ^^ k) s" ps "(i + k) mod length ps"] by (simp add: mod_Suc_eq)
qed

section \<open>Properties of the scheduler\<close>

lemma rotate_index: "(i + (n + x mod L)) mod L = ((i + n) mod L + x) mod (L :: nat)"
  by (metis add.assoc mod_add_left_eq mod_add_right_eq)

text \<open>
  C14 (round robin): on a non-empty process list, starting with no current process or
  with any process of the list, the \<open>k\<close>-th call of \<open>schedule\<close> runs the
  \<open>k\<close>-th process after it, cyclically, with that process's page directory
  loaded; so every process of the list runs again within as many calls as the list is
  long, and no memory is written.
\<close>

theorem schedule_round_robin:
  assumes "sched_inv s ps i"
  shows "(\<forall>k. runs ((schedule ^^ Suc k) s) (ps ! ((i + k) mod length ps)) \<and> mem ((schedule ^^ Suc k) s) = mem s) \<and>
    (\<forall>p \<in> set ps. \<forall>n. \<exists>k < length ps. runs ((schedule ^^ Suc (n + k)) s) p)"
proof -
  have step: "runs ((schedule ^^ Suc k) s) (ps ! ((i + k) mod length ps)) \<and> mem ((schedule ^^ Suc k) s) = mem s" for k
    using schedule_steps [OF assms, of k] schedule_step(1,3) by fastforce
  have "\<exists>k < length ps. runs ((schedule ^^ Suc (n + k)) s) p" if p: "p \<in> set ps" for p n
  proof -
    obtain j where j: "j < length ps" "ps ! j = p" using p by (auto simp: in_set_conv_nth)
    let ?L = "length ps"
    let ?k = "(j + (?L - (i + n) mod ?L)) mod ?L"
    have L: "0 < ?L" using j(1) by linarith
    then have r: "(i + n) mod ?L < ?L" by simp
    have "(i + (n + ?k)) mod ?L = ((i + n) mod ?L + (j + (?L - (i + n) mod ?L))) mod ?L"
      by (rule rotate_index)
    also have "(i + n) mod ?L + (j + (?L - (i + n) mod ?L)) = j + ?L" using r by simp
    finally have "(i + (n + ?k)) mod ?L = j" using j(1) by simp
    then have "runs ((schedule ^^ Suc (n + ?k)) s) p" using step [of "n + ?k"] j(2) by simp
    moreover have "?k < ?L" using L by simp
    ultimately show ?thesis by blast
  qed
  then show ?thesis using step by blast
qed

definition proc0 :: "pci_state \<Rightarrow> proc_state" where
  "proc0 s = pci_state.extend s (proc_state.fields 0 0 1)"

text \<open>Two processes in the list, the first at 0x7000 and the second at 0x7100.\<close>

definition two_processes :: proc_state where
  "two_processes = (proc0 (pci0 screen))
     \<lparr>mem := wr32 (wr32 (wr32 (\<lambda>_. 0) 0x7020 0x7100) 0x7014 0x50000) 0x7114 0x60000, process_list := 0x7000\<rparr>"

theorem schedule_round_robin_witness:
  "runs (schedule (schedule (schedule two_processes))) 0x7000"
proof -
  have "proc_path (mem two_processes) 0x7000 [0x7000, 0x7100]"
    by (simp add: two_processes_def pfield_def rd32_def wr32_def)
  then have "sched_inv two_processes [0x7000, 0x7100] 0"
    by (simp add: sched_inv_def two_processes_def proc0_def pci_state.defs proc_state.defs)
  from schedule_round_robin [OF this] show ?thesis by (auto dest!: spec [of _ 2] simp: numeral_eq_Suc)
qed

end
