(* ===== verification/Ramfs.thy ===== *)
theory Ramfs
  imports Proc
begin

text \<open>
  The RAM file system and the mount table, \<open>fs/ramfs.c\<close>.  The file table is
  an array of 72-byte structures in memory (name at 0, data pointer at 64, size at
  68), because names are compared as C strings there; file contents are blocks of the
  kernel heap.  The results keep the values the C code returns, which are not only
  those of \<open>FS_STATUS\<close>.
\<close>

section \<open>State\<close>

abbreviation (input) RAMFS_MAX_FILES :: u32 where "RAMFS_MAX_FILES \<equiv> 64"
abbreviation (input) RAMFS_MAX_FILE_SIZE :: u32 where "RAMFS_MAX_FILE_SIZE \<equiv> 1024"
abbreviation (input) MAX_MOUNTS :: u32 where "MAX_MOUNTS \<equiv> 16"
abbreviation (input) SUCCESS :: u32 where "SUCCESS \<equiv> 0"
abbreviation (input) FAULT :: u32 where "FAULT \<equiv> 1"

text \<open>The operations a file system registers, by name.\<close>

datatype fs_fn = Fs_none | Fs_ramfs_create | Fs_ramfs_write | Fs_ramfs_read | Fs_ramfs_list

record fs_ops =
  op_create :: fs_fn
  op_write :: fs_fn
  op_read :: fs_fn
  op_list :: fs_fn

record mount =
  m_path :: u32
  m_ops :: u32

record ramfs_state = proc_state +
  fs_true :: bool
  ramfs_ops :: fs_ops
  ramfs_file_count :: u32
  mounts :: "mount list"
  mount_count :: u32

definition ramfs_file :: "linker \<Rightarrow> u32 \<Rightarrow> u32" where
  "ramfs_file L i = addr_ramfs_files L + 72 * i"

definition f_data :: "memory \<Rightarrow> u32 \<Rightarrow> u32" where
  "f_data m f = rd32 m (f + 64)"

definition f_size :: "memory \<Rightarrow> u32 \<Rightarrow> u32" where
  "f_size m f = rd32 m (f + 68)"

section \<open>Files\<close>

definition ramfs_init :: "linker \<Rightarrow> 'a ramfs_state_scheme \<Rightarrow> 'a ramfs_state_scheme" where
  "ramfs_init L s =
     (let s = s\<lparr>mem := memset (mem s) (addr_ramfs_files L) 0 (72 * RAMFS_MAX_FILES)\<rparr>;
          s = s\<lparr>ramfs_file_count := 0\<rparr>
      in s\<lparr>fs_true := True\<rparr>)"

text \<open>The message every operation gives while the file system is not initialised.\<close>

definition no_root :: "'a ramfs_state_scheme \<Rightarrow> 'a ramfs_state_scheme option" where
  "no_root = INFO ''Ocorred a error: ROOT is not avaliable! :(\<newline>''"

definition ramfs_create :: "linker \<Rightarrow> u32 \<Rightarrow> 'a ramfs_state_scheme \<Rightarrow> (u32 \<times> 'a ramfs_state_scheme) option" where
  "ramfs_create L name s =
     (if \<not> fs_true s then do { s \<leftarrow> no_root s; Some (FAULT, s) }
      else if ramfs_file_count s \<ge> RAMFS_MAX_FILES then do {
        s \<leftarrow> INFO ''Ocorred a error the file excedds the ROOT max files\<newline>'' s;
        Some (-1, s)
      }
      else do {
        let f = ramfs_file L (ramfs_file_count s);
        let s = s\<lparr>ramfs_file_count := ramfs_file_count s + 1\<rparr>;
        let s = s\<lparr>mem := strncpy (mem s) f name 63\<rparr>;
        (ptr, s) \<leftarrow> malloc RAMFS_MAX_FILE_SIZE s;
        let s = s\<lparr>mem := wr32 (mem s) (f + 64) ptr\<rparr>;
        if f_data (mem s) f \<noteq> 0 then Some (-1, s)
        else let s = s\<lparr>mem := wr32 (mem s) (f + 68) 0\<rparr>;
                 s = s\<lparr>mem := memset (mem s) (f_data (mem s) f) 0 RAMFS_MAX_FILE_SIZE\<rparr>
             in Some (SUCCESS, s)
      })"

text \<open>The loop over the table; the list holds the indices that are left.\<close>

fun write_loop ::
  "linker \<Rightarrow> u32 \<Rightarrow> u32 \<Rightarrow> u32 \<Rightarrow> nat list \<Rightarrow> 'a ramfs_state_scheme \<Rightarrow> (u32 \<times> 'a ramfs_state_scheme) option" where
  "write_loop L name buf len [] s = Some (FAULT, s)"
| "write_loop L name buf len (i # is) s =
     (let f = ramfs_file L (of_nat i) in do {
        r \<leftarrow> strcmp (mem s) f name;
        if r = 0 \<and> len > RAMFS_MAX_FILE_SIZE then
          let len = RAMFS_MAX_FILE_SIZE;
              s = s\<lparr>mem := memcpy (mem s) (f_data (mem s) f) buf len\<rparr>;
              s = s\<lparr>mem := wr32 (mem s) (f + 68) len\<rparr>
          in Some (len, s)
        else write_loop L name buf len is s
      })"

definition ramfs_write ::
  "linker \<Rightarrow> u32 \<Rightarrow> u32 \<Rightarrow> u32 \<Rightarrow> 'a ramfs_state_scheme \<Rightarrow> (u32 \<times> 'a ramfs_state_scheme) option" where
  "ramfs_write L name buf len s =
     (if \<not> fs_true s then do { s \<leftarrow> no_root s; Some (FAULT, s) }
      else write_loop L name buf len [0..<unat (ramfs_file_count s)] s)"

fun read_loop ::
  "linker \<Rightarrow> u32 \<Rightarrow> u32 \<Rightarrow> u32 \<Rightarrow> nat list \<Rightarrow> 'a ramfs_state_scheme \<Rightarrow> (u32 \<times> 'a ramfs_state_scheme) option" where
  "read_loop L name buf max_len [] s = Some (FAULT, s)"
| "read_loop L name buf max_len (i # is) s =
     (let f = ramfs_file L (of_nat i) in do {
        r \<leftarrow> strcmp (mem s) f name;
        let len = f_size (mem s) f;
        if r = 0 \<and> len > max_len then
          let len = max_len;
              s = s\<lparr>mem := memcpy (mem s) buf (f_data (mem s) f) len\<rparr>
          in Some (len, s)
        else read_loop L name buf max_len is s
      })"

definition ramfs_read ::
  "linker \<Rightarrow> u32 \<Rightarrow> u32 \<Rightarrow> u32 \<Rightarrow> 'a ramfs_state_scheme \<Rightarrow> (u32 \<times> 'a ramfs_state_scheme) option" where
  "ramfs_read L name buf max_len s =
     (if \<not> fs_true s then do { s \<leftarrow> no_root s; Some (FAULT, s) }
      else read_loop L name buf max_len [0..<unat (ramfs_file_count s)] s)"

text \<open>The bytes of a string in memory, for printing it.\<close>

partial_function (option) string_at :: "memory \<Rightarrow> u32 \<Rightarrow> u8 list option" where
  "string_at m p = (if m p = 0 then Some [] else do { cs \<leftarrow> string_at m (p + 1); Some (m p # cs) })"

definition ramfs_list :: "linker \<Rightarrow> 'a ramfs_state_scheme \<Rightarrow> 'a ramfs_state_scheme option" where
  "ramfs_list L s =
     (if \<not> fs_true s then no_root s
      else do {
        s \<leftarrow> EarlyLog (bytes ''r:/? %(u):\<newline>'') [VInt (ramfs_file_count s)] s;
        for_each (\<lambda>i s. do {
            name \<leftarrow> string_at (mem s) (ramfs_file L (of_nat i));
            EarlyLog (bytes '' - %s (%u bytes)\<newline>'') [VStr name, VInt (f_size (mem s) (ramfs_file L (of_nat i)))] s
          }) [0..<unat (ramfs_file_count s)] s
      })"

section \<open>Mounts\<close>

definition fs_mount :: "u32 \<Rightarrow> u32 \<Rightarrow> 'a ramfs_state_scheme \<Rightarrow> (u32 \<times> 'a ramfs_state_scheme) option" where
  "fs_mount path ops s =
     (if mount_count s \<ge> MAX_MOUNTS then do {
        s \<leftarrow> EarlyLog (bytes ''fs_mount: m'' @ [0xC3, 0xA1] @ bytes ''ximo de mounts atingido!\<newline>'') [] s;
        Some (FAULT, s)
      }
      else if \<not> fs_true s then do { s \<leftarrow> no_root s; Some (FAULT, s) }
      else let s = s\<lparr>mounts := (mounts s)[unat (mount_count s) := \<lparr>m_path = path, m_ops = ops\<rparr>]\<rparr>
           in Some (SUCCESS, s\<lparr>mount_count := mount_count s + 1\<rparr>))"

fun get_ops_loop :: "memory \<Rightarrow> u32 \<Rightarrow> mount list \<Rightarrow> u32 option" where
  "get_ops_loop m path [] = Some 0"
| "get_ops_loop m path (mt # ms) = do {
     r \<leftarrow> strcmp m (m_path mt) path;
     if r = 0 then Some (m_ops mt) else get_ops_loop m path ms
   }"

definition fs_get_ops :: "u32 \<Rightarrow> 'a ramfs_state_scheme \<Rightarrow> u32 option" where
  "fs_get_ops path s = get_ops_loop (mem s) path (take (unat (mount_count s)) (mounts s))"

definition ramfs_mount :: "linker \<Rightarrow> u32 \<Rightarrow> 'a ramfs_state_scheme \<Rightarrow> 'a ramfs_state_scheme option" where
  "ramfs_mount L path s = (let
     s = s\<lparr>ramfs_ops := (ramfs_ops s)\<lparr>op_create := Fs_ramfs_create\<rparr>\<rparr>;
     s = s\<lparr>ramfs_ops := (ramfs_ops s)\<lparr>op_write := Fs_ramfs_write\<rparr>\<rparr>;
     s = s\<lparr>ramfs_ops := (ramfs_ops s)\<lparr>op_read := Fs_ramfs_read\<rparr>\<rparr>;
     s = s\<lparr>ramfs_ops := (ramfs_ops s)\<lparr>op_list := Fs_ramfs_list\<rparr>\<rparr>
   in map_option snd (fs_mount path (addr_ramfs_ops L) s))"

text \<open>\<open>__initramfs\<close>\<close>

definition initramfs :: "linker \<Rightarrow> 'a ramfs_state_scheme \<Rightarrow> 'a ramfs_state_scheme option" where
  "initramfs L s = do {
     let s = ramfs_init L s;
     s \<leftarrow> INFO ''ROOT: RAMFS initialized!\<newline>'' s;
     s \<leftarrow> INFO ''Mounting r:\<newline>'' s;
     s \<leftarrow> ramfs_mount L (addr_root_path L) s;
     INFO ''Mounted r: at RAM (Root dir)\<newline>'' s
   }"

end
