(* ===== verification/Frames.thy ===== *)
theory Frames
  imports Paging
begin

text \<open>
  Steps that take frames from the page allocator and write frames their caller holds.
  \<open>frame_use D s s'\<close> says that \<open>s'\<close> comes from \<open>s\<close> by taking frames and
  writing the taken frames, the frames of \<open>D\<close> and the allocator's bitmap; it
  composes, and every frame held by somebody else keeps its contents.  The copy of an
  address space is such a step, and the facts about it are at the end.
\<close>

section \<open>Frames somebody holds\<close>

definition held :: "'a pmm_state_scheme \<Rightarrow> nat \<Rightarrow> bool" where
  "held s d \<longleftrightarrow> d < 2 ^ 20 \<and> d \<notin> free_pages s \<and> page_span d \<inter> bitmap_region s = {}"

definition frame_use :: "nat set \<Rightarrow> 'a pmm_state_scheme \<Rightarrow> 'a pmm_state_scheme \<Rightarrow> bool" where
  "frame_use D s s' \<longleftrightarrow> (\<exists>m'. s' = s\<lparr>mem := m'\<rparr>) \<and> pmm_inv s' \<and> free_pages s' \<subseteq> free_pages s \<and>
     only_changes (bitmap_region s \<union> \<Union> (page_span ` (D \<union> (free_pages s - free_pages s')))) (mem s) (mem s')"

lemma frame_useD:
  assumes "frame_use D s s'"
  shows "s' = s\<lparr>mem := mem s'\<rparr>" "pmm_inv s'" "free_pages s' \<subseteq> free_pages s" "bitmap_region s' = bitmap_region s"
    "only_changes (bitmap_region s \<union> \<Union> (page_span ` (D \<union> (free_pages s - free_pages s')))) (mem s) (mem s')"
  using assms by (auto simp: frame_use_def)

lemma frame_use_refl [intro]: "pmm_inv s \<Longrightarrow> frame_use D s s"
  by (auto simp: frame_use_def intro: exI [of _ "mem s"])

lemma frame_use_trans:
  assumes "frame_use D s t" "frame_use E t u" "E \<subseteq> D \<union> (free_pages s - free_pages t)"
  shows "frame_use D s u"
proof -
  note s = frame_useD [OF assms(1)] and t = frame_useD [OF assms(2)]
  have "u = s\<lparr>mem := mem u\<rparr>" using s(1) t(1) by (metis hw.update_convs(1) hw.surjective)
  moreover have "only_changes (bitmap_region s \<union> \<Union> (page_span ` (D \<union> (free_pages s - free_pages u)))) (mem s) (mem u)"
    by (rule only_changes_mono [OF only_changes_trans [OF s(5) t(5)]]) (use s(3,4) t(3) assms(3) in blast)
  ultimately show ?thesis using s(3) t(2,3) unfolding frame_use_def by blast
qed

lemma frame_use_mono: "frame_use D s t \<Longrightarrow> D \<subseteq> E \<Longrightarrow> frame_use E s t"
  unfolding frame_use_def by (blast intro: only_changes_mono)

text \<open>What keeps its contents.\<close>

lemma frame_use_apart:
  assumes "frame_use D s s'" "held s g" "g \<notin> D" "D \<subseteq> {..<2 ^ 20}" "pmm_inv s"
  shows "page_span g \<inter> (bitmap_region s \<union> \<Union> (page_span ` (D \<union> (free_pages s - free_pages s')))) = {}"
proof -
  have "page_span g \<inter> page_span i = {}" if "i \<in> D \<union> (free_pages s - free_pages s')" for i
    using that assms(2-5) free_pages_bound [OF assms(5)] by (intro page_span_disjoint) (auto simp: held_def)
  then show ?thesis using assms(2) unfolding held_def by blast
qed

lemma frame_use_keeps:
  assumes "frame_use D s s'" "held s g" "g \<notin> D" "D \<subseteq> {..<2 ^ 20}" "pmm_inv s"
  shows "x \<in> page_span g \<Longrightarrow> mem s' x = mem s x"
    and "i < 1024 \<Longrightarrow> entry (mem s') (page_addr g) i = entry (mem s) (page_addr g) i"
proof -
  note ap = frame_use_apart [OF assms] and o = frame_useD(5) [OF assms(1)]
  have "g < 2 ^ 20" using assms(2) by (simp add: held_def)
  then show "i < 1024 \<Longrightarrow> entry (mem s') (page_addr g) i = entry (mem s) (page_addr g) i"
    by (rule entry_only [OF _ _ o ap])
  show "x \<in> page_span g \<Longrightarrow> mem s' x = mem s x" using ap by (intro only_changesD [OF o]) blast
qed

lemma frame_use_held:
  assumes "frame_use D s s'"
  shows "held s g \<Longrightarrow> held s' g" and "pmm_inv s \<Longrightarrow> g \<in> free_pages s - free_pages s' \<Longrightarrow> held s' g"
  using frame_useD [OF assms] free_pages_bound [of s g] by (auto simp: held_def pmm_inv_def)

text \<open>The two ways to use frames.\<close>

lemma frame_use_write:
  assumes "pmm_inv s" "held s d" "only_changes (page_span d) (mem s) m'"
  shows "frame_use {d} s (s\<lparr>mem := m'\<rparr>)" "free_pages (s\<lparr>mem := m'\<rparr>) = free_pages s"
proof -
  have "page_span d \<inter> bitmap_region s = {}" using assms(2) by (simp add: held_def)
  note keep = kernel_pages.write_keeps [OF assms(1,3) this]
  then show "free_pages (s\<lparr>mem := m'\<rparr>) = free_pages s" by simp
  then show "frame_use {d} s (s\<lparr>mem := m'\<rparr>)"
    using keep only_changes_mono [OF assms(3), of "bitmap_region s \<union> page_span d"] by (auto simp: frame_use_def)
qed

lemma frame_use_alloc:
  assumes "pmm_inv s" "free_pages s \<noteq> {}"
  obtains t where "pmm_alloc_page s = (page_addr (Min (free_pages s)), t)" "frame_use {} s t"
    "free_pages t = free_pages s - {Min (free_pages s)}" "Min (free_pages s) \<in> free_pages s"
    "held t (Min (free_pages s))" "card (free_pages s) = Suc (card (free_pages t))"
proof -
  let ?f = "Min (free_pages s)"
  obtain m1 where m1: "pmm_alloc_page s = (page_addr ?f, s\<lparr>mem := m1\<rparr>)" "only_changes (bitmap_region s) (mem s) m1"
    "free_pages (s\<lparr>mem := m1\<rparr>) = free_pages s - {?f}" "pmm_inv (s\<lparr>mem := m1\<rparr>)"
    "?f \<in> free_pages s" "?f < 2 ^ 20" "page_span ?f \<inter> bitmap_region s = {}"
    using kernel_pages.alloc_frame [OF assms] by metis
  have "frame_use {} s (s\<lparr>mem := m1\<rparr>)"
    using m1(2-4) only_changes_mono [OF m1(2)] by (auto simp: frame_use_def)
  moreover have "held (s\<lparr>mem := m1\<rparr>) ?f" using m1 by (simp add: held_def)
  moreover have "card (free_pages s) = Suc (card (free_pages (s\<lparr>mem := m1\<rparr>)))"
    unfolding m1(3) by (rule sym, rule card_Suc_Diff1 [OF finite_free_pages m1(5)])
  ultimately show thesis using that [OF m1(1)] m1 by simp
qed

section \<open>Address spaces as frames\<close>

lemma space_inv_held:
  "space_inv s d \<longleftrightarrow> pmm_inv s \<and> held s d \<and>
     (\<forall>i < 1024. present (mem s) d i \<longrightarrow> held s (table_of (mem s) d i) \<and> table_of (mem s) d i \<noteq> d) \<and>
     (\<forall>i < 1024. \<forall>j < 1024. present (mem s) d i \<longrightarrow> present (mem s) d j \<longrightarrow>
        table_of (mem s) d i = table_of (mem s) d j \<longrightarrow> i = j)"
  using table_bound unfolding space_inv_def held_def by blast

definition space_frames :: "memory \<Rightarrow> nat \<Rightarrow> nat set" where
  "space_frames m d = insert d {table_of m d i | i. i < 1024 \<and> present m d i}"

lemma space_frames_held: "space_inv s d \<Longrightarrow> g \<in> space_frames (mem s) d \<Longrightarrow> held s g"
  unfolding space_inv_held space_frames_def by blast

lemma present_cong: "entry m (page_addr d) i = entry m' (page_addr d) i \<Longrightarrow> present m d i = present m' d i"
  and table_of_cong: "entry m (page_addr d) i = entry m' (page_addr d) i \<Longrightarrow> table_of m d i = table_of m' d i"
  by (simp_all add: present_def table_of_def)

text \<open>Two memories with the same directory and tables translate alike.\<close>

lemma mmu_walk_cong:
  assumes "entry m' (page_addr d) (pdi v) = entry m (page_addr d) (pdi v)"
    and "present m d (pdi v) \<Longrightarrow> entry m' (page_addr (table_of m d (pdi v))) (pti v) =
      entry m (page_addr (table_of m d (pdi v))) (pti v)"
  shows "mmu_walk m' (page_addr d) v = mmu_walk m (page_addr d) v"
  using assms(2) present_cong [OF assms(1)] table_of_cong [OF assms(1)]
  by (cases "present m d (pdi v)") (simp_all add: mmu_walk_pte pte_at_def del: of_nat_mult)

text \<open>A step that leaves the frames of an address space alone keeps it and its translation.\<close>

lemma frame_use_space:
  assumes "frame_use D s s'" "space_inv s d" "D \<inter> space_frames (mem s) d = {}" "D \<subseteq> {..<2 ^ 20}"
  shows "space_inv s' d" "i < 1024 \<Longrightarrow> entry (mem s') (page_addr d) i = entry (mem s) (page_addr d) i"
    "space_frames (mem s') d = space_frames (mem s) d"
    "mmu_walk (mem s') (page_addr d) v = mmu_walk (mem s) (page_addr d) v"
proof -
  have inv: "pmm_inv s" using assms(2) by (simp add: space_inv_def)
  have keep: "entry (mem s') (page_addr g) i = entry (mem s) (page_addr g) i"
    if "g \<in> space_frames (mem s) d" "i < 1024" for g i
    using frame_use_keeps(2) [OF assms(1) space_frames_held [OF assms(2) that(1)] _ assms(4) inv that(2)]
      assms(3) that(1) by blast
  have d: "d \<in> space_frames (mem s) d" by (simp add: space_frames_def)
  show ent: "entry (mem s') (page_addr d) i = entry (mem s) (page_addr d) i" if "i < 1024" for i
    by (rule keep [OF d that])
  have same: "present (mem s') d i = present (mem s) d i" "table_of (mem s') d i = table_of (mem s) d i"
    if "i < 1024" for i using present_cong [OF ent [OF that]] table_of_cong [OF ent [OF that]] by simp_all
  show "space_inv s' d"
    using assms(2) frame_useD(2) [OF assms(1)] frame_use_held(1) [OF assms(1)] same unfolding space_inv_held by auto
  show "space_frames (mem s') d = space_frames (mem s) d"
    unfolding space_frames_def using same by (metis (no_types, lifting))
  show "mmu_walk (mem s') (page_addr d) v = mmu_walk (mem s) (page_addr d) v"
    using pdi_bound by (intro mmu_walk_cong ent keep pti_bound) (auto simp: space_frames_def)
qed

text \<open>\<open>map_page\<close> as such a step.\<close>

lemma map_page_use:
  assumes "space_inv s d" "present (mem s) d (pdi virt) \<or> free_pages s \<noteq> {}"
  defines "T \<equiv> (if present (mem s) d (pdi virt) then {table_of (mem s) d (pdi virt)} else {})"
  obtains s' where "map_page (page_addr d) virt phys flags s = s'" "frame_use (insert d T) s s'" "space_inv s' d"
    "free_pages s' = (if present (mem s) d (pdi virt) then free_pages s else free_pages s - {Min (free_pages s)})"
    "\<And>v. mmu_walk (mem s') (page_addr d) v =
       (if drop_bit 12 v = drop_bit 12 virt then Some ((phys AND 0xFFFFF000) OR (v AND 0xFFF))
        else mmu_walk (mem s) (page_addr d) v)"
    "\<And>i. i < 1024 \<Longrightarrow> present (mem s') d i \<longleftrightarrow> i = pdi virt \<or> present (mem s) d i"
    "table_of (mem s') d (pdi virt) =
       (if present (mem s) d (pdi virt) then table_of (mem s) d (pdi virt) else Min (free_pages s))"
    "\<And>i. i < 1024 \<Longrightarrow> i \<noteq> pdi virt \<Longrightarrow> entry (mem s') (page_addr d) i = entry (mem s) (page_addr d) i"
proof -
  obtain m' where m': "map_page (page_addr d) virt phys flags s = s\<lparr>mem := m'\<rparr>" "space_inv (s\<lparr>mem := m'\<rparr>) d"
    "free_pages (s\<lparr>mem := m'\<rparr>) =
       (if present (mem s) d (pdi virt) then free_pages s else free_pages s - {Min (free_pages s)})"
    "\<And>i. i < 1024 \<Longrightarrow> present m' d i \<longleftrightarrow> i = pdi virt \<or> present (mem s) d i"
    "\<And>v. mmu_walk m' (page_addr d) v =
       (if drop_bit 12 v = drop_bit 12 virt then Some ((phys AND 0xFFFFF000) OR (v AND 0xFFF))
        else mmu_walk (mem s) (page_addr d) v)"
    "only_changes (bitmap_region s \<union> page_span d \<union> page_span (table_of m' d (pdi virt))) (mem s) m'"
    "table_of m' d (pdi virt) = (if present (mem s) d (pdi virt) then table_of (mem s) d (pdi virt) else Min (free_pages s))"
    "\<And>i. i < 1024 \<Longrightarrow> i \<noteq> pdi virt \<Longrightarrow> entry m' (page_addr d) i = entry (mem s) (page_addr d) i"
    by (rule map_page_result [OF assms(1,2), of phys flags], rule that, assumption+)
  let ?F = "insert d T \<union> (free_pages s - free_pages (s\<lparr>mem := m'\<rparr>))"
  have "table_of m' d (pdi virt) \<in> ?F"
  proof (cases "present (mem s) d (pdi virt)")
    case True
    then show ?thesis using m'(7) by (simp add: T_def)
  next
    case False
    then have "Min (free_pages s) \<in> free_pages s" using assms(2) by (intro Min_in) auto
    then show ?thesis using False m'(3,7) by simp
  qed
  then have "bitmap_region s \<union> page_span d \<union> page_span (table_of m' d (pdi virt)) \<subseteq>
      bitmap_region s \<union> \<Union> (page_span ` ?F)" by blast
  from only_changes_mono [OF m'(6) this]
  have "frame_use (insert d T) s (s\<lparr>mem := m'\<rparr>)"
    using m'(2,3) unfolding frame_use_def space_inv_def by auto
  then show thesis using that [OF m'(1)] m'(2-5,7,8) by simp
qed

end
