(* ===== verification/HeapFrame.thy ===== *)
theory HeapFrame
  imports Frames
begin

text \<open>
  The frame rules of the memory managers: what an operation may change without
  disturbing the kernel heap, and what a heap operation leaves alone.  \<open>owned\<close>
  frames belong to neither the heap nor the page allocator; \<open>preserves\<close> is the
  promise a step makes to everybody who owns a frame or has a live heap block.
\<close>

section \<open>Memory outside the heap, and inside its blocks\<close>

lemma heap_inv_frame:
  assumes "heap_inv s bs lost" "only_changes A (mem s) m'" "A \<inter> bitmap_region s = {}"
    and "\<And>b. b \<in> set bs \<Longrightarrow> nspan (b_addr b) 12 \<inter> A = {}"
  shows "heap_inv (s\<lparr>mem := m'\<rparr>) bs lost" "free_pages (s\<lparr>mem := m'\<rparr>) = free_pages s"
    "heap_area (s\<lparr>mem := m'\<rparr>) cs = heap_area s cs"
proof -
  have inv: "pmm_inv s" "hpath (mem s) (heap_start s) bs 0" "packed bs" using assms(1) by (auto simp: heap_inv_def)
  note keep = kernel_pages.write_keeps [OF inv(1) assms(2,3)]
  have "hpath m' (heap_start s) bs 0"
    using packed_header [OF inv(3)] assms(4) by (intro hpath_only_changes [OF inv(2) assms(2)]) auto
  then show "heap_inv (s\<lparr>mem := m'\<rparr>) bs lost"
    using assms(1) keep by (simp add: heap_inv_def)
  show "free_pages (s\<lparr>mem := m'\<rparr>) = free_pages s" using keep by simp
  then show "heap_area (s\<lparr>mem := m'\<rparr>) cs = heap_area s cs" by (simp add: heap_area_def)
qed

lemma heap_inv_payload:
  assumes "heap_inv s bs lost" "b \<in> set (bs @ lost)" "A \<subseteq> payload b"
  shows "A \<inter> bitmap_region s = {}" "c \<in> set bs \<Longrightarrow> nspan (b_addr c) 12 \<inter> A = {}"
proof -
  have b: "b \<in> set bs \<union> set lost" using assms(2) by simp
  have "payload b \<subseteq> b_span b" by auto
  then show "A \<inter> bitmap_region s = {}" using heap_inv_block(2) [OF assms(1) b] assms(3) by blast
  show "nspan (b_addr c) 12 \<inter> A = {}" if c: "c \<in> set bs"
  proof (cases "b = c")
    case True
    then show ?thesis using assms(3) by (fastforce simp: nspan_def)
  next
    case False
    then have "apart c b" using heap_inv_apart [OF assms(1) c b] by blast
    then show ?thesis using assms(3) by (fastforce simp: nspan_def apart_def b_end_def)
  qed
qed

lemma heap_inv_outside:
  assumes "A \<inter> heap_area s (bs @ lost) = {}"
  shows "A \<inter> bitmap_region s = {}" "c \<in> set bs \<Longrightarrow> nspan (b_addr c) 12 \<inter> A = {}"
proof -
  show "A \<inter> bitmap_region s = {}" using assms by (auto simp: heap_area_def)
  have "nspan (b_addr c) 12 \<subseteq> b_span c" by auto
  then show "c \<in> set bs \<Longrightarrow> nspan (b_addr c) 12 \<inter> A = {}"
    using assms by (auto simp: heap_area_def simp del: nspan_iff)
qed

section \<open>Frames outside the heap\<close>

lemma heap_inv_use:
  assumes "heap_inv s bs lost" "frame_use D s s'"
    and "\<And>d b. d \<in> D \<Longrightarrow> b \<in> set bs \<Longrightarrow> page_span d \<inter> b_span b = {}"
  shows "heap_inv s' bs lost" "heap_area s' cs \<subseteq> heap_area s cs"
proof -
  note U = frame_useD [OF assms(2)]
  have inv: "pmm_inv s" "hpath (mem s) (heap_start s) bs 0" "packed bs" using assms(1) by (auto simp: heap_inv_def)
  have fields: "heap_start s' = heap_start s" "heap_end s' = heap_end s" by (subst U(1); simp)+
  have hd: "nspan (b_addr b) 12 \<subseteq> b_span b" for b by auto
  have free: "page_span i \<inter> b_span b = {}" if "i \<in> free_pages s" "b \<in> set bs" for i b
    using heap_inv_block(1) [OF assms(1) _ that(1), of b] that(2) page_nspan [OF free_pages_bound [OF inv(1) that(1)]]
    by (auto simp: b_end_def)
  have "hpath (mem s') (heap_start s) bs 0"
  proof (rule hpath_only_changes [OF inv(2) U(5)])
    show "\<forall>b \<in> set bs. b_addr b + 12 \<le> 2 ^ 32" using packed_header [OF inv(3)] by blast
    fix b assume b: "b \<in> set bs"
    have "b_span b \<inter> bitmap_region s = {}" using heap_inv_block(2) [OF assms(1)] b by blast
    then show "nspan (b_addr b) 12 \<inter> (bitmap_region s \<union> \<Union> (page_span ` (D \<union> (free_pages s - free_pages s')))) = {}"
      using hd [of b] assms(3) free b by blast
  qed
  then show "heap_inv s' bs lost"
    using assms(1) U(2,3) unfolding heap_inv_def U(4) fields by blast
  show "heap_area s' cs \<subseteq> heap_area s cs" using U(3) unfolding heap_area_def U(4) by blast
qed

definition owned :: "'a heap_state_scheme \<Rightarrow> hblk list \<Rightarrow> nat \<Rightarrow> bool" where
  "owned s cs g \<longleftrightarrow> g < 2 ^ 20 \<and> page_span g \<inter> heap_area s cs = {}"

lemma page_span_nonempty: "page_addr g \<in> page_span g"
  by (simp add: page_span_def span_iff)

lemma owned_iff:
  assumes "pmm_inv s"
  shows "owned s cs g \<longleftrightarrow> held s g \<and> (\<forall>b \<in> set cs. page_span g \<inter> b_span b = {})"
proof
  assume o: "owned s cs g"
  then have "page_span g \<inter> page_span i = {}" if "i \<in> free_pages s" for i
    using that unfolding owned_def heap_area_def by blast
  then have "g \<notin> free_pages s" using page_span_nonempty by blast
  then show "held s g \<and> (\<forall>b \<in> set cs. page_span g \<inter> b_span b = {})"
    using o unfolding owned_def held_def heap_area_def by blast
next
  assume h: "held s g \<and> (\<forall>b \<in> set cs. page_span g \<inter> b_span b = {})"
  have "page_span g \<inter> page_span i = {}" if "i \<in> free_pages s" for i
    using h that free_pages_bound [OF assms that] by (intro page_span_disjoint) (auto simp: held_def)
  then show "owned s cs g" using h unfolding owned_def held_def heap_area_def by blast
qed

lemma owned_held: "pmm_inv s \<Longrightarrow> owned s cs g \<Longrightarrow> held s g"
  by (simp add: owned_iff)

section \<open>Steps that preserve what others own\<close>

definition preserves ::
  "'a heap_state_scheme \<Rightarrow> hblk list \<Rightarrow> 'a heap_state_scheme \<Rightarrow> hblk list \<Rightarrow> nat set \<Rightarrow> hblk set \<Rightarrow> bool" where
  "preserves s cs s' cs' D B \<longleftrightarrow> pmm_inv s' \<and>
     (\<forall>g. owned s cs g \<longrightarrow> owned s' cs' g \<and> (g \<notin> D \<longrightarrow> (\<forall>x \<in> page_span g. mem s' x = mem s x))) \<and>
     (\<forall>b \<in> set cs. b_used b \<longrightarrow> b \<in> set cs' \<and> (b \<notin> B \<longrightarrow> (\<forall>x \<in> payload b. mem s' x = mem s x)))"

lemma preservesD:
  assumes "preserves s cs s' cs' D B"
  shows "pmm_inv s'" "owned s cs g \<Longrightarrow> owned s' cs' g"
    "owned s cs g \<Longrightarrow> g \<notin> D \<Longrightarrow> x \<in> page_span g \<Longrightarrow> mem s' x = mem s x"
    "b \<in> set cs \<Longrightarrow> b_used b \<Longrightarrow> b \<in> set cs'"
    "b \<in> set cs \<Longrightarrow> b_used b \<Longrightarrow> b \<notin> B \<Longrightarrow> x \<in> payload b \<Longrightarrow> mem s' x = mem s x"
  using assms unfolding preserves_def by blast+

lemma preserves_trans:
  assumes "preserves s cs t ds D1 B1" "preserves t ds u es D2 B2"
    and "\<And>g. owned s cs g \<Longrightarrow> g \<in> D1 \<union> D2 \<Longrightarrow> g \<in> D" "\<And>b. b \<in> set cs \<Longrightarrow> b_used b \<Longrightarrow> b \<in> B1 \<union> B2 \<Longrightarrow> b \<in> B"
  shows "preserves s cs u es D B"
  using preservesD [OF assms(1)] preservesD [OF assms(2)] assms(3,4) unfolding preserves_def
  by (metis UnI1 UnI2)

lemma preserves_malloc:
  assumes "heap_inv s bs lost" "heap_inv t bs' lost'" "heap_within s (bs @ lost) t (bs' @ lost')"
    and "keeps_used (bs @ lost) (bs' @ lost') (mem s) (mem t)"
  shows "preserves s (bs @ lost) t (bs' @ lost') {} {}"
proof -
  have "owned t (bs' @ lost') g" "x \<in> page_span g \<Longrightarrow> mem t x = mem s x" if "owned s (bs @ lost) g" for g x
    using that assms(3) unfolding owned_def heap_within_def only_changes_def by blast+
  moreover have "pmm_inv t" using assms(2) by (simp add: heap_inv_def)
  ultimately show ?thesis using assms(4) unfolding preserves_def keeps_used_def by blast
qed

lemma preserves_use:
  assumes "heap_inv s bs lost" "frame_use D s s'" "\<And>d. d \<in> D \<Longrightarrow> owned s (bs @ lost) d"
  shows "preserves s (bs @ lost) s' (bs @ lost) D {}" "heap_inv s' bs lost"
proof -
  note U = frame_useD [OF assms(2)]
  have inv: "pmm_inv s" using assms(1) by (auto simp: heap_inv_def)
  have D20: "D \<subseteq> {..<2 ^ 20}" using assms(3) by (auto simp: owned_def)
  have out: "page_span d \<inter> b_span b = {}" if "d \<in> D" "b \<in> set (bs @ lost)" for d b
    using assms(3) [OF that(1)] that(2) unfolding owned_iff [OF inv] by blast
  then have "page_span d \<inter> b_span b = {}" if "d \<in> D" "b \<in> set bs" for d b using that by simp
  from heap_inv_use [OF assms(1,2) this] show "heap_inv s' bs lost" by blast
  have area: "heap_area s' (bs @ lost) \<subseteq> heap_area s (bs @ lost)" by (rule heap_inv_use(2) [OF assms(1,2)]) (use out in simp)
  have "owned s' (bs @ lost) g" "g \<notin> D \<Longrightarrow> x \<in> page_span g \<Longrightarrow> mem s' x = mem s x"
    if "owned s (bs @ lost) g" for g x
    using that area frame_use_keeps(1) [OF assms(2) owned_held [OF inv that] _ D20 inv] unfolding owned_def by blast+
  moreover have "mem s' x = mem s x" if b: "b \<in> set (bs @ lost)" and x: "x \<in> payload b" for b x
  proof -
    have "b \<in> set bs \<union> set lost" using b by simp
    note blk = heap_inv_block [OF assms(1) this]
    have xs: "x \<in> b_span b" using x by auto
    have "x \<notin> page_span i" if "i \<in> free_pages s" for i
      using blk(1) [OF that] x page_nspan [OF free_pages_bound [OF inv that]] by (auto simp: b_end_def)
    then show ?thesis
      using out [OF _ b] blk(2) xs by (intro only_changesD [OF U(5)]) blast
  qed
  ultimately show "preserves s (bs @ lost) s' (bs @ lost) D {}" using U(2) unfolding preserves_def by blast
qed

text \<open>Writing a live block.\<close>

lemma preserves_block:
  assumes "heap_inv s bs lost" "b \<in> set bs" "only_changes (payload b) (mem s) m'"
  shows "preserves s (bs @ lost) (s\<lparr>mem := m'\<rparr>) (bs @ lost) {} {b}" "heap_inv (s\<lparr>mem := m'\<rparr>) bs lost"
    "free_pages (s\<lparr>mem := m'\<rparr>) = free_pages s"
proof -
  have b: "b \<in> set (bs @ lost)" using assms(2) by simp
  note p = heap_inv_payload [OF assms(1) b subset_refl]
  note f = heap_inv_frame [OF assms(1,3) p]
  show "heap_inv (s\<lparr>mem := m'\<rparr>) bs lost" "free_pages (s\<lparr>mem := m'\<rparr>) = free_pages s" using f by auto
  have inv: "pmm_inv s" "pmm_inv (s\<lparr>mem := m'\<rparr>)" using assms(1) f(1) by (auto simp: heap_inv_def)
  have own: "owned (s\<lparr>mem := m'\<rparr>) (bs @ lost) g" "x \<in> page_span g \<Longrightarrow> m' x = mem s x" if "owned s (bs @ lost) g" for g x
  proof -
    show "owned (s\<lparr>mem := m'\<rparr>) (bs @ lost) g" using that f(3) by (simp add: owned_def)
    have "payload b \<subseteq> heap_area s (bs @ lost)" using b by (auto simp: heap_area_def)
    then show "x \<in> page_span g \<Longrightarrow> m' x = mem s x" using that only_changesD [OF assms(3), of x] unfolding owned_def by blast
  qed
  have blk: "m' x = mem s x" if "c \<in> set (bs @ lost)" "c \<noteq> b" "x \<in> payload c" for c x
  proof (rule only_changesD [OF assms(3)])
    have "apart b c" using heap_inv_apart [OF assms(1,2) _ that(2) [symmetric]] that(1) by simp
    then show "x \<notin> payload b" using that(3) by (auto simp: apart_def b_end_def)
  qed
  show "preserves s (bs @ lost) (s\<lparr>mem := m'\<rparr>) (bs @ lost) {} {b}"
    using inv own blk unfolding preserves_def hw.select_convs hw.simps by simp
qed

section \<open>Small requests\<close>

text \<open>A request of at most a page takes at most one frame.\<close>

lemma malloc_frames:
  assumes "heap_inv s bs lost" "unat sz \<le> 4084" "malloc sz s = Some (p, t)"
  shows "card (free_pages s) \<le> Suc (card (free_pages t))"
proof -
  have fit: "free_pages u' = free_pages u" if "heap_inv u cs ls" "\<exists>b \<in> set cs. fits (unat sz) b" "malloc sz u = Some (q, u')"
    for u u' :: "'a heap_state_scheme" and cs ls q
  proof -
    note u = that
    obtain pre b post where cs: "cs = pre @ b # post" "fits (unat sz) b" "\<forall>x \<in> set pre. \<not> fits (unat sz) x"
      using u(2) split_list_first_prop [of cs "fits (unat sz)"] by blast
    obtain m' where "malloc sz u = Some (of_nat (b_addr b + 12), u\<lparr>mem := m'\<rparr>)" "free_pages (u\<lparr>mem := m'\<rparr>) = free_pages u"
      by (rule malloc_fit_inv [OF u(1) [unfolded cs(1)] cs(3,2)])
    then show ?thesis using u(3) by auto
  qed
  show ?thesis
  proof (cases "(\<exists>b \<in> set bs. fits (unat sz) b) \<or> free_pages s = {}")
    case True
    then show ?thesis
    proof
      assume "\<exists>b \<in> set bs. fits (unat sz) b"
      from fit [OF assms(1) this assms(3)] show ?thesis by simp
    qed simp
  next
    case False
    then have nf: "\<forall>b \<in> set bs. \<not> fits (unat sz) b" and ne: "free_pages s \<noteq> {}" by auto
    obtain pre e post where bs: "bs = pre @ e # post" and e: "b_addr e = unat (heap_end s)"
      using assms(1) unfolding heap_inv_def by (metis split_list)
    let ?P = "page_block (Min (free_pages s))"
    obtain s1 where s1: "grow_heap (fst (pmm_alloc_page s)) (snd (pmm_alloc_page s)) = s1"
      "fst (pmm_alloc_page s) \<noteq> 0" "heap_inv s1 (pre @ [e, ?P]) (post @ lost)"
      "free_pages s1 = free_pages s - {Min (free_pages s)}"
      using grow_heap_inv [OF assms(1) [unfolded bs] e ne] by metis
    have step: "malloc sz s1 = Some (p, t)"
      using malloc_no_fit(2) [OF assms(1) nf s1(2)] s1(1) assms(3) by simp
    have "fits (unat sz) ?P" using assms(2) by (simp add: fits_def)
    then have "\<exists>b \<in> set (pre @ [e, ?P]). fits (unat sz) b" by simp
    note same = fit [OF s1(3) this step]
    have "Min (free_pages s) \<in> free_pages s" using ne by (intro Min_in) auto
    then show ?thesis by (simp add: same s1(4))
  qed
qed

text \<open>With a frame free it succeeds.\<close>

lemma malloc_small:
  assumes "heap_inv s bs lost" "free_pages s \<noteq> {}" "0 < sz" "unat sz \<le> 4084"
  obtains p t bs' lost' b where "malloc sz s = Some (p, t)" "p \<noteq> 0" "heap_inv t bs' lost'"
    "preserves s (bs @ lost) t (bs' @ lost') {} {}" "heap_within s (bs @ lost) t (bs' @ lost')"
    "keeps_used (bs @ lost) (bs' @ lost') (mem s) (mem t)"
    "b \<in> set bs'" "b_used b" "unat p = b_addr b + 12" "unat sz \<le> b_size b" "unat p + unat sz \<le> 2 ^ 32"
    "\<And>c. c \<in> set (bs @ lost) \<Longrightarrow> b_used c \<Longrightarrow> apart b c" "card (free_pages s) \<le> Suc (card (free_pages t))"
    "free_pages t \<subseteq> free_pages s"
proof -
  obtain p t bs' lost' where t: "malloc sz s = Some (p, t)" "heap_inv t bs' lost'"
    "keeps_used (bs @ lost) (bs' @ lost') (mem s) (mem t)" "heap_within s (bs @ lost) t (bs' @ lost')"
    "p = 0 \<longrightarrow> 4084 < unat sz \<or> free_pages s = {}"
    "p \<noteq> 0 \<longrightarrow> (\<exists>b \<in> set bs'. b_used b \<and> unat p = b_addr b + 12 \<and> unat sz \<le> b_size b \<and>
       (\<forall>c \<in> set (bs @ lost). b_used c \<longrightarrow> apart b c))"
    "free_pages t \<subseteq> free_pages s"
    using malloc_spec [OF assms(1,3)] by blast
  have p: "p \<noteq> 0" using t(5) assms(2,4) by auto
  then obtain b where b: "b \<in> set bs'" "b_used b" "unat p = b_addr b + 12" "unat sz \<le> b_size b"
    "\<forall>c \<in> set (bs @ lost). b_used c \<longrightarrow> apart b c" using t(6) by blast
  have "b_end b \<le> 2 ^ 32" using t(2) b(1) by (auto simp: heap_inv_def packed_def)
  then have le: "unat p + unat sz \<le> 2 ^ 32" using b(3,4) by (simp add: b_end_def)
  have ap: "\<And>c. c \<in> set (bs @ lost) \<Longrightarrow> b_used c \<Longrightarrow> apart b c" using b(5) by blast
  show thesis
    by (rule that [OF t(1) p t(2) preserves_malloc [OF assms(1) t(2,4,3)] t(4,3) b(1,2,3,4) le ap
          malloc_frames [OF assms(1,4) t(1)] t(7)])
qed

end
