(* ===== verification/RamfsUse.thy ===== *)
theory RamfsUse
  imports Ramfs HeapFrame
begin

text \<open>
  What the RAM file system promises.  Abstractly it is a list of files, each a name, a
  data block and a size; \<open>fs_inv\<close> relates it to the table in memory and to the
  kernel heap the data blocks come from.  The search through the table, which
  \<open>ramfs_write\<close> and \<open>ramfs_read\<close> share, is the locale
  \<open>table_scan\<close>.
\<close>

section \<open>The table\<close>

type_synonym rfile = "u8 list \<times> u32 \<times> u32"

abbreviation f_name :: "rfile \<Rightarrow> u8 list" where "f_name f \<equiv> fst f"
abbreviation f_block :: "rfile \<Rightarrow> u32 set" where "f_block f \<equiv> nspan (unat (fst (snd f))) 1024"

definition table_span :: "linker \<Rightarrow> u32 set" where
  "table_span L = span (addr_ramfs_files L) 4608"

abbreviation file_span :: "linker \<Rightarrow> nat \<Rightarrow> u32 set" where
  "file_span L i \<equiv> span (ramfs_file L (of_nat i)) 72"

definition file_ok :: "linker \<Rightarrow> memory \<Rightarrow> nat \<Rightarrow> rfile \<Rightarrow> bool" where
  "file_ok L m i f \<longleftrightarrow> (let p = ramfs_file L (of_nat i) in
     cstr m p (f_name f) \<and> length (f_name f) \<le> 63 \<and> f_data m p = fst (snd f) \<and> f_size m p = snd (snd f))"

text \<open>The data of a file is a block of the heap in use.\<close>

definition has_block :: "hblk list \<Rightarrow> rfile \<Rightarrow> bool" where
  "has_block bs f \<longleftrightarrow> snd (snd f) \<le> 1024 \<and> unat (fst (snd f)) + 1024 \<le> 2 ^ 32 \<and>
     (\<exists>b \<in> set bs. b_used b \<and> unat (fst (snd f)) = b_addr b + 12 \<and> 1024 \<le> b_size b)"

definition fs_inv :: "linker \<Rightarrow> 'a ramfs_state_scheme \<Rightarrow> hblk list \<Rightarrow> hblk list \<Rightarrow> rfile list \<Rightarrow> bool" where
  "fs_inv L s bs lost fs \<longleftrightarrow> fs_true s \<and> length fs = unat (ramfs_file_count s) \<and> length fs \<le> 64 \<and>
     (\<forall>i < length fs. file_ok L (mem s) i (fs ! i)) \<and>
     (\<forall>i < 64. length fs \<le> i \<longrightarrow> (\<forall>x \<in> file_span L i. mem s x = 0)) \<and>
     heap_inv s bs lost \<and> table_span L \<inter> heap_area s (bs @ lost) = {} \<and>
     (\<forall>f \<in> set fs. has_block (bs @ lost) f) \<and>
     (\<forall>i < length fs. \<forall>j < i. f_block (fs ! i) \<inter> f_block (fs ! j) = {})"

lemma file_offset:
  assumes "i < 64"
  shows "x \<in> file_span L i \<longleftrightarrow> unat (x - addr_ramfs_files L) div 72 = i"
proof -
  let ?d = "x - addr_ramfs_files L"
  have i: "unat (of_nat (i * 72) :: u32) = i * 72" using assms by (intro unat_of_nat32) simp
  have "ramfs_file L (of_nat i) = addr_ramfs_files L + of_nat (i * 72)" by (simp add: ramfs_file_def)
  then have "x \<in> file_span L i \<longleftrightarrow> unat (?d - of_nat (i * 72)) < 72" by (simp add: span_iff algebra_simps)
  also have "\<dots> \<longleftrightarrow> ?d \<in> span (of_nat (i * 72)) 72" by (simp add: span_iff)
  also have "\<dots> \<longleftrightarrow> i * 72 \<le> unat ?d \<and> unat ?d < i * 72 + 72"
    using assms by (subst span_nowrap) (simp_all only: i, simp)
  also have "\<dots> \<longleftrightarrow> unat ?d div 72 = i" by auto
  finally show ?thesis .
qed

lemma file_span_table: "i < 64 \<Longrightarrow> file_span L i \<subseteq> table_span L"
  by (auto simp: file_offset table_span_def span_iff [of _ "addr_ramfs_files L"])

lemma file_span_disjoint: "i < 64 \<Longrightarrow> j < 64 \<Longrightarrow> i \<noteq> j \<Longrightarrow> file_span L i \<inter> file_span L j = {}"
  by (auto simp: file_offset)

lemma file_fields:
  assumes "i < 64"
  shows "span (ramfs_file L (of_nat i)) 64 \<subseteq> file_span L i"
    "span (ramfs_file L (of_nat i) + 64) 4 \<subseteq> file_span L i" "span (ramfs_file L (of_nat i) + 68) 4 \<subseteq> file_span L i"
  using span_add [of "ramfs_file L (of_nat i)" 64 8] span_add [of "ramfs_file L (of_nat i) + 64" 4 4]
  by (auto simp: add.assoc)

lemma file_head_cong:
  assumes "\<And>x. x \<in> span p 68 \<Longrightarrow> m' x = m x"
  shows "length n \<le> 63 \<Longrightarrow> cstr m' p n = cstr m p n" "f_data m' p = f_data m p"
proof -
  have sub: "span p 64 \<subseteq> span p 68" "span (p + 64) 4 \<subseteq> span p 68"
    using span_add [of p 64 4] by auto
  show "cstr m' p n = cstr m p n" if "length n \<le> 63"
    by (rule cstr_cong) (use assms sub(1) span_mono [of "Suc (length n)" 64 p] that in auto)
  show "f_data m' p = f_data m p" unfolding f_data_def using assms sub(2) by (blast intro: rd32_cong)
qed

lemma file_ok_cong:
  assumes "i < 64" "\<And>x. x \<in> file_span L i \<Longrightarrow> m' x = m x"
  shows "file_ok L m' i f = file_ok L m i f"
proof -
  let ?p = "ramfs_file L (of_nat i)"
  have "m' x = m x" if "x \<in> span ?p 68" for x using assms(2) span_mono [of 68 72 ?p] that by auto
  note head = file_head_cong [of ?p, OF this]
  have "f_size m' ?p = f_size m ?p"
    unfolding f_size_def using assms file_fields(3) by (blast intro: rd32_cong)
  then show ?thesis using head by (auto simp: file_ok_def Let_def)
qed

section \<open>The search through the table\<close>

locale table_scan =
  fixes loop :: "nat list \<Rightarrow> 's \<Rightarrow> (u32 \<times> 's) option"
    and ok :: "'s \<Rightarrow> nat \<Rightarrow> bool"
    and hit :: "'s \<Rightarrow> nat \<Rightarrow> bool"
    and act :: "nat \<Rightarrow> 's \<Rightarrow> u32 \<times> 's"
  assumes loop_end: "loop [] s = Some (FAULT, s)"
    and loop_step: "ok s i \<Longrightarrow> loop (i # is) s = (if hit s i then Some (act i s) else loop is s)"
begin

lemma scan:
  assumes "\<And>i. i \<in> set is \<Longrightarrow> ok s i"
  shows "loop is s = Some (case List.find (hit s) is of None \<Rightarrow> (FAULT, s) | Some i \<Rightarrow> act i s)"
  using assms by (induction "is") (simp_all add: loop_end loop_step)

text \<open>The first hit decides.\<close>

lemma scan_hit:
  assumes "\<And>i. i < k \<Longrightarrow> ok s i" "i < k" "hit s i" "\<And>j. j < i \<Longrightarrow> \<not> hit s j"
  shows "loop [0..<k] s = Some (act i s)"
proof -
  have "List.find (hit s) [0..<k] = Some i"
    unfolding find_Some_iff using assms(2-4) by (intro exI [of _ i]) simp
  then show ?thesis using scan [of "[0..<k]" s] assms(1) by simp
qed

lemma scan_miss:
  assumes "\<And>i. i < k \<Longrightarrow> ok s i" "\<And>j. j < k \<Longrightarrow> \<not> hit s j"
  shows "loop [0..<k] s = Some (FAULT, s)"
proof -
  have "List.find (hit s) [0..<k] = None" using assms(2) by (simp add: find_None_iff)
  then show ?thesis using scan [of "[0..<k]" s] assms(1) by simp
qed

end

text \<open>Both loops of the file system are such a search, for the files of a table.\<close>

definition entry_named :: "linker \<Rightarrow> u32 \<Rightarrow> u8 list \<Rightarrow> rfile list \<Rightarrow> memory \<Rightarrow> nat \<Rightarrow> bool" where
  "entry_named L name n fs m i \<longleftrightarrow> cstr m name n \<and> i < length fs \<and> file_ok L m i (fs ! i)"

lemma entry_strcmp:
  assumes "entry_named L name n fs m i"
  shows "\<exists>r. strcmp m (ramfs_file L (of_nat i)) name = Some r \<and> (r = 0 \<longleftrightarrow> f_name (fs ! i) = n)"
    "f_data m (ramfs_file L (of_nat i)) = fst (snd (fs ! i))" "f_size m (ramfs_file L (of_nat i)) = snd (snd (fs ! i))"
proof -
  have c: "cstr m (ramfs_file L (of_nat i)) (f_name (fs ! i))" "cstr m name n"
    and d: "f_data m (ramfs_file L (of_nat i)) = fst (snd (fs ! i))" "f_size m (ramfs_file L (of_nat i)) = snd (snd (fs ! i))"
    using assms by (simp_all add: entry_named_def file_ok_def Let_def)
  show "\<exists>r. strcmp m (ramfs_file L (of_nat i)) name = Some r \<and> (r = 0 \<longleftrightarrow> f_name (fs ! i) = n)"
    using strcmp_compare [OF c] compare_bytes_eq_0 [OF cstr_nonzero cstr_nonzero, OF c] by simp
  show "f_data m (ramfs_file L (of_nat i)) = fst (snd (fs ! i))" "f_size m (ramfs_file L (of_nat i)) = snd (snd (fs ! i))"
    by (fact d)+
qed

definition stored :: "linker \<Rightarrow> u32 \<Rightarrow> nat \<Rightarrow> rfile \<Rightarrow> 'a ramfs_state_scheme \<Rightarrow> 'a ramfs_state_scheme" where
  "stored L buf i f s =
     s\<lparr>mem := wr32 (memcpy (mem s) (fst (snd f)) buf 1024) (ramfs_file L (of_nat i) + 68) 1024\<rparr>"

definition fetched :: "u32 \<Rightarrow> u32 \<Rightarrow> rfile \<Rightarrow> 'a ramfs_state_scheme \<Rightarrow> 'a ramfs_state_scheme" where
  "fetched buf max_len f s = s\<lparr>mem := memcpy (mem s) buf (fst (snd f)) max_len\<rparr>"

interpretation write_scan: table_scan "write_loop L name buf len"
  "\<lambda>s. entry_named L name n fs (mem s)" "\<lambda>s i. f_name (fs ! i) = n \<and> 1024 < len"
  "\<lambda>i s. (1024, stored L buf i (fs ! i) s)"
  for L name buf len n and fs :: "rfile list"
proof
  fix s :: "'a ramfs_state_scheme" and i "is"
  assume ok: "entry_named L name n fs (mem s) i"
  note e = entry_strcmp [OF ok]
  obtain r where r: "strcmp (mem s) (ramfs_file L (of_nat i)) name = Some r" "r = 0 \<longleftrightarrow> f_name (fs ! i) = n"
    using e(1) by blast
  show "write_loop L name buf len (i # is) s =
     (if f_name (fs ! i) = n \<and> 1024 < len then Some (1024, stored L buf i (fs ! i) s) else write_loop L name buf len is s)"
    using r e(2) by (simp add: Let_def stored_def)
qed simp

interpretation read_scan: table_scan "read_loop L name buf max_len"
  "\<lambda>s. entry_named L name n fs (mem s)" "\<lambda>s i. f_name (fs ! i) = n \<and> max_len < snd (snd (fs ! i))"
  "\<lambda>i s. (max_len, fetched buf max_len (fs ! i) s)"
  for L name buf max_len n and fs :: "rfile list"
proof
  fix s :: "'a ramfs_state_scheme" and i "is"
  assume ok: "entry_named L name n fs (mem s) i"
  note e = entry_strcmp [OF ok]
  obtain r where r: "strcmp (mem s) (ramfs_file L (of_nat i)) name = Some r" "r = 0 \<longleftrightarrow> f_name (fs ! i) = n"
    using e(1) by blast
  show "read_loop L name buf max_len (i # is) s =
     (if f_name (fs ! i) = n \<and> max_len < snd (snd (fs ! i)) then Some (max_len, fetched buf max_len (fs ! i) s)
      else read_loop L name buf max_len is s)"
    using r e(2,3) by (simp add: Let_def fetched_def)
qed simp

section \<open>Reading and writing\<close>

lemma fs_inv_entries:
  assumes "fs_inv L s bs lost fs" "cstr (mem s) name n" "i < unat (ramfs_file_count s)"
  shows "entry_named L name n fs (mem s) i"
  using assms by (auto simp: fs_inv_def entry_named_def)

lemma fs_invD:
  assumes "fs_inv L s bs lost fs"
  shows "fs_true s" "length fs = unat (ramfs_file_count s)" "length fs \<le> 64" "heap_inv s bs lost"
    "table_span L \<inter> heap_area s (bs @ lost) = {}" "\<And>i. i < length fs \<Longrightarrow> file_ok L (mem s) i (fs ! i)"
    "\<And>f. f \<in> set fs \<Longrightarrow> snd (snd f) \<le> 1024" "\<And>f. f \<in> set fs \<Longrightarrow> unat (fst (snd f)) + 1024 \<le> 2 ^ 32"
    "\<And>i x. i < 64 \<Longrightarrow> length fs \<le> i \<Longrightarrow> x \<in> file_span L i \<Longrightarrow> mem s x = 0"
  using assms by (auto simp: fs_inv_def has_block_def)

lemma fs_inv_block:
  assumes "fs_inv L s bs lost fs" "f \<in> set fs"
  obtains b where "b \<in> set (bs @ lost)" "f_block f \<subseteq> payload b"
    "f_block f \<subseteq> heap_area s (bs @ lost)" "f_block f = span (fst (snd f)) 1024"
proof -
  obtain b where b: "b \<in> set (bs @ lost)" "unat (fst (snd f)) = b_addr b + 12" "1024 \<le> b_size b"
    and w: "unat (fst (snd f)) + 1024 \<le> 2 ^ 32"
    using assms unfolding fs_inv_def has_block_def by blast
  have p: "f_block f \<subseteq> payload b" using b(2,3) by auto
  moreover have "payload b \<subseteq> b_span b" by auto
  ultimately have "f_block f \<subseteq> heap_area s (bs @ lost)"
    using b(1) by (auto simp: heap_area_def simp del: nspan_iff)
  moreover have "f_block f = span (fst (snd f)) 1024" by (auto simp: span_nowrap [OF w])
  ultimately show thesis using that b(1) p by blast
qed

lemma ramfs_write_hit:
  assumes "fs_inv L s bs lost fs" "cstr (mem s) name n" "i < length fs" "f_name (fs ! i) = n"
    and "\<And>j. j < i \<Longrightarrow> f_name (fs ! j) \<noteq> n" "1024 < len"
  shows "ramfs_write L name buf len s = Some (1024, stored L buf i (fs ! i) s)"
proof -
  have "write_loop L name buf len [0..<unat (ramfs_file_count s)] s = Some (1024, stored L buf i (fs ! i) s)"
    using assms fs_inv_entries [OF assms(1,2)] fs_invD(2) [OF assms(1)]
    by (intro write_scan.scan_hit [where n = n and fs = fs]) auto
  then show ?thesis using fs_invD(1) [OF assms(1)] by (simp add: ramfs_write_def)
qed

lemma ramfs_write_miss:
  assumes "fs_inv L s bs lost fs" "cstr (mem s) name n" "len \<le> 1024 \<or> n \<notin> f_name ` set fs"
  shows "ramfs_write L name buf len s = Some (FAULT, s)"
proof -
  have "f_name (fs ! j) \<noteq> n" if "j < length fs" "n \<notin> f_name ` set fs" for j using that by force
  then have "write_loop L name buf len [0..<unat (ramfs_file_count s)] s = Some (FAULT, s)"
    using assms(3) fs_inv_entries [OF assms(1,2)] fs_invD(2) [OF assms(1)]
    by (intro write_scan.scan_miss [where n = n and fs = fs]) (auto simp: not_less)
  then show ?thesis using fs_invD(1) [OF assms(1)] by (simp add: ramfs_write_def)
qed

lemma ramfs_read_hit:
  assumes "fs_inv L s bs lost fs" "cstr (mem s) name n" "i < length fs" "f_name (fs ! i) = n"
    and "\<And>j. j < i \<Longrightarrow> f_name (fs ! j) \<noteq> n" "max_len < snd (snd (fs ! i))"
  shows "ramfs_read L name buf max_len s = Some (max_len, fetched buf max_len (fs ! i) s)"
proof -
  have "read_loop L name buf max_len [0..<unat (ramfs_file_count s)] s =
      Some (max_len, fetched buf max_len (fs ! i) s)"
    using assms fs_inv_entries [OF assms(1,2)] fs_invD(2) [OF assms(1)]
    by (intro read_scan.scan_hit [where n = n and fs = fs]) auto
  then show ?thesis using fs_invD(1) [OF assms(1)] by (simp add: ramfs_read_def)
qed

lemma ramfs_read_miss:
  assumes "fs_inv L s bs lost fs" "cstr (mem s) name n" "\<And>f. f \<in> set fs \<Longrightarrow> f_name f = n \<Longrightarrow> snd (snd f) \<le> max_len"
  shows "ramfs_read L name buf max_len s = Some (FAULT, s)"
proof -
  have "\<not> (f_name (fs ! j) = n \<and> max_len < snd (snd (fs ! j)))" if "j < length fs" for j
    using assms(3) [OF nth_mem [OF that]] by (auto simp: not_less)
  then have "read_loop L name buf max_len [0..<unat (ramfs_file_count s)] s = Some (FAULT, s)"
    using fs_inv_entries [OF assms(1,2)] fs_invD(2) [OF assms(1)]
    by (intro read_scan.scan_miss [where n = n and fs = fs]) auto
  then show ?thesis using fs_invD(1) [OF assms(1)] by (simp add: ramfs_read_def)
qed

text \<open>What a write touches: the data block of the file and its size field.\<close>

definition write_set :: "linker \<Rightarrow> nat \<Rightarrow> rfile \<Rightarrow> u32 set" where
  "write_set L i f = f_block f \<union> span (ramfs_file L (of_nat i) + 68) 4"

lemma write_set_apart:
  assumes inv: "fs_inv L s bs lost fs" and i: "i < length fs"
  shows "write_set L i (fs ! i) \<inter> bitmap_region s = {}"
    "c \<in> set bs \<Longrightarrow> nspan (b_addr c) 12 \<inter> write_set L i (fs ! i) = {}"
    "j < 64 \<Longrightarrow> j \<noteq> i \<Longrightarrow> file_span L j \<inter> write_set L i (fs ! i) = {}"
    "span (ramfs_file L (of_nat i)) 68 \<inter> write_set L i (fs ! i) = {}"
proof -
  note D = fs_invD [OF inv]
  obtain b where b: "b \<in> set (bs @ lost)" "f_block (fs ! i) \<subseteq> payload b"
    "f_block (fs ! i) \<subseteq> heap_area s (bs @ lost)"
    using fs_inv_block [OF inv nth_mem [OF i]] by metis
  have i64: "i < 64" using i D(3) by simp
  have t: "file_span L k \<inter> f_block (fs ! i) = {}" if "k < 64" for k
    using file_span_table [OF that] b(3) D(5) by blast
  let ?S = "span (ramfs_file L (of_nat i) + 68) 4"
  have S: "?S \<subseteq> file_span L i" by (rule file_fields(3) [OF i64])
  then have out: "?S \<inter> heap_area s (bs @ lost) = {}" using file_span_table [OF i64] D(5) by blast
  show "write_set L i (fs ! i) \<inter> bitmap_region s = {}"
    unfolding write_set_def using heap_inv_payload(1) [OF D(4) b(1,2)] heap_inv_outside(1) [OF out] by blast
  show "nspan (b_addr c) 12 \<inter> write_set L i (fs ! i) = {}" if "c \<in> set bs"
    unfolding write_set_def
    using heap_inv_payload(2) [OF D(4) b(1,2) that] heap_inv_outside(2) [OF out that] by blast
  show "file_span L j \<inter> write_set L i (fs ! i) = {}" if "j < 64" "j \<noteq> i"
    unfolding write_set_def using t [OF that(1)] file_span_disjoint [OF that(1) i64 that(2)] S by blast
  have "span (ramfs_file L (of_nat i)) 68 \<subseteq> file_span L i"
    by (rule span_mono) simp
  moreover have "span (ramfs_file L (of_nat i)) 68 \<inter> ?S = {}"
    using span_tail_disjoint [of 68 4] by fastforce
  ultimately show "span (ramfs_file L (of_nat i)) 68 \<inter> write_set L i (fs ! i) = {}"
    unfolding write_set_def using t [OF i64] by blast
qed

lemma stored_mem:
  assumes inv: "fs_inv L s bs lost fs" and i: "i < length fs"
  shows "only_changes (write_set L i (fs ! i)) (mem s) (mem (stored L buf i (fs ! i) s))"
    "f_size (mem (stored L buf i (fs ! i) s)) (ramfs_file L (of_nat i)) = 1024"
    "j < 1024 \<Longrightarrow> mem (stored L buf i (fs ! i) s) (fst (snd (fs ! i)) + of_nat j) = mem s (buf + of_nat j)"
proof -
  obtain b where b: "f_block (fs ! i) \<subseteq> heap_area s (bs @ lost)" "f_block (fs ! i) = span (fst (snd (fs ! i))) 1024"
    using fs_inv_block [OF inv nth_mem [OF i]] by metis
  let ?S = "span (ramfs_file L (of_nat i) + 68) 4" and ?p = "fst (snd (fs ! i))"
  have "only_changes (f_block (fs ! i)) (mem s) (memcpy (mem s) ?p buf 1024)"
    unfolding b(2) memcpy_def using memmove_only [of ?p 1024] by simp
  from only_changes_trans [OF this only_changes_wr32 [OF subset_refl]]
  show "only_changes (write_set L i (fs ! i)) (mem s) (mem (stored L buf i (fs ! i) s))"
    unfolding write_set_def stored_def by simp
  show "f_size (mem (stored L buf i (fs ! i) s)) (ramfs_file L (of_nat i)) = 1024"
    by (simp add: stored_def f_size_def)
  have i64: "i < 64" using i fs_invD(3) [OF inv] by simp
  have "?S \<inter> f_block (fs ! i) = {}"
    using file_fields(3) [OF i64] file_span_table [OF i64] fs_invD(5) [OF inv] b(1) by blast
  moreover assume j: "j < 1024"
  then have "?p + of_nat j \<in> span ?p 1024" by (intro in_span_offset) simp_all
  moreover from this have "unat (?p + of_nat j - ?p) < 1024" by (simp add: span_iff)
  ultimately have "?p + of_nat j \<notin> ?S" unfolding b(2) by blast
  then show "mem (stored L buf i (fs ! i) s) (?p + of_nat j) = mem s (buf + of_nat j)"
    using \<open>?p + of_nat j \<in> span ?p 1024\<close> by (simp add: stored_def wr32_other memcpy_def memmove_def)
qed

lemma stored_inv:
  assumes inv: "fs_inv L s bs lost fs" and i: "i < length fs"
  shows "fs_inv L (stored L buf i (fs ! i) s) bs lost (fs[i := (f_name (fs ! i), fst (snd (fs ! i)), 1024)])"
proof -
  let ?f = "(f_name (fs ! i), fst (snd (fs ! i)), 1024 :: u32)"
  obtain m where m: "stored L buf i (fs ! i) s = s\<lparr>mem := m\<rparr>" by (simp add: stored_def)
  note D = fs_invD [OF inv]
  note o = stored_mem(1) [OF inv i, of buf, unfolded m, simplified]
  note sz = stored_mem(2) [OF inv i, of buf, unfolded m, simplified]
  note apart = write_set_apart [OF inv i]
  note h = heap_inv_frame [OF D(4) o apart(1,2)]
  have i64: "i < 64" using i D(3) by simp
  have same: "m x = mem s x" if "j < 64" "j \<noteq> i" "x \<in> file_span L j" for j x
    using only_changesD [OF o] apart(3) [OF that(1,2)] that(3) by blast
  have other: "file_ok L m j (fs ! j)" if "j < length fs" "j \<noteq> i" for j
    using D(6) [OF that(1)] file_ok_cong [of j L m "mem s"] same [of j] that D(3) by simp
  let ?p = "ramfs_file L (of_nat i)"
  have hd: "m x = mem s x" if "x \<in> span ?p 68" for x
    using only_changesD [OF o] apart(4) that by blast
  note eq = file_head_cong [of ?p, OF hd]
  have "file_ok L m i ?f" using D(6) [OF i] eq sz by (simp add: file_ok_def Let_def)
  then have "\<forall>j < length fs. file_ok L m j (fs[i := ?f] ! j)"
    using other i by (auto simp: nth_list_update)
  moreover have "\<forall>j < 64. length fs \<le> j \<longrightarrow> (\<forall>x \<in> file_span L j. m x = 0)"
    using inv same i unfolding fs_inv_def by auto
  moreover have "\<forall>g \<in> set fs. has_block (bs @ lost) g" using inv by (simp add: fs_inv_def)
  then have "has_block (bs @ lost) ?f" "\<forall>g \<in> set fs. has_block (bs @ lost) g"
    using nth_mem [OF i] by (auto simp: has_block_def)
  then have "\<forall>g \<in> set (fs[i := ?f]). has_block (bs @ lost) g"
    using set_update_subset_insert [of fs i ?f] by blast
  moreover have "f_block (fs[i := ?f] ! j) = f_block (fs ! j)" if "j < length fs" for j
    using i by (cases "j = i") auto
  ultimately show ?thesis
    unfolding m fs_inv_def using h inv unfolding fs_inv_def by simp
qed

section \<open>Creating a file\<close>

lemma cstr_nth:
  assumes "0 \<notin> set xs" "\<And>i. i < length xs \<Longrightarrow> m (p + of_nat i) = xs ! i" "m (p + of_nat (length xs)) = 0"
  shows "cstr m p xs"
  using assms
proof (induction xs arbitrary: p)
  case (Cons x xs)
  have "m (p + 1 + of_nat i) = xs ! i" if "i < length xs" for i
    using Cons.prems(2) [of "Suc i"] that by (simp add: algebra_simps)
  moreover have "m p = x" using Cons.prems(2) [of 0] by simp
  moreover have "m (p + 1 + of_nat (length xs)) = 0" using Cons.prems(3) by (simp add: algebra_simps)
  ultimately show ?case using Cons.prems(1) Cons.IH [of "p + 1"] by auto
qed simp

lemma strncpy_name:
  assumes "cstr m name n" "span name (Suc (length n)) \<inter> span f 63 = {}" "m (f + 63) = 0"
  shows "cstr (strncpy m f name 63) f (take 63 n)" "only_changes (span f 63) m (strncpy m f name 63)"
proof -
  have d: "span name (Suc (length n)) \<inter> span f (unat (63 :: u32)) = {}" using assms(2) by simp
  note copy = strncpy_apply [OF assms(1) d]
  show "only_changes (span f 63) m (strncpy m f name 63)"
    by (simp add: only_changes_def copy)
  show "cstr (strncpy m f name 63) f (take 63 n)"
  proof (rule cstr_nth)
    show "0 \<notin> set (take 63 n)" using cstr_nonzero [OF assms(1)] in_set_takeD by metis
    have at: "strncpy m f name 63 (f + of_nat i) = (if i < 63 then if i < length n then n ! i else 0 else m (f + of_nat i))"
      if "i \<le> 63" for i
    proof -
      have "unat (of_nat i :: u32) = i" using that by (intro unat_of_nat32) simp
      then show ?thesis by (simp add: copy span_iff)
    qed
    show "strncpy m f name 63 (f + of_nat i) = take 63 n ! i" if "i < length (take 63 n)" for i
      using at [of i] that by simp
    show "strncpy m f name 63 (f + of_nat (length (take 63 n))) = 0"
      using at [of "min (length n) 63"] assms(3) by (cases "length n < 63") (auto simp: min_def)
  qed
qed

lemma fs_inv_extend:
  assumes inv: "fs_inv L s bs lost fs" and k: "length fs < 64"
    and "heap_inv t bs' lost'" "fs_true t" "ramfs_file_count t = ramfs_file_count s + 1"
    and area: "heap_area t (bs' @ lost') \<subseteq> heap_area s (bs @ lost)"
    and same: "\<And>x. x \<in> table_span L \<Longrightarrow> x \<notin> file_span L (length fs) \<Longrightarrow> mem t x = mem s x"
    and new: "file_ok L (mem t) (length fs) f" "has_block (bs' @ lost') f"
    and old: "\<And>g. g \<in> set fs \<Longrightarrow> has_block (bs' @ lost') g \<and> f_block f \<inter> f_block g = {}"
  shows "fs_inv L t bs' lost' (fs @ [f])"
proof -
  note D = fs_invD [OF inv]
  have "ramfs_file_count s < 64" using k D(2) by (simp add: word_less_nat_alt)
  then have "unat (ramfs_file_count t) = Suc (length fs)" using unat_inc assms(5) D(2) by metis
  moreover have eq: "mem t x = mem s x" if "j < 64" "j \<noteq> length fs" "x \<in> file_span L j" for j x
    using same [of x] file_span_table [OF that(1)] file_span_disjoint [OF that(1) k that(2)] that(3) by blast
  have "file_ok L (mem t) j ((fs @ [f]) ! j)" if "j < length (fs @ [f])" for j
  proof (cases "j = length fs")
    case False
    then show ?thesis using that k D(6) [of j] file_ok_cong [of j L "mem t" "mem s"] eq [of j] by (simp add: nth_append)
  qed (simp add: new(1))
  moreover have "\<forall>j < 64. length (fs @ [f]) \<le> j \<longrightarrow> (\<forall>x \<in> file_span L j. mem t x = 0)"
    using inv eq unfolding fs_inv_def by simp
  moreover have "table_span L \<inter> heap_area t (bs' @ lost') = {}" using area D(5) by blast
  moreover have "f_block ((fs @ [f]) ! i) \<inter> f_block ((fs @ [f]) ! j) = {}" if "i < length (fs @ [f])" "j < i" for i j
  proof (cases "i = length fs")
    case True
    then show ?thesis using old [of "fs ! j"] that(2) by (simp add: nth_append del: nspan_iff)
  next
    case False
    then show ?thesis using inv that unfolding fs_inv_def by (simp add: nth_append)
  qed
  ultimately show ?thesis using assms(3,4) k new(2) old unfolding fs_inv_def by simp
qed

lemma count_frame [simp]:
  fixes s :: "'a ramfs_state_scheme"
  shows "free_pages (s\<lparr>ramfs_file_count := c\<rparr>) = free_pages s" "heap_inv (s\<lparr>ramfs_file_count := c\<rparr>) bs lost = heap_inv s bs lost"
    "heap_area (s\<lparr>ramfs_file_count := c\<rparr>) cs = heap_area s cs"
  by (simp_all add: free_pages_def heap_inv_def pmm_inv_def bitmap_region_def heap_area_def)

text \<open>The name of the new file is stored, and memory is asked for.\<close>

definition named :: "linker \<Rightarrow> u32 \<Rightarrow> 'a ramfs_state_scheme \<Rightarrow> 'a ramfs_state_scheme" where
  "named L name s = s\<lparr>ramfs_file_count := ramfs_file_count s + 1,
     mem := strncpy (mem s) (ramfs_file L (ramfs_file_count s)) name 63\<rparr>"

lemma ramfs_create_malloc:
  assumes "fs_true s" "ramfs_file_count s < 64" "malloc 1024 (named L name s) = Some (p, t)"
  shows "ramfs_create L name s = (let f = ramfs_file L (ramfs_file_count s); m = wr32 (mem t) (f + 64) p in
     Some (if p \<noteq> 0 then (-1, t\<lparr>mem := m\<rparr>)
           else (SUCCESS, t\<lparr>mem := memset (wr32 m (f + 68) 0) (f_data (wr32 m (f + 68) 0) f) 0 1024\<rparr>)))"
  using assms by (simp add: ramfs_create_def named_def Let_def f_data_def not_le [symmetric])

lemma named_ok:
  assumes inv: "fs_inv L s bs lost fs" and k: "length fs < 64"
    and n: "cstr (mem s) name n" "span name (Suc (length n)) \<inter> table_span L = {}"
  shows "heap_inv (named L name s) bs lost" "free_pages (named L name s) = free_pages s"
    "heap_area (named L name s) cs = heap_area s cs"
    "only_changes (span (ramfs_file L (of_nat (length fs))) 63) (mem s) (mem (named L name s))"
    "cstr (mem (named L name s)) (ramfs_file L (of_nat (length fs))) (take 63 n)"
    "span (ramfs_file L (of_nat (length fs))) 63 \<subseteq> file_span L (length fs)"
proof -
  note D = fs_invD [OF inv]
  let ?f = "ramfs_file L (of_nat (length fs))"
  have c: "ramfs_file_count s = of_nat (length fs)" by (simp add: D(2))
  show sub: "span ?f 63 \<subseteq> file_span L (length fs)" by (rule span_mono) simp
  have tab: "span ?f 63 \<subseteq> table_span L" using sub file_span_table [OF k] by blast
  have "?f + of_nat 63 \<in> file_span L (length fs)" by (intro in_span_offset) simp_all
  then have z: "mem s (?f + 63) = 0" using inv k unfolding fs_inv_def by auto
  have d: "span name (Suc (length n)) \<inter> span ?f 63 = {}" using n(2) tab by blast
  note name = strncpy_name [OF n(1) d z]
  have m: "mem (named L name s) = strncpy (mem s) ?f name 63" by (simp add: named_def c)
  show o: "only_changes (span ?f 63) (mem s) (mem (named L name s))" and "cstr (mem (named L name s)) ?f (take 63 n)"
    unfolding m by (fact name)+
  have out: "span ?f 63 \<inter> heap_area s (bs @ lost) = {}" using tab D(5) by blast
  note h = heap_inv_frame [OF D(4) name(2) heap_inv_outside [OF out]]
  have st: "named L name s = (s\<lparr>mem := strncpy (mem s) ?f name 63\<rparr>)\<lparr>ramfs_file_count := of_nat (length fs) + 1\<rparr>"
    by (simp add: named_def c)
  show "heap_inv (named L name s) bs lost" "free_pages (named L name s) = free_pages s"
    "heap_area (named L name s) cs = heap_area s cs"
    unfolding st using h by simp_all
qed

lemma new_entry:
  assumes "i < 64" "cstr m (ramfs_file L (of_nat i)) n" "length n \<le> 63"
    and "\<And>x. x \<in> span (ramfs_file L (of_nat i) + 68) 4 \<Longrightarrow> m x = 0"
  shows "file_ok L (wr32 m (ramfs_file L (of_nat i) + 64) p) i (n, p, 0)"
proof -
  let ?f = "ramfs_file L (of_nat i)"
  let ?m = "wr32 m (?f + 64) p"
  have d: "x \<notin> span (?f + 64) 4" if "x \<in> span (?f + 68) 4" for x
    using span_tail_disjoint [of 4 4 x "?f + 64"] that by (auto simp: add.assoc)
  have "x \<notin> span (?f + 64) 4" if "x \<in> span ?f (Suc (length n))" for x
    using span_tail_disjoint [of 64 4 x ?f] span_mono [of "Suc (length n)" 64 ?f] assms(3) that by auto
  then have "cstr ?m ?f n = cstr m ?f n" by (intro cstr_cong) (simp add: wr32_other)
  moreover have "rd32 ?m (?f + 68) = rd32 (\<lambda>_. 0) (?f + 68)"
    using d assms(4) by (intro rd32_cong) (simp add: wr32_other)
  then have "f_size ?m ?f = 0" by (simp add: f_size_def rd32_def)
  ultimately show ?thesis using assms(2,3) by (simp add: file_ok_def Let_def f_data_def)
qed

lemma malloc_kb:
  assumes "heap_inv s bs lost" "free_pages s \<noteq> {}"
  obtains p t bs' lost' b where "malloc 1024 s = Some (p, t)" "p \<noteq> 0" "heap_inv t bs' lost'"
    "keeps_used (bs @ lost) (bs' @ lost') (mem s) (mem t)" "heap_within s (bs @ lost) t (bs' @ lost')"
    "b \<in> set bs'" "b_used b" "unat p = b_addr b + 12" "1024 \<le> b_size b" "unat p + 1024 \<le> 2 ^ 32"
    "\<And>c. c \<in> set (bs @ lost) \<Longrightarrow> b_used c \<Longrightarrow> apart b c"
proof -
  have sz: "0 < (1024 :: u32)" "unat (1024 :: u32) \<le> 4084" by simp_all
  obtain p t bs' lost' b where t: "malloc 1024 s = Some (p, t)" "p \<noteq> 0" "heap_inv t bs' lost'"
    "heap_within s (bs @ lost) t (bs' @ lost')" "keeps_used (bs @ lost) (bs' @ lost') (mem s) (mem t)"
    "b \<in> set bs'" "b_used b" "unat p = b_addr b + 12" "unat (1024 :: u32) \<le> b_size b"
    "unat p + unat (1024 :: u32) \<le> 2 ^ 32" "\<And>c. c \<in> set (bs @ lost) \<Longrightarrow> b_used c \<Longrightarrow> apart b c"
    by (rule malloc_small [OF assms sz], rule that, assumption+)
  from t(9,10) show thesis by (intro that [OF t(1-3,5,4,6-8) _ _ t(11)]) simp_all
qed

text \<open>After \<open>malloc\<close> the new entry is complete and the other files are as before.\<close>

lemma created_files:
  assumes inv: "fs_inv L s bs lost fs" and k: "length fs < 64"
    and n: "cstr (mem s) name n" "span name (Suc (length n)) \<inter> table_span L = {}"
    and t: "heap_within (named L name s) (bs @ lost) t (bs' @ lost')"
      "keeps_used (bs @ lost) (bs' @ lost') (mem (named L name s)) (mem t)"
    and m: "m = wr32 (mem t) (ramfs_file L (of_nat (length fs)) + 64) p"
  shows "x \<in> table_span L \<Longrightarrow> x \<notin> file_span L (length fs) \<Longrightarrow> m x = mem s x"
    "file_ok L m (length fs) (take 63 n, p, 0)"
    "g \<in> set fs \<Longrightarrow> has_block (bs' @ lost') g \<and> (\<forall>x \<in> f_block g. m x = mem s x)"
proof -
  note D = fs_invD [OF inv] and N = named_ok [OF inv k n]
  let ?f = "ramfs_file L (of_nat (length fs))" and ?s = "named L name s"
  have tab: "file_span L (length fs) \<subseteq> table_span L" by (rule file_span_table [OF k])
  note field = file_fields [OF k, of L]
  have mt: "only_changes (heap_area s (bs @ lost)) (mem ?s) (mem t)"
    using t(1) N(3) unfolding heap_within_def by simp
  have keep: "mem t x = mem ?s x" if "x \<in> table_span L" for x
    using only_changesD [OF mt] D(5) that by blast
  have out: "m x = mem t x" "mem ?s x = mem s x" if "x \<notin> file_span L (length fs)" for x
  proof -
    have "x \<notin> span (?f + 64) 4" "x \<notin> span ?f 63" using that field(2) N(6) by blast+
    then show "m x = mem t x" "mem ?s x = mem s x"
      unfolding m by (simp_all add: wr32_other only_changesD [OF N(4)])
  qed
  show "x \<in> table_span L \<Longrightarrow> x \<notin> file_span L (length fs) \<Longrightarrow> m x = mem s x"
    using out keep by simp
  have "mem t x = 0" if "x \<in> span (?f + 68) 4" for x
  proof -
    have "x \<notin> span ?f 63"
      using span_tail_disjoint [of 68 4 x ?f] span_mono [of 63 68 ?f] that by auto
    moreover have x: "x \<in> file_span L (length fs)" "x \<in> table_span L" using that field(3) tab by blast+
    ultimately show ?thesis using D(9) [OF k le_refl x(1)] by (simp add: keep only_changesD [OF N(4)])
  qed
  moreover have "cstr (mem t) ?f (take 63 n)"
  proof -
    have "x \<in> table_span L" if "x \<in> span ?f 68" for x using that span_mono [of 68 72 ?f] tab by auto
    then show ?thesis using file_head_cong(1) [of ?f "mem t" "mem ?s" "take 63 n"] keep N(5) by simp
  qed
  ultimately show "file_ok L m (length fs) (take 63 n, p, 0)" unfolding m by (intro new_entry [OF k]) auto
  assume g: "g \<in> set fs"
  then have hb: "has_block (bs @ lost) g" using inv by (simp add: fs_inv_def)
  then obtain c where c: "c \<in> set (bs @ lost)" "b_used c" "unat (fst (snd g)) = b_addr c + 12" "1024 \<le> b_size c"
    by (auto simp: has_block_def)
  have sub: "f_block g \<subseteq> payload c" unfolding c(3) by (rule payload_mono [OF c(4)])
  have kc: "c \<in> set (bs' @ lost')" "\<And>x. x \<in> payload c \<Longrightarrow> mem t x = mem ?s x"
    using t(2) c(1,2) unfolding keeps_used_def by blast+
  obtain "f_block g \<subseteq> heap_area s (bs @ lost)" using fs_inv_block [OF inv g] by metis
  then have "x \<notin> file_span L (length fs)" if "x \<in> f_block g" for x using D(5) tab that by blast
  then have "m x = mem s x" if "x \<in> f_block g" for x using out [of x] kc(2) sub that by auto
  then show "has_block (bs' @ lost') g \<and> (\<forall>x \<in> f_block g. m x = mem s x)"
    using hb kc(1) c unfolding has_block_def by blast
qed

lemma ramfs_create_file:
  assumes "fs_inv L s bs lost fs" "length fs < 64" "free_pages s \<noteq> {}"
    and "cstr (mem s) name n" "span name (Suc (length n)) \<inter> table_span L = {}"
  shows "\<exists>p s' bs' lost'. ramfs_create L name s = Some (-1, s') \<and> p \<noteq> 0 \<and>
    fs_inv L s' bs' lost' (fs @ [(take 63 n, p, 0)]) \<and>
    (\<forall>g \<in> set fs. \<forall>x \<in> f_block g. mem s' x = mem s x) \<and>
    only_changes (table_span L \<union> heap_area s (bs @ lost)) (mem s) (mem s') \<and>
    heap_area s' (bs' @ lost') \<subseteq> heap_area s (bs @ lost)"
proof -
  note D = fs_invD [OF assms(1)] and N = named_ok [OF assms(1,2,4,5)]
  let ?f = "ramfs_file L (of_nat (length fs))" and ?s = "named L name s"
  have c: "ramfs_file_count s = of_nat (length fs)" "ramfs_file_count s < 64"
    using assms(2) by (simp_all add: D(2) word_less_nat_alt)
  have ne: "free_pages ?s \<noteq> {}" using N(2) assms(3) by simp
  obtain p t bs' lost' b where t: "malloc 1024 ?s = Some (p, t)" "p \<noteq> 0" "heap_inv t bs' lost'"
    "keeps_used (bs @ lost) (bs' @ lost') (mem ?s) (mem t)" "heap_within ?s (bs @ lost) t (bs' @ lost')"
    and b: "b \<in> set bs'" "b_used b" "unat p = b_addr b + 12" "1024 \<le> b_size b" "unat p + 1024 \<le> 2 ^ 32"
    "\<And>c. c \<in> set (bs @ lost) \<Longrightarrow> b_used c \<Longrightarrow> apart b c"
    by (rule malloc_kb [OF N(1) ne], rule that, assumption+)
  let ?m = "wr32 (mem t) (?f + 64) p"
  let ?t = "t\<lparr>mem := ?m\<rparr>"
  note F = created_files [where p = p, OF assms(1,2,4,5) t(5,4) refl]
  have area: "heap_area t (bs' @ lost') \<subseteq> heap_area s (bs @ lost)"
    and frame: "\<exists>m e l. t = ?s\<lparr>mem := m, heap_end := e, heap_limit := l\<rparr>"
    using t(5) N(3) unfolding heap_within_def by simp_all
  have out: "span (?f + 64) 4 \<inter> heap_area t (bs' @ lost') = {}"
    using area file_fields(2) [OF assms(2), of L] file_span_table [OF assms(2), of L] D(5) by blast
  note h = heap_inv_frame [OF t(3) only_changes_wr32 [OF subset_refl] heap_inv_outside [OF out], of p]
  have dis: "f_block (take 63 n, p, 0 :: u32) \<inter> f_block g = {}" if "g \<in> set fs" for g
  proof -
    have "has_block (bs @ lost) g" using assms(1) that by (simp add: fs_inv_def)
    then show ?thesis using apart_payload [OF b(6)] b(3,4) by (fastforce simp: has_block_def)
  qed
  have new: "has_block (bs' @ lost') (take 63 n, p, 0)" using b(1-5) unfolding has_block_def by auto
  have st: "fs_true ?t" "ramfs_file_count ?t = ramfs_file_count s + 1"
    using frame D(1) by (auto simp: named_def)
  have "fs_inv L ?t bs' lost' (fs @ [(take 63 n, p, 0)])"
    using area F dis new h(1,3) by (intro fs_inv_extend [OF assms(1,2) _ st]) simp_all
  moreover have "ramfs_create L name s = Some (-1, ?t)"
    using ramfs_create_malloc [OF D(1) c(2) t(1)] t(2) by (simp add: c(1) Let_def)
  moreover have "only_changes (table_span L \<union> heap_area s (bs @ lost)) (mem s) ?m"
  proof -
    have sub: "span ?f 63 \<subseteq> table_span L" "span (?f + 64) 4 \<subseteq> table_span L"
      using N(6) file_fields(2) [OF assms(2), of L] file_span_table [OF assms(2), of L] by blast+
    have "only_changes (heap_area s (bs @ lost)) (mem ?s) (mem t)"
      using t(5) N(3) unfolding heap_within_def by simp
    from only_changes_trans [OF only_changes_trans [OF N(4) this] only_changes_wr32 [OF subset_refl]] show ?thesis
      using sub by (rule_tac only_changes_mono) blast+
  qed
  ultimately show ?thesis using t(2) F(3) area h(3) by (intro exI [of _ p] exI [of _ ?t] exI [of _ bs'] exI [of _ lost']) simp
qed

section \<open>Initialisation\<close>

lemma ramfs_init_inv:
  fixes s :: "'a ramfs_state_scheme"
  assumes "heap_inv s bs lost" "table_span L \<inter> heap_area s (bs @ lost) = {}"
  shows "fs_inv L (ramfs_init L s) bs lost []" "free_pages (ramfs_init L s) = free_pages s"
    "heap_area (ramfs_init L s) cs = heap_area s cs"
    "only_changes (table_span L) (mem s) (mem (ramfs_init L s))"
proof -
  let ?m = "memset (mem s) (addr_ramfs_files L) 0 4608"
  have m: "ramfs_init L s = s\<lparr>mem := ?m\<rparr>\<lparr>ramfs_file_count := 0, fs_true := True\<rparr>"
    by (simp add: ramfs_init_def Let_def)
  show o: "only_changes (table_span L) (mem s) (mem (ramfs_init L s))"
    unfolding m table_span_def using memset_only [of "addr_ramfs_files L" 4608] by simp
  have fr: "heap_inv (t\<lparr>ramfs_file_count := 0, fs_true := True\<rparr>) bs lost = heap_inv t bs lost"
    "free_pages (t\<lparr>ramfs_file_count := 0, fs_true := True\<rparr>) = free_pages t"
    "heap_area (t\<lparr>ramfs_file_count := 0, fs_true := True\<rparr>) ds = heap_area t ds" for t :: "'a ramfs_state_scheme" and ds
    by (simp_all add: free_pages_def heap_inv_def pmm_inv_def bitmap_region_def heap_area_def)
  have o': "only_changes (table_span L) (mem s) ?m" using o unfolding m by simp
  note h = heap_inv_frame [OF assms(1) o' heap_inv_outside [OF assms(2)]]
  show "free_pages (ramfs_init L s) = free_pages s" unfolding m fr by (rule h(2))
  show a: "heap_area (ramfs_init L s) cs = heap_area s cs" for cs unfolding m fr by (rule h(3))
  have "heap_inv (ramfs_init L s) bs lost" unfolding m fr by (rule h(1))
  moreover have "\<forall>i < 64. \<forall>x \<in> file_span L i. mem (ramfs_init L s) x = 0"
  proof (intro allI impI ballI)
    fix i x assume "i < (64 :: nat)" "x \<in> file_span L i"
    then have "x \<in> table_span L" using file_span_table by blast
    then show "mem (ramfs_init L s) x = 0" by (simp add: m memset_apply table_span_def)
  qed
  moreover have "fs_true (ramfs_init L s)" "ramfs_file_count (ramfs_init L s) = 0" by (simp_all add: m)
  ultimately show "fs_inv L (ramfs_init L s) bs lost []"
    unfolding fs_inv_def a using assms(2) by simp
qed

section \<open>A booted machine with an empty file system\<close>

definition no_ops :: fs_ops where
  "no_ops = \<lparr>op_create = Fs_none, op_write = Fs_none, op_read = Fs_none, op_list = Fs_none\<rparr>"

definition ramfs0 :: "proc_state \<Rightarrow> ramfs_state" where
  "ramfs0 p = proc_state.extend p
     (ramfs_state.fields False no_ops 0 (replicate 16 \<lparr>m_path = 0, m_ops = 0\<rparr>) 0)"

definition heap_booted :: ramfs_state where
  "heap_booted = ramfs0 (proc0 (pci0 (gd0 (paging0 (heap_init before_heap)))))"

lemma heap_booted_inv:
  "heap_inv heap_booted [page_block 1] []" "free_pages heap_booted = free_pages before_heap - {1}"
  "bitmap_region heap_booted = bitmap_region (heap_init before_heap)"
proof -
  let ?h = "heap_init before_heap"
  have f: "mem heap_booted = mem ?h" "heap_start heap_booted = heap_start ?h" "heap_end heap_booted = heap_end ?h"
    "pmm_bitmap heap_booted = pmm_bitmap ?h" "pmm_bitmap_size heap_booted = pmm_bitmap_size ?h"
    "total_pages heap_booted = total_pages ?h"
    by (simp_all add: heap_booted_def ramfs0_def proc0_def pci0_def gd0_def paging0_def ramfs_state.defs
        proc_state.defs pci_state.defs gd_state.defs paging_state.defs heap_state.defs)
  then have "free_pages heap_booted = free_pages ?h" by (simp add: free_pages_def)
  moreover have b: "bitmap_region heap_booted = bitmap_region ?h" by (simp add: bitmap_region_def f)
  ultimately show "heap_inv heap_booted [page_block 1] []" "free_pages heap_booted = free_pages before_heap - {1}"
    using heap_init_before(1,2) by (simp_all add: heap_inv_def pmm_inv_def f)
  show "bitmap_region heap_booted = bitmap_region ?h" by (rule b)
qed

text \<open>The kernel image at 2 MiB is no memory of the heap.\<close>

lemma image_outside_heap:
  assumes "0x200000 \<le> unat x" "unat x < 0x210000"
  shows "x \<notin> heap_area heap_booted [page_block 1]"
proof -
  have inv: "pmm_inv heap_booted" using heap_booted_inv(1) by (simp add: heap_inv_def)
  have "pmm_bitmap before_heap = 0x100000"
    using booted_pmm_free(2) by (simp add: before_heap_def heap0_def pmm_alloc_page_spec pmm_state.defs heap_state.defs)
  then have bm: "pmm_bitmap heap_booted = 0x100000"
    by (simp add: heap_booted_def ramfs0_def proc0_def pci0_def gd0_def paging0_def ramfs_state.defs heap_init_def
        proc_state.defs pci_state.defs gd_state.defs paging_state.defs heap_state.defs pmm_alloc_page_spec)
  have t: "unat (total_pages heap_booted) \<le> 2 ^ 20" "pmm_bitmap_size heap_booted = (total_pages heap_booted + 7) div 8"
    using inv by (simp_all add: pmm_inv_def)
  then have "unat (total_pages heap_booted + 7) = unat (total_pages heap_booted) + 7" by (simp add: unat_word_ariths)
  then have "unat (pmm_bitmap_size heap_booted) \<le> 2 ^ 18" using t by (simp add: unat_div)
  then have "x \<notin> bitmap_region heap_booted"
    using assms by (simp add: bitmap_region_def bm span_nowrap)
  moreover have "x \<notin> page_span i" if "i \<in> free_pages heap_booted" for i
  proof
    have "i \<in> free_pages booted_pmm" using that by (simp add: heap_booted_inv(2) before_heap_ok(4))
    then have "\<not> range_frame 0x200000 0x210000 i" by (simp add: booted_pmm_free(3) boot_free_def)
    moreover assume "x \<in> page_span i"
    then have "unat x div 4096 = i" using page_span_iff free_pages_bound [OF inv that] by blast
    then have "512 \<le> i" "i < 528" using assms by auto
    ultimately show False by (simp add: range_frame_def)
  qed
  moreover have "x \<notin> b_span (page_block 1)" using assms by simp
  ultimately show ?thesis by (simp add: heap_area_def)
qed

lemma image_span:
  assumes "0x200000 \<le> unat p" "unat p + k \<le> 0x210000"
  shows "span p k \<inter> heap_area heap_booted [page_block 1] = {}"
proof -
  have "0x200000 \<le> unat x" "unat x < 0x210000" if "x \<in> span p k" for x
    using that assms by (simp_all add: span_nowrap)
  then show ?thesis using image_outside_heap by blast
qed

text \<open>The file system is initialised and the string \<open>a\<close> lies at 0x20C000.\<close>

definition empty_fs :: ramfs_state where
  "empty_fs = ramfs_init linker0 (heap_booted\<lparr>mem := put_bytes (mem heap_booted) 0x20C000 [97, 0]\<rparr>)"

lemma table_linker0: "table_span linker0 = span 0x208000 4608"
  by (simp add: table_span_def)

lemma empty_fs_inv:
  "fs_inv linker0 empty_fs [page_block 1] [] []" "free_pages empty_fs = free_pages before_heap - {1}"
  "heap_area empty_fs cs = heap_area heap_booted cs" "cstr (mem empty_fs) 0x20C000 [97]"
  "span 0x20C000 (Suc (length [97 :: u8])) \<inter> table_span linker0 = {}"
proof -
  let ?m = "put_bytes (mem heap_booted) 0x20C000 [97, 0]"
  have o: "only_changes (span 0x20C000 2) (mem heap_booted) ?m"
    using put_bytes_only [of "0x20C000" "[97, 0]"] by (simp add: numeral_2_eq_2)
  have out: "span 0x20C000 2 \<inter> heap_area heap_booted ([page_block 1] @ []) = {}"
    using image_span [of "0x20C000" 2] by simp
  note h = heap_inv_frame [OF heap_booted_inv(1) o heap_inv_outside [OF out]]
  have tab: "table_span linker0 \<inter> heap_area (heap_booted\<lparr>mem := ?m\<rparr>) ([page_block 1] @ []) = {}"
    unfolding table_linker0 using image_span [of "0x208000" 4608] by (subst h(3)) simp_all
  note i = ramfs_init_inv [OF h(1) tab]
  show "fs_inv linker0 empty_fs [page_block 1] [] []" "free_pages empty_fs = free_pages before_heap - {1}"
    "heap_area empty_fs cs = heap_area heap_booted cs"
    unfolding empty_fs_def using i h heap_booted_inv(2) by simp_all
  show d: "span 0x20C000 (Suc (length [97 :: u8])) \<inter> table_span linker0 = {}"
    unfolding table_linker0 by (rule span_disjoint) simp_all
  have "cstr (mem empty_fs) 0x20C000 [97] = cstr ?m 0x20C000 [97]"
    using d only_changesD [OF i(4)] unfolding empty_fs_def by (intro cstr_cong) (auto simp del: put_bytes.simps)
  then show "cstr (mem empty_fs) 0x20C000 [97]"
    using put_bytes_cstr [of "[97]" "mem heap_booted" "0x20C000"] by simp
qed

lemma empty_fs_free: "free_pages empty_fs \<noteq> {}"
proof -
  have "2 \<in> free_pages empty_fs" unfolding empty_fs_inv(2) by (simp add: before_heap_frames)
  then show ?thesis by blast
qed

text \<open>One file of that name.\<close>

definition one_file :: ramfs_state where
  "one_file = snd (the (ramfs_create linker0 0x20C000 empty_fs))"

lemma one_file_inv:
  obtains p bs lost where "fs_inv linker0 one_file bs lost [([97], p, 0)]" "cstr (mem one_file) 0x20C000 [97]"
    "span 0x20C000 (Suc (length [97 :: u8])) \<inter> (table_span linker0 \<union> heap_area one_file (bs @ lost)) = {}"
proof -
  let ?S = "span 0x20C000 (Suc (length [97 :: u8]))"
  obtain p s' bs' lost' where c: "ramfs_create linker0 0x20C000 empty_fs = Some (-1, s')"
    "fs_inv linker0 s' bs' lost' ([] @ [(take 63 [97], p, 0)])"
    "only_changes (table_span linker0 \<union> heap_area empty_fs ([page_block 1] @ [])) (mem empty_fs) (mem s')"
    "heap_area s' (bs' @ lost') \<subseteq> heap_area empty_fs ([page_block 1] @ [])"
    using ramfs_create_file [OF empty_fs_inv(1) _ empty_fs_free empty_fs_inv(4,5)] by auto
  have s: "one_file = s'" by (simp add: one_file_def c(1))
  have "?S \<inter> heap_area empty_fs ([page_block 1] @ []) = {}"
    unfolding empty_fs_inv(3) using image_span [of "0x20C000" "Suc (length [97 :: u8])"] by simp
  then have out: "?S \<inter> (table_span linker0 \<union> heap_area empty_fs ([page_block 1] @ [])) = {}"
    using empty_fs_inv(5) by blast
  then have "cstr (mem one_file) 0x20C000 [97] = cstr (mem empty_fs) 0x20C000 [97]"
    unfolding s using only_changesD [OF c(3)] by (intro cstr_cong) blast
  then show thesis using that [of bs' lost' p] c(2,4) out empty_fs_inv(4) by (simp add: s) blast
qed

lemma initramfs_result:
  fixes s :: "'a ramfs_state_scheme"
  assumes "mount_count s = 0" "length (mounts s) = 16"
  shows "\<exists>s'. initramfs L s = Some s' \<and> fs_true s' \<and> ramfs_file_count s' = 0 \<and> mount_count s' = 1 \<and>
    ramfs_ops s' = \<lparr>op_create = Fs_ramfs_create, op_write = Fs_ramfs_write, op_read = Fs_ramfs_read, op_list = Fs_ramfs_list\<rparr> \<and>
    (\<forall>path root n. cstr (mem s') (addr_root_path L) root \<and> cstr (mem s') path n \<longrightarrow>
       fs_get_ops path s' = Some (if n = root then addr_ramfs_ops L else 0)) \<and>
    current_process s' = current_process s \<and> process_list s' = process_list s \<and>
    paging_on s' = paging_on s \<and> interrupts_on s' = interrupts_on s"
proof -
  let ?s = "ramfs_init L s"
  obtain t u where t: "INFO ''ROOT: RAMFS initialized!\<newline>'' ?s = Some t" "gd_only ?s t"
    and u: "INFO ''Mounting r:\<newline>'' t = Some u" "gd_only t u"
    using drawsD [OF draws_INFO] by metis
  have fu: "fs_true u" "ramfs_file_count u = 0" "mount_count u = 0" "length (mounts u) = 16"
    using gd_only_trans [OF t(2) u(2)] assms by (auto simp: gd_only_def ramfs_init_def Let_def)
  let ?ops = "\<lparr>op_create = Fs_ramfs_create, op_write = Fs_ramfs_write, op_read = Fs_ramfs_read, op_list = Fs_ramfs_list\<rparr>"
  let ?u = "u\<lparr>ramfs_ops := ?ops, mounts := (mounts u)[0 := \<lparr>m_path = addr_root_path L, m_ops = addr_ramfs_ops L\<rparr>],
    mount_count := 1\<rparr>"
  have m: "ramfs_mount L (addr_root_path L) u = Some ?u"
    using fu by (simp add: ramfs_mount_def fs_mount_def Let_def)
  obtain v where v: "INFO ''Mounted r: at RAM (Root dir)\<newline>'' ?u = Some v" "gd_only ?u v"
    using drawsD [OF draws_INFO] by metis
  have fv: "fs_true v" "ramfs_file_count v = 0" "mount_count v = 1" "ramfs_ops v = ?ops" "mounts v = mounts ?u"
    using v(2) fu by (auto simp: gd_only_def)
  have "initramfs L s = Some v" using t(1) u(1) m v(1) by (simp add: initramfs_def Let_def)
  moreover have "fs_get_ops path v = Some (if n = root then addr_ramfs_ops L else 0)"
    if "cstr (mem v) (addr_root_path L) root" "cstr (mem v) path n" for path root n
  proof -
    have "take 1 (mounts v) = [\<lparr>m_path = addr_root_path L, m_ops = addr_ramfs_ops L\<rparr>]"
      using fv(5) fu(4) by (cases "mounts u") auto
    then show ?thesis
      using strcmp_compare [OF that] compare_bytes_eq_0 [OF cstr_nonzero cstr_nonzero, OF that] fv(3)
      by (auto simp: fs_get_ops_def)
  qed
  moreover have "current_process v = current_process s \<and> process_list v = process_list s \<and>
      paging_on v = paging_on s \<and> interrupts_on v = interrupts_on s"
    using v(2) gd_only_trans [OF t(2) u(2)] by (auto simp: gd_only_def ramfs_init_def Let_def)
  ultimately show ?thesis using fv(1-4) by blast
qed

text \<open>After a write the other files' blocks are as before, and a read finds what was written.\<close>

lemma write_set_sub:
  assumes "fs_inv L s bs lost fs" "i < length fs"
  shows "write_set L i (fs ! i) \<subseteq> table_span L \<union> heap_area s (bs @ lost)"
proof -
  have "i < 64" using assms fs_invD(3) [OF assms(1)] by simp
  then have "span (ramfs_file L (of_nat i) + 68) 4 \<subseteq> table_span L" using file_fields(3) file_span_table by blast
  moreover have "f_block (fs ! i) \<subseteq> heap_area s (bs @ lost)" using fs_inv_block [OF assms(1) nth_mem [OF assms(2)]] by metis
  ultimately show ?thesis unfolding write_set_def by blast
qed

lemma stored_others:
  assumes "fs_inv L s bs lost fs" "i < length fs" "j < length fs" "j \<noteq> i" "x \<in> f_block (fs ! j)"
  shows "mem (stored L buf i (fs ! i) s) x = mem s x"
proof -
  note D = fs_invD [OF assms(1)]
  have "i < 64" using assms(2) D(3) by simp
  then have S: "span (ramfs_file L (of_nat i) + 68) 4 \<subseteq> table_span L" using file_fields(3) file_span_table by blast
  have "f_block (fs ! j) \<subseteq> heap_area s (bs @ lost)" using fs_inv_block [OF assms(1) nth_mem [OF assms(3)]] by metis
  then have "x \<notin> table_span L" using D(5) assms(5) by blast
  moreover have "f_block (fs ! i) \<inter> f_block (fs ! j) = {}"
    using assms(1-4) unfolding fs_inv_def by (metis Int_commute linorder_neqE_nat)
  ultimately have "x \<notin> write_set L i (fs ! i)" unfolding write_set_def using S assms(5) by blast
  then show ?thesis by (rule only_changesD [OF stored_mem(1) [OF assms(1,2)]])
qed

lemma stored_read:
  assumes inv: "fs_inv L s bs lost fs" "i < length fs"
    and inv': "fs_inv L (stored L buf i (fs ! i) s) bs lost (fs[i := (n, fst (snd (fs ! i)), 1024)])"
    and name: "cstr (mem (stored L buf i (fs ! i) s)) name n" "\<And>j. j < i \<Longrightarrow> f_name (fs ! j) \<noteq> n"
    and len: "max_len < 1024"
  shows "\<exists>t. ramfs_read L name buf' max_len (stored L buf i (fs ! i) s) = Some (max_len, t) \<and>
    (\<forall>j < unat max_len. mem t (buf' + of_nat j) = mem s (buf + of_nat j)) \<and>
    only_changes (span buf' (unat max_len)) (mem (stored L buf i (fs ! i) s)) (mem t)"
proof -
  let ?s = "stored L buf i (fs ! i) s" and ?fs = "fs[i := (n, fst (snd (fs ! i)), 1024)]"
  have i': "i < length ?fs" "f_name (?fs ! i) = n" "max_len < snd (snd (?fs ! i))" using inv(2) len by simp_all
  have "f_name (?fs ! j) \<noteq> n" if "j < i" for j using name(2) [OF that] inv(2) that by simp
  from ramfs_read_hit [OF inv' name(1) i'(1,2) this i'(3)]
  have r: "ramfs_read L name buf' max_len ?s = Some (max_len, fetched buf' max_len (?fs ! i) ?s)" .
  have "mem (fetched buf' max_len (?fs ! i) ?s) (buf' + of_nat j) = mem s (buf + of_nat j)" if "j < unat max_len" for j
  proof -
    have j: "j < 1024" using that len by (simp add: word_less_nat_alt)
    then have "unat (of_nat j :: u32) = j" by (intro unat_of_nat32) simp
    then show ?thesis
      using stored_mem(3) [OF inv j] that inv(2) by (simp add: fetched_def memcpy_def memmove_def span_iff)
  qed
  moreover have "only_changes (span buf' (unat max_len)) (mem ?s) (mem (fetched buf' max_len (?fs ! i) ?s))"
    by (simp add: fetched_def memcpy_def memmove_only)
  ultimately show ?thesis using r by blast
qed

section \<open>Properties\<close>



text \<open>
  C19 (writing and reading back): a write of more than 1024 bytes to the first file of
  that name stores the first 1024 bytes of the buffer and no other file's data changes;
  a read of fewer than 1024 bytes then returns exactly those bytes and writes nothing
  but the caller's buffer.
\<close>

theorem ramfs_write_read:
  assumes "fs_inv L s bs lost fs" "i < length fs" "f_name (fs ! i) = n" "\<And>j. j < i \<Longrightarrow> f_name (fs ! j) \<noteq> n"
    and "cstr (mem s) name n" "span name (Suc (length n)) \<inter> (table_span L \<union> heap_area s (bs @ lost)) = {}"
    and "1024 < len"
  shows "\<exists>s'. ramfs_write L name buf len s = Some (1024, s') \<and>
    fs_inv L s' bs lost (fs[i := (n, fst (snd (fs ! i)), 1024)]) \<and>
    (\<forall>j < length fs. j \<noteq> i \<longrightarrow> (\<forall>x \<in> f_block (fs ! j). mem s' x = mem s x)) \<and>
    (\<forall>buf' max_len. max_len < 1024 \<longrightarrow> (\<exists>s''. ramfs_read L name buf' max_len s' = Some (max_len, s'') \<and>
       (\<forall>j < unat max_len. mem s'' (buf' + of_nat j) = mem s (buf + of_nat j)) \<and>
       only_changes (span buf' (unat max_len)) (mem s') (mem s'')))"
proof -
  let ?s = "stored L buf i (fs ! i) s"
  have w: "ramfs_write L name buf len s = Some (1024, ?s)" by (rule ramfs_write_hit [OF assms(1,5,2,3,4,7)])
  have inv: "fs_inv L ?s bs lost (fs[i := (n, fst (snd (fs ! i)), 1024)])"
    using stored_inv [OF assms(1,2), of buf] assms(3) by simp
  have "cstr (mem ?s) name n = cstr (mem s) name n"
    using assms(6) write_set_sub [OF assms(1,2)] only_changesD [OF stored_mem(1) [OF assms(1,2), of buf]]
    by (intro cstr_cong) blast
  then have name: "cstr (mem ?s) name n" using assms(5) by simp
  show ?thesis
    using w inv stored_others [OF assms(1,2)] stored_read [OF assms(1,2) inv name assms(4)] by blast
qed

theorem ramfs_write_read_witness:
  "\<exists>s' s''. ramfs_write linker0 0x20C000 0x300000 2000 one_file = Some (1024, s') \<and>
    ramfs_read linker0 0x20C000 0x400000 5 s' = Some (5, s'') \<and> mem s'' 0x400002 = mem one_file 0x300002"
proof -
  obtain p bs lost where i: "fs_inv linker0 one_file bs lost [([97], p, 0)]" "cstr (mem one_file) 0x20C000 [97]"
    "span 0x20C000 (Suc (length [97 :: u8])) \<inter> (table_span linker0 \<union> heap_area one_file (bs @ lost)) = {}"
    by (rule one_file_inv)
  have i0: "0 < length [([97 :: u8], p, 0 :: u32)]" "f_name ([([97 :: u8], p, 0 :: u32)] ! 0) = [97]"
    "\<And>j :: nat. j < 0 \<Longrightarrow> f_name ([([97 :: u8], p, 0 :: u32)] ! j) \<noteq> [97]" "1024 < (2000 :: u32)" by simp_all
  obtain s' where s': "ramfs_write linker0 0x20C000 0x300000 2000 one_file = Some (1024, s')"
    "\<forall>buf' max_len. max_len < 1024 \<longrightarrow> (\<exists>s''. ramfs_read linker0 0x20C000 buf' max_len s' = Some (max_len, s'') \<and>
       (\<forall>j < unat max_len. mem s'' (buf' + of_nat j) = mem one_file (0x300000 + of_nat j)) \<and>
       only_changes (span buf' (unat max_len)) (mem s') (mem s''))"
    using ramfs_write_read [OF i(1) i0(1-3) i(2,3) i0(4), of "0x300000"] by blast
  then obtain s'' where "ramfs_read linker0 0x20C000 0x400000 5 s' = Some (5, s'')"
    "\<forall>j < unat (5 :: u32). mem s'' (0x400000 + of_nat j) = mem one_file (0x300000 + of_nat j)"
    using s'(2) [rule_format, of 5 "0x400000"] by auto
  then show ?thesis using s'(1) by (auto dest: spec [of _ 2])
qed

text \<open>
  C21 (what is refused): every write of at most 1024 bytes, the size of a file, every
  read into a buffer of 1024 bytes or more, and every operation on a name that is not
  in the table returns \<open>FAULT\<close> and changes nothing.
\<close>

theorem ramfs_refusals:
  assumes "fs_inv L s bs lost fs" "cstr (mem s) name n"
  shows "(len \<le> 1024 \<or> n \<notin> f_name ` set fs \<longrightarrow> ramfs_write L name buf len s = Some (FAULT, s)) \<and>
    (1024 \<le> max_len \<or> n \<notin> f_name ` set fs \<longrightarrow> ramfs_read L name buf max_len s = Some (FAULT, s))"
proof (intro conjI impI)
  assume "1024 \<le> max_len \<or> n \<notin> f_name ` set fs"
  then have "snd (snd f) \<le> max_len" if "f \<in> set fs" "f_name f = n" for f
    using fs_invD(7) [OF assms(1) that(1)] that by (auto intro: order_trans)
  then show "ramfs_read L name buf max_len s = Some (FAULT, s)" by (rule ramfs_read_miss [OF assms])
qed (rule ramfs_write_miss [OF assms])

theorem ramfs_refusals_witness:
  "ramfs_write linker0 0x20C000 0x300000 1024 one_file = Some (FAULT, one_file) \<and>
    ramfs_read linker0 0x20C000 0x300000 4096 one_file = Some (FAULT, one_file)"
proof -
  obtain p bs lost where i: "fs_inv linker0 one_file bs lost [([97], p, 0)]" "cstr (mem one_file) 0x20C000 [97]"
    "span 0x20C000 (Suc (length [97 :: u8])) \<inter> (table_span linker0 \<union> heap_area one_file (bs @ lost)) = {}"
    by (rule one_file_inv)
  then show ?thesis using ramfs_refusals [OF i(1,2), where len = 1024 and buf = "0x300000" and max_len = 4096] by simp
qed

text \<open>
  Creating a file without memory: when the heap has no room and no frame is free,
  \<open>ramfs_create\<close> returns \<open>SUCCESS\<close>; the file's data pointer is NULL and
  the first KiB of physical memory has been cleared.
\<close>

theorem ramfs_create_out_of_memory:
  assumes "fs_inv L s bs lost fs" "length fs < 64" "free_pages s = {}" "\<And>b. b \<in> set bs \<Longrightarrow> \<not> fits 1024 b"
    and "cstr (mem s) name n" "span name (Suc (length n)) \<inter> table_span L = {}" "table_span L \<inter> span 0 1024 = {}"
  shows "\<exists>s'. ramfs_create L name s = Some (SUCCESS, s') \<and> ramfs_file_count s' = ramfs_file_count s + 1 \<and>
    f_data (mem s') (ramfs_file L (ramfs_file_count s)) = 0 \<and> (\<forall>x \<in> span 0 1024. mem s' x = 0)"
proof -
  note D = fs_invD [OF assms(1)] and N = named_ok [OF assms(1,2,5,6)]
  have c: "ramfs_file_count s < 64" using assms(2) by (simp add: D(2) word_less_nat_alt)
  let ?f = "ramfs_file L (ramfs_file_count s)" and ?s = "named L name s"
  have f: "?f = ramfs_file L (of_nat (length fs))" by (simp add: D(2))
  have "malloc 1024 ?s = Some (0, ?s)"
    using malloc_no_fit(1) [OF N(1), of 1024] assms(3,4) N(2) by simp
  note r = ramfs_create_malloc [OF D(1) c this]
  let ?m = "wr32 (wr32 (mem ?s) (?f + 64) 0) (?f + 68) 0"
  have d: "span (?f + 64) 4 \<inter> span (?f + 68) 4 = {}"
    using span_tail_disjoint [of 4 4 _ "?f + 64"] by (fastforce simp: add.assoc)
  have z: "f_data ?m ?f = 0" unfolding f_data_def rd32_wr32_disjoint [OF d] by simp
  have "span (?f + 64) 4 \<subseteq> table_span L"
    unfolding f using file_fields(2) [OF assms(2)] file_span_table [OF assms(2)] by blast
  then have "rd32 (memset ?m 0 0 1024) (?f + 64) = rd32 ?m (?f + 64)"
    using assms(7) by (intro rd32_cong) (auto simp: memset_apply)
  then have "f_data (memset ?m 0 0 1024) ?f = 0" using z by (simp add: f_data_def)
  then show ?thesis using r z by (simp add: Let_def memset_apply named_def)
qed

text \<open>A machine whose only heap block is in use and whose frames are all taken.\<close>

definition full_heap :: ramfs_state where
  "full_heap = heap_booted\<lparr>total_pages := 0, pmm_bitmap_size := 0, heap_start := 0x1000, heap_end := 0x1000,
     mem := set_next 0x1000 0 (set_flags 0x1000 1 (set_size 0x1000 4084
       (put_bytes (mem heap_booted) 0x20C000 [97, 0])))\<rparr>"

abbreviation full_block :: hblk where "full_block \<equiv> \<lparr>b_addr = 4096, b_size = 4084, b_used = True\<rparr>"

lemma full_heap_inv:
  "heap_inv full_heap [full_block] []" "free_pages full_heap = {}"
  "table_span linker0 \<inter> heap_area full_heap ([full_block] @ []) = {}"
  "cstr (mem full_heap) 0x20C000 [97]"
proof -
  have m: "mem full_heap = set_next 0x1000 0 (set_flags 0x1000 1 (set_size 0x1000 4084
       (put_bytes (mem heap_booted) 0x20C000 [97, 0])))" by (simp add: full_heap_def del: put_bytes.simps)
  have f: "heap_start full_heap = 0x1000" "heap_end full_heap = 0x1000" "total_pages full_heap = 0"
    "pmm_bitmap_size full_heap = 0" by (simp_all add: full_heap_def)
  show free: "free_pages full_heap = {}" by (simp add: free_pages_def f)
  have "hpath (mem full_heap) 0x1000 [full_block] 0" unfolding m by (simp add: header_fields del: put_bytes.simps)
  then show "heap_inv full_heap [full_block] []"
    unfolding heap_inv_def by (simp add: free f pmm_inv_def bitmap_region_def packed_def b_end_def)
  have "unat x < 0x200000" if "x \<in> nspan 4096 4096" for x using that by simp
  moreover have "0x200000 \<le> unat x" if "x \<in> table_span linker0" for x
    using that by (simp add: table_linker0 span_nowrap)
  ultimately show "table_span linker0 \<inter> heap_area full_heap ([full_block] @ []) = {}"
    unfolding heap_area_def free bitmap_region_def f by fastforce
  have "cstr (mem full_heap) 0x20C000 [97] = cstr (put_bytes (mem heap_booted) 0x20C000 [97, 0]) 0x20C000 [97]"
    unfolding m set_next_def set_flags_def set_size_def by (intro cstr_cong) (auto simp: span_Suc wr32_def)
  then show "cstr (mem full_heap) 0x20C000 [97]"
    using put_bytes_cstr [of "[97]" "mem heap_booted" "0x20C000"] by simp
qed

theorem ramfs_create_out_of_memory_witness:
  "\<exists>s'. ramfs_create linker0 0x20C000 (ramfs_init linker0 full_heap) = Some (SUCCESS, s') \<and>
    (\<forall>x \<in> span 0 1024. mem s' x = 0)"
proof -
  note i = ramfs_init_inv [OF full_heap_inv(1,3)]
  have "cstr (mem (ramfs_init linker0 full_heap)) 0x20C000 [97] = cstr (mem full_heap) 0x20C000 [97]"
    using only_changesD [OF i(4)] empty_fs_inv(5) by (intro cstr_cong) blast
  then have c: "cstr (mem (ramfs_init linker0 full_heap)) 0x20C000 [97]" using full_heap_inv(4) by simp
  have "table_span linker0 \<inter> span 0 1024 = {}"
    unfolding table_linker0 by (rule span_disjoint) simp_all
  from ramfs_create_out_of_memory [OF i(1) _ _ _ c empty_fs_inv(5) this] show ?thesis
    using i(2) full_heap_inv(2) by (auto simp: fits_def)
qed

text \<open>
  C22 (the root file system): \<open>__initramfs\<close> ends; afterwards the table is empty,
  the first free mount point carries the operations of the RAM file system for the
  path it was given, and looking up a path returns them exactly when it is that path.
\<close>

theorem initramfs_mounts_root:
  fixes s :: "'a ramfs_state_scheme"
  assumes "mount_count s = 0" "length (mounts s) = 16"
  shows "\<exists>s'. initramfs L s = Some s' \<and> fs_true s' \<and> ramfs_file_count s' = 0 \<and> mount_count s' = 1 \<and>
    ramfs_ops s' = \<lparr>op_create = Fs_ramfs_create, op_write = Fs_ramfs_write, op_read = Fs_ramfs_read, op_list = Fs_ramfs_list\<rparr> \<and>
    (\<forall>path root n. cstr (mem s') (addr_root_path L) root \<and> cstr (mem s') path n \<longrightarrow>
       fs_get_ops path s' = Some (if n = root then addr_ramfs_ops L else 0))"
  using initramfs_result [OF assms] by blast

theorem initramfs_mounts_root_witness:
  "\<exists>s'. initramfs linker0 heap_booted = Some s' \<and> mount_count s' = 1"
  using initramfs_mounts_root [of heap_booted linker0]
  by (auto simp: heap_booted_def ramfs0_def proc_state.defs ramfs_state.defs)

end
