(* ===== verification/Serial.thy ===== *)
theory Serial
  imports Stdio
begin

text \<open>
  The serial port driver, \<open>lib/serial.c\<close>: initialisation of the UART, polled
  output and \<open>serial_printf\<close> with its own number formatting.  What the UART
  answers is part of the machine (\<open>dev8\<close>); the facts assume only that its
  transmitter becomes empty after finitely many polls.
\<close>

section \<open>Operations\<close>

abbreviation (input) SERIAL_PORT :: u16 where "SERIAL_PORT \<equiv> 0x3F8"

text \<open>\<open>__serial\<close>\<close>

definition serial_init :: "'a hw_scheme \<Rightarrow> 'a hw_scheme" where
  "serial_init s = (let
     s = x86write (SERIAL_PORT + 1) 0x00 s;
     s = x86write (SERIAL_PORT + 3) 0x80 s;
     s = x86write (SERIAL_PORT + 0) 0x00 s;
     s = x86write (SERIAL_PORT + 1) 0x00 s;
     s = x86write (SERIAL_PORT + 3) 0x03 s;
     s = x86write (SERIAL_PORT + 2) 0xC7 s
   in x86write (SERIAL_PORT + 4) 0x0B s)"

definition is_serial_transmit_empty :: "'a hw_scheme \<Rightarrow> u8 \<times> 'a hw_scheme" where
  "is_serial_transmit_empty s = (let (v, s) = x86read (SERIAL_PORT + 5) s in (v AND 0x20, s))"

partial_function (option) serial_wait :: "'a hw_scheme \<Rightarrow> 'a hw_scheme option" where
  "serial_wait s =
     (if fst (is_serial_transmit_empty s) = 0 then serial_wait (snd (is_serial_transmit_empty s))
      else Some (snd (is_serial_transmit_empty s)))"

definition serial_write_byte :: "u8 \<Rightarrow> 'a hw_scheme \<Rightarrow> 'a hw_scheme option" where
  "serial_write_byte c s = do { s \<leftarrow> serial_wait s; Some (x86write SERIAL_PORT c s) }"

text \<open>The string is given as its bytes before the terminator.\<close>

fun serial_write :: "u8 list \<Rightarrow> 'a hw_scheme \<Rightarrow> 'a hw_scheme option" where
  "serial_write [] s = Some s"
| "serial_write (c # str) s = do {
     s \<leftarrow> (if c = 10 then do { s \<leftarrow> serial_write_byte 13 s; serial_write_byte c s } else Some s);
     s \<leftarrow> serial_write_byte c s;
     serial_write str s
   }"

partial_function (option) serial_itoa_loop :: "int \<Rightarrow> int \<Rightarrow> u8 list \<Rightarrow> u8 list option" where
  "serial_itoa_loop v base temp =
     (if v = 0 then Some temp
      else if base = 0 then None
      else let rem = v smod base;
               temp = temp @ [if rem > 9 then of_int ((rem - 10) + 97) else of_int (rem + 48)]
           in serial_itoa_loop (v sdiv base) base temp)"

definition serial_itoa :: "int \<Rightarrow> int \<Rightarrow> u8 list option" where
  "serial_itoa v base =
     (if v = 0 then Some [48]
      else let is_negative = (v < 0 \<and> base = 10)
           in if is_negative \<and> v = INT_MIN then None
              else do {
                temp \<leftarrow> serial_itoa_loop (if is_negative then - v else v) base [];
                Some (rev (if is_negative then temp @ [45] else temp))
              })"

function ptoa_loop :: "u32 \<Rightarrow> u8 list \<Rightarrow> u8 list" where
  "ptoa_loop ptr temp =
     (if ptr \<noteq> 0 then
        let rem = uint (ptr mod 16);
            temp = temp @ [if rem > 9 then of_int ((rem - 10) + 97) else of_int (rem + 48)]
        in ptoa_loop (ptr div 16) temp
      else temp)"
  by pat_completeness auto
termination
  by (relation "measure (\<lambda>(ptr, temp). unat ptr)") (auto simp: unat_div word_neq_0_conv word_less_nat_alt)

declare ptoa_loop.simps [simp del]

definition ptoa :: "u32 \<Rightarrow> u8 list" where
  "ptoa ptr = (if ptr = 0 then [48, 120, 48] else [48, 120] @ rev (ptoa_loop ptr []))"

fun serial_printf :: "u8 list \<Rightarrow> varg list \<Rightarrow> 'a hw_scheme \<Rightarrow> 'a hw_scheme option" where
  "serial_printf [] args s = Some s"
| "serial_printf (c # fmt) args s =
     (if c = 37 then
        (case fmt of
           [] \<Rightarrow> None
         | f # rest \<Rightarrow>
             (if f = 99 then
                (case args of VInt v # as \<Rightarrow>
                   do { s \<leftarrow> serial_write_byte (ucast v) s; serial_printf rest as s } | _ \<Rightarrow> None)
              else if f = 115 then
                (case args of VStr str # as \<Rightarrow>
                   do { s \<leftarrow> serial_write str s; serial_printf rest as s } | _ \<Rightarrow> None)
              else if f = 100 then
                (case args of VInt v # as \<Rightarrow>
                   do { buf \<leftarrow> serial_itoa (sint v) 10; s \<leftarrow> serial_write buf s; serial_printf rest as s } | _ \<Rightarrow> None)
              else if f = 120 then
                (case args of VInt v # as \<Rightarrow>
                   do { buf \<leftarrow> serial_itoa (sint v) 16; s \<leftarrow> serial_write buf s; serial_printf rest as s } | _ \<Rightarrow> None)
              else if f = 112 then
                (case args of VInt v # as \<Rightarrow>
                   do { s \<leftarrow> serial_write (ptoa v) s; serial_printf rest as s } | _ \<Rightarrow> None)
              else if f = 37 then do { s \<leftarrow> serial_write_byte 37 s; serial_printf rest args s }
              else do { s \<leftarrow> serial_write_byte f s; serial_printf rest args s }))
      else do {
        s \<leftarrow> (if c = 10 then serial_write_byte 13 s else Some s);
        s \<leftarrow> serial_write_byte c s;
        serial_printf fmt args s
      })"

section \<open>Number formatting\<close>

lemma sdiv_smaller:
  assumes "1 < (b :: int)" "v \<noteq> 0"
  shows "nat \<bar>v sdiv b\<bar> < nat \<bar>v\<bar>"
proof -
  have "\<bar>v sdiv b\<bar> = \<bar>v\<bar> div b" using assms
    by (simp add: signed_divide_int_def abs_mult abs_sgn_eq pos_imp_zdiv_nonneg_iff)
  moreover have "\<bar>v\<bar> div b < \<bar>v\<bar>" using assms by (intro int_div_less_self) simp_all
  ultimately show ?thesis using assms by (simp add: nat_less_eq_zless pos_imp_zdiv_nonneg_iff)
qed

lemma serial_digit:
  "(if rem > 9 then of_int ((rem - 10) + 97) else of_int (rem + 48)) = digit_char rem"
  by (auto simp: digit_char_def)

lemma serial_itoa_loop_eq:
  assumes "1 < base" "v \<noteq> 0"
  shows "serial_itoa_loop v base temp = itoa_loop v base temp"
  using assms(2)
proof (induction "nat \<bar>v\<bar>" arbitrary: v temp rule: less_induct)
  case less
  have s0: "serial_itoa_loop 0 base t = Some t" for t by (simp add: serial_itoa_loop.simps)
  show ?case
    using less.hyps [OF sdiv_smaller [OF assms(1) less.prems]] less.prems assms(1) s0
    by (subst serial_itoa_loop.simps, subst itoa_loop.simps) (simp add: serial_digit Let_def)
qed

section \<open>Output\<close>

text \<open>The bytes written to the transmitter, oldest first.\<close>

definition sent :: "io_event list \<Rightarrow> u8 list" where
  "sent log = concat (map (\<lambda>e. case e of OutB p v \<Rightarrow> (if p = SERIAL_PORT then [v] else []) | _ \<Rightarrow> []) log)"

lemma sent_append [simp]: "sent (xs @ ys) = sent xs @ sent ys"
  by (simp add: sent_def)

text \<open>
  Documented behaviour of the UART: polling the line status register, the
  transmitter-empty bit is seen after finitely many polls (\<open>polls\<close> bounds them).
\<close>

definition uart_drains :: "'a hw_scheme \<Rightarrow> (io_event list \<Rightarrow> nat) \<Rightarrow> bool" where
  "uart_drains s polls \<longleftrightarrow> (\<forall>log. dev8 s log (SERIAL_PORT + 5) AND 0x20 = 0 \<longrightarrow>
     polls (log @ [InB (SERIAL_PORT + 5) (dev8 s log (SERIAL_PORT + 5))]) < polls log)"

text \<open>Running from \<open>s\<close> to \<open>s'\<close> sends \<open>out\<close> and changes only the port log.\<close>

definition sends :: "'a hw_scheme \<Rightarrow> u8 list \<Rightarrow> 'a hw_scheme \<Rightarrow> bool" where
  "sends s out s' \<longleftrightarrow> (\<exists>log. s' = s\<lparr>iolog := log\<rparr> \<and> sent log = sent (iolog s) @ out)"

lemma sends_nil [simp]: "sends s [] s"
proof -
  have "s = s\<lparr>iolog := iolog s\<rparr>" by simp
  then show ?thesis unfolding sends_def by (metis append_Nil2)
qed

lemma sends_trans: "sends s xs t \<Longrightarrow> sends t ys u \<Longrightarrow> sends s (xs @ ys) u"
  by (auto simp: sends_def)

lemma sends_uart: "sends s xs t \<Longrightarrow> uart_drains s polls \<Longrightarrow> uart_drains t polls"
  by (auto simp: sends_def uart_drains_def)

lemma serial_wait_sends:
  assumes "uart_drains s polls"
  shows "\<exists>s'. serial_wait s = Some s' \<and> sends s [] s'"
  using assms
proof (induction "polls (iolog s)" arbitrary: s rule: less_induct)
  case less
  let ?v = "dev8 s (iolog s) (SERIAL_PORT + 5)"
  let ?s = "s\<lparr>iolog := iolog s @ [InB (SERIAL_PORT + 5) ?v]\<rparr>"
  have e: "is_serial_transmit_empty s = (?v AND 0x20, ?s)"
    by (simp add: is_serial_transmit_empty_def hw_io_defs)
  have one: "sends s [] ?s" by (auto simp: sends_def sent_def)
  show ?case
  proof (cases "?v AND 0x20 = 0")
    case True
    then have "polls (iolog ?s) < polls (iolog s)" using less.prems by (simp add: uart_drains_def)
    from less.hyps [OF this sends_uart [OF one less.prems]] obtain t where
      "serial_wait ?s = Some t" "sends ?s [] t" by blast
    then show ?thesis using sends_trans [OF one, of "[]" t] True
      by (subst serial_wait.simps) (simp add: e)
  next
    case False
    then show ?thesis using one by (subst serial_wait.simps) (simp add: e)
  qed
qed

text \<open>An output step that returns and sends these bytes.\<close>

definition prints :: "(io_event list \<Rightarrow> nat) \<Rightarrow> ('a hw_scheme \<Rightarrow> 'a hw_scheme option) \<Rightarrow> u8 list \<Rightarrow> bool" where
  "prints polls f out \<longleftrightarrow> (\<forall>s. uart_drains s polls \<longrightarrow> (\<exists>s'. f s = Some s' \<and> sends s out s'))"

lemma prints_Some: "prints polls Some []"
  by (simp add: prints_def)

lemma prints_bind:
  assumes "prints polls f xs" "prints polls g ys"
  shows "prints polls (\<lambda>s. Option.bind (f s) g) (xs @ ys)"
  unfolding prints_def
proof (intro allI impI)
  fix s :: "'a hw_scheme" assume u: "uart_drains s polls"
  obtain t where t: "f s = Some t" "sends s xs t" using assms(1) u by (auto simp: prints_def)
  obtain w where "g t = Some w" "sends t ys w"
    using assms(2) sends_uart [OF t(2) u] by (auto simp: prints_def)
  then show "\<exists>s'. Option.bind (f s) g = Some s' \<and> sends s (xs @ ys) s'"
    using t sends_trans by auto
qed

lemma prints_byte: "prints polls (serial_write_byte c) [c]"
  unfolding prints_def
proof (intro allI impI)
  fix s :: "'a hw_scheme" assume u: "uart_drains s polls"
  obtain t where t: "serial_wait s = Some t" "sends s [] t" using serial_wait_sends [OF u] by blast
  have "sends t [c] (x86write SERIAL_PORT c t)" by (auto simp: sends_def sent_def hw_io_defs)
  from sends_trans [OF t(2) this] show "\<exists>s'. serial_write_byte c s = Some s' \<and> sends s [c] s'"
    using t(1) by (simp add: serial_write_byte_def)
qed

text \<open>A line feed inside a string is sent as carriage return and two line feeds.\<close>

definition serial_text :: "u8 list \<Rightarrow> u8 list" where
  "serial_text str = concat (map (\<lambda>c. if c = 10 then [13, 10, 10] else [c]) str)"

lemma serial_write_Cons:
  "serial_write (c # str) = (\<lambda>s. Option.bind
     (if c = 10 then do { s \<leftarrow> serial_write_byte 13 s; serial_write_byte c s } else Some s)
     (\<lambda>s. Option.bind (serial_write_byte c s) (serial_write str)))"
  by (rule ext) simp

lemma prints_write: "prints polls (serial_write str :: 'a hw_scheme \<Rightarrow> _) (serial_text str)"
proof (induction str)
  case Nil
  show ?case using prints_Some by (simp add: serial_text_def prints_def)
next
  case (Cons c str)
  have crlf: "prints polls (\<lambda>s :: 'a hw_scheme. if c = 10 then do { s \<leftarrow> serial_write_byte 13 s; serial_write_byte c s } else Some s)
      (if c = 10 then [13, 10] else [])"
    using prints_bind [OF prints_byte prints_byte, of polls 13 10] prints_Some by auto
  have "prints polls (serial_write (c # str) :: 'a hw_scheme \<Rightarrow> _)
      ((if c = 10 then [13, 10] else []) @ [c] @ serial_text str)"
    unfolding serial_write_Cons by (rule prints_bind [OF crlf prints_bind [OF prints_byte Cons.IH]])
  then show ?case by (simp add: serial_text_def split: if_splits del: serial_write.simps)
qed

text \<open>What a format sends, as a function of the format and its arguments.\<close>

definition serial_arg :: "u8 \<Rightarrow> varg \<Rightarrow> u8 list option" where
  "serial_arg f a = (case a of
     VStr str \<Rightarrow> if f = 115 then Some (serial_text str) else None
   | VInt v \<Rightarrow> if f = 115 then None
       else if f = 99 then Some [ucast v]
       else if f = 100 then map_option serial_text (itoa (sint v) 10)
       else if f = 120 then map_option serial_text (itoa (sint v) 16)
       else Some (serial_text (ptoa v)))"

fun serial_render :: "u8 list \<Rightarrow> varg list \<Rightarrow> u8 list option" where
  "serial_render [] args = Some []"
| "serial_render (c # fmt) args =
     (if c \<noteq> 37 then map_option ((@) (if c = 10 then [13, 10] else [c])) (serial_render fmt args)
      else case fmt of
        [] \<Rightarrow> None
      | f # rest \<Rightarrow>
          if takes_arg f then
            (case args of
               [] \<Rightarrow> None
             | a # as \<Rightarrow> Option.bind (serial_arg f a) (\<lambda>out. map_option ((@) out) (serial_render rest as)))
          else map_option ((#) f) (serial_render rest args))"

text \<open>How a format's step behaves: undefined, or sending these bytes.\<close>

definition outcome ::
  "(io_event list \<Rightarrow> nat) \<Rightarrow> ('a hw_scheme \<Rightarrow> 'a hw_scheme option) \<Rightarrow> u8 list option \<Rightarrow> bool" where
  "outcome polls f r \<longleftrightarrow> (case r of None \<Rightarrow> \<forall>s. f s = None | Some out \<Rightarrow> prints polls f out)"

lemma outcome_bind:
  "prints polls f xs \<Longrightarrow> outcome polls g r \<Longrightarrow> outcome polls (\<lambda>s. Option.bind (f s) g) (map_option ((@) xs) r)"
  by (cases r) (auto simp: outcome_def intro: prints_bind bind_eq_None_conv [THEN iffD2])

lemma serial_itoa_eq: "1 < base \<Longrightarrow> serial_itoa v base = itoa v base"
  by (cases "v = 0") (simp_all add: serial_itoa_def itoa_def serial_itoa_loop_eq itoa_unsigned
      itoa_loop.simps [of 0] digit_char_def Let_def)

lemma serial_printf_steps:
  "serial_printf (37 # 99 # rest) (VInt v # as) = (\<lambda>s. Option.bind (serial_write_byte (ucast v) s) (serial_printf rest as))"
  "serial_printf (37 # 115 # rest) (VStr str # as) = (\<lambda>s. Option.bind (serial_write str s) (serial_printf rest as))"
  "serial_printf (37 # 112 # rest) (VInt v # as) = (\<lambda>s. Option.bind (serial_write (ptoa v) s) (serial_printf rest as))"
  "serial_itoa (sint v) 10 = Some buf \<Longrightarrow>
     serial_printf (37 # 100 # rest) (VInt v # as) = (\<lambda>s. Option.bind (serial_write buf s) (serial_printf rest as))"
  "serial_itoa (sint v) 16 = Some buf \<Longrightarrow>
     serial_printf (37 # 120 # rest) (VInt v # as) = (\<lambda>s. Option.bind (serial_write buf s) (serial_printf rest as))"
  by (simp_all add: fun_eq_iff)

lemma serial_printf_arg:
  assumes "takes_arg f"
  shows "serial_printf (37 # f # rest) [] s = None"
    and "outcome polls (serial_printf rest as :: 'a hw_scheme \<Rightarrow> _) (serial_render rest as) \<Longrightarrow>
      outcome polls (serial_printf (37 # f # rest) (a # as) :: 'a hw_scheme \<Rightarrow> _)
        (Option.bind (serial_arg f a) (\<lambda>out. map_option ((@) out) (serial_render rest as)))"
proof -
  show "serial_printf (37 # f # rest) [] s = None"
    using assms by (auto simp: takes_arg_def)
  assume IH: "outcome polls (serial_printf rest as :: 'a hw_scheme \<Rightarrow> _) (serial_render rest as)"
  note steps = outcome_bind [OF prints_byte IH] outcome_bind [OF prints_write IH]
  show "outcome polls (serial_printf (37 # f # rest) (a # as) :: 'a hw_scheme \<Rightarrow> _)
      (Option.bind (serial_arg f a) (\<lambda>out. map_option ((@) out) (serial_render rest as)))"
  proof (cases a)
    case (VStr str)
    then show ?thesis
      using assms steps(2) [of str] by (cases "f = 115")
        (auto simp: takes_arg_def serial_arg_def serial_printf_steps outcome_def [of _ _ None])
  next
    case (VInt v)
    consider "f = 99" | "f = 115" | "f = 112" | base :: int where "f = 100 \<and> base = 10 \<or> f = 120 \<and> base = 16"
      using assms by (auto simp: takes_arg_def)
    then show ?thesis
    proof cases
      case 1
      then show ?thesis using steps(1) [of "ucast v"] VInt
        by (simp add: serial_arg_def serial_printf_steps del: serial_printf.simps)
    next
      case 2
      then show ?thesis using VInt by (simp add: serial_arg_def outcome_def)
    next
      case 3
      then show ?thesis using steps(2) [of "ptoa v"] VInt
        by (simp add: serial_arg_def serial_printf_steps del: serial_printf.simps)
    next
      case 4
      have e: "serial_itoa (sint v) base = itoa (sint v) base" using 4 by (intro serial_itoa_eq) auto
      show ?thesis
      proof (cases "itoa (sint v) base")
        case None
        then show ?thesis using 4 VInt e by (auto simp: serial_arg_def outcome_def)
      next
        case (Some buf)
        then show ?thesis using 4 VInt e steps(2) [of buf]
          by (auto simp: serial_arg_def serial_printf_steps simp del: serial_printf.simps)
      qed
    qed
  qed
qed

lemma serial_printf_no_arg:
  "\<not> takes_arg f \<Longrightarrow> serial_printf (37 # f # rest) args = (\<lambda>s. Option.bind (serial_write_byte f s) (serial_printf rest args))"
  by (simp add: fun_eq_iff takes_arg_def)

lemma serial_printf_outcome:
  "outcome polls (serial_printf fmt args :: 'a hw_scheme \<Rightarrow> _) (serial_render fmt args)"
proof (induction "length fmt" arbitrary: fmt args rule: less_induct)
  case less
  consider "fmt = []" | c rest where "fmt = c # rest" "c \<noteq> 37" | "fmt = [37]" | f rest where "fmt = 37 # f # rest"
    by (metis list.exhaust)
  then show ?case
  proof cases
    case 1
    then show ?thesis using prints_Some by (simp add: outcome_def prints_def)
  next
    case 2
    have crlf: "prints polls (\<lambda>s :: 'a hw_scheme. if c = 10 then serial_write_byte 13 s else Some s) (if c = 10 then [13] else [])"
      using prints_byte [of polls 13] prints_Some [of polls] by (cases "c = 10") simp_all
    have e: "serial_printf (c # rest) args = (\<lambda>s :: 'a hw_scheme. Option.bind (Option.bind
        (if c = 10 then serial_write_byte 13 s else Some s) (serial_write_byte c)) (serial_printf rest args))"
      using 2 by (simp add: fun_eq_iff)
    have "(if c = 10 then [13] else []) @ [c] = (if c = 10 then [13, 10] else [c])" by simp
    with outcome_bind [OF prints_bind [OF crlf prints_byte [of polls c]] less.hyps [of rest args]] 2
    show ?thesis by (simp add: e)
  next
    case 3
    then show ?thesis by (simp add: outcome_def)
  next
    case 4
    show ?thesis
    proof (cases "takes_arg f")
      case True
      show ?thesis
      proof (cases args)
        case Nil
        then show ?thesis using 4 True
          by (simp add: outcome_def serial_printf_arg(1) [OF True] del: serial_printf.simps)
      next
        case (Cons a as)
        then show ?thesis using 4 True serial_printf_arg(2) [OF True less.hyps]
          by (simp del: serial_printf.simps)
      qed
    next
      case False
      have "(@) [f] = (#) f" by (simp add: fun_eq_iff)
      with False outcome_bind [OF prints_byte [of polls f] less.hyps [of rest args]] 4
      show ?thesis by (simp add: serial_printf_no_arg del: serial_printf.simps)
    qed
  qed
qed

section \<open>Properties\<close>


text \<open>A UART that is busy at every first poll after a byte.\<close>

definition slow_uart :: "io_event list \<Rightarrow> u16 \<Rightarrow> u8" where
  "slow_uart log p = (case log of [] \<Rightarrow> 0 | _ \<Rightarrow> (case last log of InB _ _ \<Rightarrow> 0x60 | _ \<Rightarrow> 0))"

definition slow_polls :: "io_event list \<Rightarrow> nat" where
  "slow_polls log = (if slow_uart log 0 = 0 then 1 else 0)"


text \<open>
  C34 (two formatters): the serial driver's \<open>itoa\<close> computes what the console's does,
  for every value and every base above 1, undefined negation included; its
  \<open>ptoa\<close> prints every pointer, the high ones too, as \<open>0x\<close> and digits
  that read back to the pointer.
\<close>

theorem serial_numbers_agree:
  assumes "1 < base"
  shows "serial_itoa v base = itoa v base \<and>
    (\<exists>cs. ptoa p = 48 # 120 # cs \<and> digits_of 16 cs \<and> read_digits 16 cs = uint p)"
proof -
  have loop: "ptoa_loop p temp = temp @ (if p = 0 then [] else rev_digits 16 (uint p))" for p temp
  proof (induction p temp rule: ptoa_loop.induct)
    case (1 p temp)
    have "uint (p div 16) = uint p div 16" "uint (p mod 16) = uint p mod 16"
      by (simp_all add: uint_div uint_mod)
    moreover have "p div 16 = 0 \<longleftrightarrow> \<not> 0 < uint p div 16"
      using pos_imp_zdiv_nonneg_iff [of 16 "uint p"] unfolding uint_0_iff [symmetric] calculation(1) by auto
    ultimately show ?case using 1 [OF _ refl refl, unfolded serial_digit]
      by (subst ptoa_loop.simps, subst rev_digits.simps, unfold serial_digit Let_def) simp
  qed
  have "\<exists>cs. ptoa p = 48 # 120 # cs \<and> digits_of 16 cs \<and> read_digits 16 cs = uint p"
  proof (cases "p = 0")
    case True
    have "digits_of 16 [48]" by (auto simp: digits_of_def digit_char_def intro!: exI [of _ 0])
    then show ?thesis using True by (simp add: ptoa_def char_digit_def)
  next
    case False
    then show ?thesis using rev_digits_read [of 16 "uint p"] by (simp add: ptoa_def loop digits_of_def)
  qed
  then show ?thesis using serial_itoa_eq [OF assms] by simp
qed

theorem serial_numbers_agree_witness:
  "serial_itoa (- 255) 10 = itoa (- 255) 10 \<and> (\<exists>cs. ptoa 0xC0000000 = 48 # 120 # cs \<and> read_digits 16 cs = 0xC0000000)"
  using serial_numbers_agree [of 10 "- 255" "0xC0000000"] by auto

end
