(* ===== verification/Init.thy ===== *)
theory Init
  imports RamfsUse Serial
begin

text \<open>
  Kernel initialisation, \<open>core/init.c\<close>: the order in which the components are
  brought up, and the loop the kernel ends in.  The facts carry one frame relation
  through the whole sequence: what no step touches.
\<close>

section \<open>Operations\<close>

datatype KernelStatus = KERNEL_SUCCESS | KERNEL_FAULT

text \<open>
  \<open>!gd_init(...)\<close> is true when the result is \<open>GSUCCESS\<close>, which is 0.  The
  bound on nested PCI buses is an argument.
\<close>

definition warn_gd :: "GD_STATUS \<Rightarrow> 'a console_state_scheme \<Rightarrow> 'a console_state_scheme option" where
  "warn_gd r s = (if r = GSUCCESS then WARN ''GD just failed\<newline>'' s else Some s)"

text \<open>The part of \<open>kernel_init\<close> after the memory manager is up.\<close>

definition init_devices ::
  "linker \<Rightarrow> nat \<Rightarrow> u32 \<Rightarrow> u32 \<Rightarrow> 'a ramfs_state_scheme \<Rightarrow> (KernelStatus \<times> 'a ramfs_state_scheme) option" where
  "init_devices L depth mbd magic s = do {
     s \<leftarrow> init_pages s;
     (r, s) \<leftarrow> gd_init mbd magic s;
     s \<leftarrow> warn_gd r s;
     s \<leftarrow> INFO ''Maping VGA memory to virtual context\<newline>'' s;
     let s = map_framebuffer (vga s) (80 * 25 * 2) s;
     s \<leftarrow> INFO ''Success!\<newline>'' s;
     s \<leftarrow> INFO ''Initializing heap\<newline>'' s;
     let s = heap_init s;
     s \<leftarrow> INFO ''Success!\<newline>'' s;
     s \<leftarrow> INFO ''Initializing keyboard device\<newline>'' s;
     s \<leftarrow> kybrd_init s;
     s \<leftarrow> INFO ''Success!\<newline>'' s;
     s \<leftarrow> INFO ''Initializing mouse device\<newline>'' s;
     s \<leftarrow> mouse_init s;
     s \<leftarrow> INFO ''Success!\<newline>'' s;
     let s = x86Sti s;
     s \<leftarrow> INFO ''Initializing video driver(BIOS Mode)\<newline>'' s;
     s \<leftarrow> INFO ''Success!\<newline>'' s;
     s \<leftarrow> INFO ''Initializing PCI Subsystem\<newline>'' s;
     (_, s) \<leftarrow> pcisub_init depth s;
     s \<leftarrow> INFO ''Success!\<newline>'' s;
     s \<leftarrow> INFO ''Initializing fork\<newline>'' s;
     (_, s) \<leftarrow> k_fork s;
     s \<leftarrow> INFO ''Success!\<newline>'' s;
     s \<leftarrow> INFO ''Initializing RAM FileSystem\<newline>'' s;
     s \<leftarrow> initramfs L s;
     s \<leftarrow> INFO ''Success!\<newline>'' s;
     Some (KERNEL_SUCCESS, s)
   }"

definition kernel_init ::
  "linker \<Rightarrow> nat \<Rightarrow> u32 \<Rightarrow> u32 \<Rightarrow> 'a ramfs_state_scheme \<Rightarrow> (KernelStatus \<times> 'a ramfs_state_scheme) option" where
  "kernel_init L depth mbd magic s = do {
     let s = x86Cli s;
     (r, s) \<leftarrow> gd_init mbd magic s;
     s \<leftarrow> warn_gd r s;
     let s = InitStdio s;
     s \<leftarrow> gdt_init L s;
     let s = idt_init L s;
     let s = pic_init s;
     s \<leftarrow> pit_init s;
     (r, s) \<leftarrow> pmm_init L mbd magic s;
     if r \<noteq> 0 then do {
       s \<leftarrow> kDebug (bytes ''Error to initialize the PMM\<newline>'') [] s;
       Some (KERNEL_FAULT, s)
     }
     else init_devices L depth mbd magic s
   }"

text \<open>
  \<open>kmain\<close> up to its endless loop; the result tells whether the loop is reached.
  A turn of the loop is a step of the machine, and so is an interrupt between turns.
\<close>

definition kmain_start ::
  "linker \<Rightarrow> nat \<Rightarrow> u32 \<Rightarrow> u32 \<Rightarrow> 'a ramfs_state_scheme \<Rightarrow> (bool \<times> 'a ramfs_state_scheme) option" where
  "kmain_start L depth mbd magic s = do {
     (r, s) \<leftarrow> kernel_init L depth mbd magic s;
     if r = KERNEL_FAULT then do {
       s \<leftarrow> kDebug (bytes ''[SYSBOOT] Fault to init kernel\<newline>'') [] s;
       Some (False, s)
     }
     else do {
       s \<leftarrow> INFO ''Kernel just booted successfully!\<newline>'' s;
       Some (True, s)
     }
   }"

inductive kmain_step :: "'a ramfs_state_scheme \<Rightarrow> 'a ramfs_state_scheme \<Rightarrow> bool" where
  turn: "kmain_step s (Halt (schedule s))"
| irq: "interrupts_on s \<Longrightarrow> irq_handler call_handler r s = Some s' \<Longrightarrow> kmain_step s s'"

section \<open>What initialisation leaves alone\<close>

definition boot_frame :: "'a ramfs_state_scheme \<Rightarrow> 'a ramfs_state_scheme \<Rightarrow> bool" where
  "boot_frame s t \<longleftrightarrow> dev8 t = dev8 s \<and> dev32 t = dev32 s \<and> current_process t = current_process s \<and>
     process_list t = process_list s \<and> mount_count t = mount_count s \<and> mounts t = mounts s \<and>
     (paging_on s \<longrightarrow> paging_on t) \<and> (interrupts_on s \<longrightarrow> interrupts_on t)"

lemma boot_frame_refl [simp]: "boot_frame s s"
  by (simp add: boot_frame_def)

lemma boot_frame_trans: "boot_frame s t \<Longrightarrow> boot_frame t u \<Longrightarrow> boot_frame s u"
  by (simp add: boot_frame_def)

text \<open>
  The machine a boot needs: no process yet, an idle mouse controller, and a PCI
  configuration space in which the scan sees no bridge.
\<close>

definition machine_ok :: "'a ramfs_state_scheme \<Rightarrow> bool" where
  "machine_ok s \<longleftrightarrow> current_process s = 0 \<and> ps2_idle s \<and> (\<exists>cfg. config_space s cfg \<and>
     (\<forall>bus dev func. bus < 8 \<and> dev < 32 \<and> func < 8 \<longrightarrow> \<not> bridge cfg (of_nat bus) (of_nat dev) (of_nat func)))"

lemma machine_ok_frame: "boot_frame s t \<Longrightarrow> machine_ok s \<Longrightarrow> machine_ok t"
  by (simp add: boot_frame_def machine_ok_def ps2_idle_def config_space_def)

text \<open>A step of the boot: it ends, whatever the state, and keeps the frame.\<close>

definition boot_step :: "('a ramfs_state_scheme \<Rightarrow> 'a ramfs_state_scheme option) \<Rightarrow> bool" where
  "boot_step f \<longleftrightarrow> (\<forall>s. machine_ok s \<longrightarrow> (\<exists>t. f s = Some t \<and> boot_frame s t))"

lemma boot_step_bind: "boot_step f \<Longrightarrow> boot_step g \<Longrightarrow> boot_step (\<lambda>s. Option.bind (f s) g)"
  unfolding boot_step_def by (metis bind.bind_lunit boot_frame_trans machine_ok_frame)

lemma boot_step_pure: "(\<And>s. boot_frame s (f s)) \<Longrightarrow> boot_step g \<Longrightarrow> boot_step (\<lambda>s. g (f s))"
  unfolding boot_step_def by (metis boot_frame_trans machine_ok_frame)

lemma boot_step_snd:
  "boot_step (\<lambda>s. map_option snd (f s)) \<Longrightarrow> boot_step g \<Longrightarrow> boot_step (\<lambda>s. Option.bind (f s) (\<lambda>(r, s). g s))"
proof -
  assume f: "boot_step (\<lambda>s. map_option snd (f s))" and g: "boot_step g"
  have "(\<lambda>s. Option.bind (f s) (\<lambda>(r, s). g s)) = (\<lambda>s. Option.bind (map_option snd (f s)) g)"
    by (auto simp: fun_eq_iff split: bind_splits)
  then show ?thesis using boot_step_bind [OF f g] by simp
qed

lemma boot_step_done [simp]: "boot_step Some"
  by (simp add: boot_step_def)

section \<open>The steps\<close>

lemma gd_only_boot: "gd_only s t \<Longrightarrow> boot_frame s t"
  by (auto simp: gd_only_def boot_frame_def)

lemma pci_only_boot: "pci_only s t \<Longrightarrow> boot_frame s t"
  by (auto simp: pci_only_def boot_frame_def)

lemma draws_boot: "draws f \<Longrightarrow> boot_step f"
  by (auto simp: draws_def boot_step_def intro: gd_only_boot)

lemma INFO_boot: "boot_step (INFO str)"
  by (rule draws_boot [OF draws_INFO])

lemma map_framebuffer_boot: "boot_frame s (map_framebuffer a n s)"
proof -
  obtain m where "map_framebuffer a n s = s\<lparr>mem := m\<rparr>" using map_framebuffer_mem by blast
  then show ?thesis by (simp add: boot_frame_def)
qed

lemma heap_init_boot: "boot_frame s (heap_init s)"
  by (simp add: heap_init_def boot_frame_def pmm_alloc_page_spec Let_def)

lemma WARN_draws: "draws (warn_gd r)"
  unfolding draws_def
proof
  fix s :: "'a gd_state_scheme"
  have "37 \<notin> set (bytes ''[WARN] '')" by (simp add: bytes_def chr_def)
  then have "WARN str s = Some (Stdout (bytes ''[WARN] '') s)" for str
    by (simp add: WARN_def EarlyLog_plain)
  then show "\<exists>t. warn_gd r s = Some t \<and> gd_only s t"
    using gd_only_Stdout [of s] by (auto simp: warn_gd_def)
qed

lemma gd_init_boot: "boot_step (\<lambda>s. map_option snd (gd_init mbd magic s))"
  unfolding boot_step_def
proof (intro allI impI)
  fix s :: "'a ramfs_state_scheme"
  obtain r t f where t: "get_framebuffer mbd magic s = Some (r, t)" "gd_only (s\<lparr>fb_info := f\<rparr>) t"
    using get_framebuffer_result by blast
  have f: "boot_frame s t" using gd_only_boot [OF t(2)] by (simp add: boot_frame_def)
  obtain u where u: "EarlyLog (bytes ''GD Failed to get framebuffer\<newline>'') [] t = Some u" "gd_only t u"
    using EarlyLog_defined [OF gd_messages(7)] by blast
  let ?v = "map_framebuffer (fb_addr (fb_info t)) (fb_height (fb_info t) * fb_pitch (fb_info t)) t\<lparr>gd_ok := 1\<rparr>"
  have "boot_frame t ?v" using map_framebuffer_boot [of t] by (simp add: boot_frame_def)
  then show "\<exists>t. map_option snd (gd_init mbd magic s) = Some t \<and> boot_frame s t"
    using t(1) u(1) boot_frame_trans [OF f] gd_only_boot [OF u(2)] by (simp add: gd_init_def)
qed

lemma init_pages_boot: "boot_step (init_pages :: 'a ramfs_state_scheme \<Rightarrow> _)"
proof -
  let ?loop = "\<lambda>s :: 'a ramfs_state_scheme.
    page_loop (\<lambda>addr s. map_page (kernel_page_dir s) addr addr PAGE_RW s) 0 0x800000 s"
  have b: "boot_step ?loop"
    unfolding boot_step_def
  proof (intro allI impI)
    fix s :: "'a ramfs_state_scheme"
    have "boot_frame s (fold (\<lambda>addr s. map_page (kernel_page_dir s) addr addr PAGE_RW s) xs s)" for xs
    proof (induction xs arbitrary: s)
      case (Cons x xs)
      obtain m where "map_page (kernel_page_dir s) x x PAGE_RW s = s\<lparr>mem := m\<rparr>" using map_page_mem by blast
      then have "boot_frame s (map_page (kernel_page_dir s) x x PAGE_RW s)" by (simp add: boot_frame_def)
      from boot_frame_trans [OF this Cons.IH] show ?case by simp
    qed simp
    then show "\<exists>t. page_loop (\<lambda>addr s. map_page (kernel_page_dir s) addr addr PAGE_RW s) 0 0x800000 s = Some t \<and>
        boot_frame s t"
      by (simp add: page_loop_fold)
  qed
  let ?dir = "\<lambda>s :: 'a ramfs_state_scheme. let (dir, s) = pmm_alloc_page s; s = s\<lparr>kernel_page_dir_phys := dir\<rparr>;
      s = s\<lparr>kernel_page_dir := kernel_page_dir_phys s\<rparr>
    in s\<lparr>mem := zero_table (kernel_page_dir s) (mem s)\<rparr>"
  have "boot_frame s (?dir s)" for s by (simp add: boot_frame_def pmm_alloc_page_spec Let_def)
  then have "boot_step (\<lambda>s. ?loop (?dir s))" by (rule boot_step_pure [OF _ b])
  moreover have "(\<lambda>s. ?loop (?dir s)) = init_page_tables"
    by (simp add: fun_eq_iff init_page_tables_def Let_def split_beta)
  ultimately have "boot_step (init_page_tables :: 'a ramfs_state_scheme \<Rightarrow> _)" by simp
  moreover have "boot_step (\<lambda>s :: 'a ramfs_state_scheme. Some (EnablePaging (kernel_page_dir_phys s) s))"
    by (simp add: boot_step_def EnablePaging_def boot_frame_def Let_def)
  ultimately have "boot_step (\<lambda>s :: 'a ramfs_state_scheme. Option.bind (init_page_tables s)
      (\<lambda>s. Option.bind (INFO ''Activating paging...\<newline>'' s) (\<lambda>s. Some (EnablePaging (kernel_page_dir_phys s) s))))"
    by (intro boot_step_bind INFO_boot)
  moreover have "init_pages = (\<lambda>s :: 'a ramfs_state_scheme. Option.bind (init_page_tables s)
      (\<lambda>s. Option.bind (INFO ''Activating paging...\<newline>'' s) (\<lambda>s. Some (EnablePaging (kernel_page_dir_phys s) s))))"
    by (simp add: fun_eq_iff init_pages_def)
  ultimately show ?thesis by simp
qed

lemma clearmask_log:
  assumes "n \<le> 15"
  shows "\<exists>log. x86IRQ_clearmask n s = Some (s\<lparr>iolog := log\<rparr>)"
proof -
  have "\<not> 32 \<le> n - 8" if "\<not> n < 8" using assms that by unat_arith
  moreover have "\<not> 32 \<le> n" using assms by unat_arith
  ultimately show ?thesis by (auto simp: x86IRQ_clearmask_def irq_port_def hw_io_defs)
qed

lemma irq_install_boot: "boot_frame s (irq_install_handler n h s)"
  by (simp add: irq_install_handler_def boot_frame_def)

lemma kybrd_init_boot: "boot_step kybrd_init"
  unfolding boot_step_def
proof (intro allI impI)
  fix s :: "'a ramfs_state_scheme"
  obtain log where "x86IRQ_clearmask 1 s = Some (s\<lparr>iolog := log\<rparr>)" using clearmask_log [of 1 s] by auto
  then show "\<exists>t. kybrd_init s = Some t \<and> boot_frame s t"
    by (simp add: kybrd_init_def irq_install_handler_def boot_frame_def)
qed

lemma pit_init_boot: "boot_step pit_init"
  unfolding boot_step_def
proof (intro allI impI)
  fix s :: "'a ramfs_state_scheme"
  let ?s = "irq_install_handler 0 Timer_handler s"
  obtain log where "x86IRQ_clearmask 0 ?s = Some (?s\<lparr>iolog := log\<rparr>)" using clearmask_log [of 0 ?s] by auto
  then show "\<exists>t. pit_init s = Some t \<and> boot_frame s t"
    by (simp add: pit_init_def setup_pit_state) (simp add: irq_install_handler_def boot_frame_def)
qed

lemma mouse_init_boot: "boot_step mouse_init"
  unfolding boot_step_def
proof (intro allI impI)
  fix s :: "'a ramfs_state_scheme"
  assume "machine_ok s"
  then have "ps2_idle s" by (simp add: machine_ok_def)
  from mouse_init_state [OF this] obtain es where
    "mouse_init s = Some ((irq_install_handler 12 Mouse_irq_handler s)\<lparr>iolog := iolog s @ es\<rparr>)" by metis
  then show "\<exists>t. mouse_init s = Some t \<and> boot_frame s t"
    by (simp add: irq_install_handler_def boot_frame_def)
qed

lemma pcisub_init_boot: "boot_step (\<lambda>s. map_option snd (pcisub_init 1 s))"
  unfolding boot_step_def
proof (intro allI impI)
  fix s :: "'a ramfs_state_scheme"
  assume "machine_ok s"
  then obtain cfg where cfg: "config_space s cfg"
    "\<And>bus dev func. bus < 8 \<Longrightarrow> dev < 32 \<Longrightarrow> func < 8 \<Longrightarrow> \<not> bridge cfg (of_nat bus) (of_nat dev) (of_nat func)"
    unfolding machine_ok_def by blast
  obtain t where "pcisub_init 1 s = Some (0, t)" "pci_only s t" using pci_scan_no_bridge [OF cfg] by blast
  then show "\<exists>t. map_option snd (pcisub_init 1 s) = Some t \<and> boot_frame s t"
    by (auto intro: pci_only_boot)
qed

lemma k_fork_boot: "boot_step (\<lambda>s. map_option snd (k_fork s))"
  by (simp add: boot_step_def machine_ok_def k_fork_def)

section \<open>The memory manager\<close>

lemma page_loop_boot:
  fixes s :: "'a ramfs_state_scheme"
  assumes body: "\<And>a s. boot_frame s (body a s)" and run: "page_loop body a e s = Some t"
  shows "boot_frame s t"
proof -
  have "page_loop b a e s = Some t \<Longrightarrow> b = body \<Longrightarrow> boot_frame s t" for b a e s t
  proof (induction b a e s t rule: page_loop.raw_induct [rotated, consumes 1, case_names step])
    case (step loop b a e s t)
    then show ?case using body [of s a] by (auto split: if_splits intro: boot_frame_trans)
  qed
  then show ?thesis using run by blast
qed

lemma get_memmap_loop_boot:
  fixes s :: "'a ramfs_state_scheme"
  shows "get_memmap_loop mbd i s = Some t \<Longrightarrow> boot_frame s t"
proof (induction mbd i s t rule: get_memmap_loop.raw_induct [rotated, consumes 1, case_names step])
  case (step loop mbd i s t)
  have m: "boot_frame s (memmap_add m s)" for m by (simp add: memmap_add_def boot_frame_def Let_def)
  show ?case
  proof (cases "i < mb_mmap_length (mem s) mbd")
    case True
    let ?u = "memmap_add (mb_mmap_addr (mem s) mbd + i) s"
    have "boot_frame ?u t" using step(2) True by (intro step(1)) (simp add: Let_def)
    then show ?thesis by (rule boot_frame_trans [OF m])
  qed (use step(2) in simp)
qed

lemma for_each_boot:
  fixes s :: "'a ramfs_state_scheme"
  assumes "\<And>x s t. f x s = Some t \<Longrightarrow> boot_frame s t" "for_each f xs s = Some t"
  shows "boot_frame s t"
  using assms(2)
proof (induction xs arbitrary: s)
  case (Cons x xs)
  then show ?case using assms(1) boot_frame_trans by (auto split: bind_splits) blast
qed simp

lemma pmm_init_boot:
  fixes s :: "'a ramfs_state_scheme"
  assumes "pmm_init L mbd magic s = Some (r, t)"
  shows "boot_frame s t"
proof -
  have mem: "boot_frame s (s\<lparr>mem := m\<rparr>)" for s :: "'a ramfs_state_scheme" and m by (simp add: boot_frame_def)
  obtain q s1 where s1: "get_memmap mbd magic s = Some (q, s1)" using assms by (auto simp: pmm_init_def split: bind_splits)
  have "boot_frame s (panic str s)" for str
    using gd_only_boot [OF gd_only_Stdout] by (simp add: panic_def)
  then have 1: "boot_frame s s1"
    using s1 get_memmap_loop_boot by (auto simp: get_memmap_def split: if_splits)
  let ?c = "count_pages s1"
  have "boot_frame s (fold (\<lambda>i s. let size = End (memMap s ! i) - Begin (memMap s ! i)
      in s\<lparr>total_pages := total_pages s + size div PAGE_SIZE\<rparr>) xs s)" for xs and s :: "'a ramfs_state_scheme"
    by (induction xs arbitrary: s) (auto simp: boot_frame_def Let_def)
  then have c: "boot_frame s1 ?c" by (simp add: count_pages_def)
  let ?n = "(total_pages ?c + 7) div 8"
  let ?d = "?c\<lparr>pmm_bitmap_size := ?n, pmm_bitmap := 0x100000, mem := memset (mem ?c) 0x100000 0xFF ?n\<rparr>"
  have d: "boot_frame ?c ?d" by (simp add: boot_frame_def)
  obtain s2 s3 s4 where s2: "free_blocks ?d = Some s2" and s3: "pmm_reserve_kernel L s2 = Some s3"
    and s4: "page_loop (\<lambda>addr s. s\<lparr>mem := bm_set (mem s) (pmm_bitmap s) (addr div PAGE_SIZE)\<rparr>)
      (pmm_bitmap s3) (pmm_bitmap s3 + pmm_bitmap_size s3) s3 = Some s4"
    and t: "t = s4\<lparr>mem := bm_set (mem s4) (pmm_bitmap s4) (0xB8000 div PAGE_SIZE)\<rparr>"
    using assms by (auto simp: pmm_init_def s1 Let_def split: bind_splits)
  have "boot_frame ?d s2"
    using s2 unfolding free_blocks_def
    by (rule for_each_boot [rotated]) (rule page_loop_boot, auto simp: pmm_mark_free_def boot_frame_def)
  moreover have "boot_frame s2 s3"
    using s3 unfolding pmm_reserve_kernel_def by (rule page_loop_boot [rotated]) (rule mem)
  moreover have "boot_frame s3 s4" using s4 by (rule page_loop_boot [rotated]) (rule mem)
  ultimately show ?thesis unfolding t
    using boot_frame_trans [OF 1 boot_frame_trans [OF c d]] mem boot_frame_trans by meson
qed

text \<open>The memory map is found when nothing but the text screen has been written.\<close>

lemma span_sub:
  assumes "j + n \<le> k"
  shows "span (a + of_nat j) n \<subseteq> span a k"
proof -
  have "k = j + (k - j)" using assms by simp
  then have "span a k = span a j \<union> span (a + of_nat j) (k - j)" using span_add [of a j "k - j"] by simp
  moreover have "span (a + of_nat j) n \<subseteq> span (a + of_nat j) (k - j)" using assms by (intro span_mono) simp
  ultimately show ?thesis by blast
qed

lemma mmap_at_only:
  "mmap_at m a es \<Longrightarrow> only_changes A m m' \<Longrightarrow> span a (mmap_bytes es) \<inter> A = {} \<Longrightarrow>
    \<forall>e \<in> set es. 20 \<le> unat (e_size e) \<Longrightarrow> mmap_bytes es < 2 ^ 32 \<Longrightarrow> mmap_at m' a es"
proof (induction es arbitrary: a)
  case (Cons e es)
  let ?k = "unat (e_size e) + 4"
  have k: "mmap_bytes (e # es) = ?k + mmap_bytes es" by (simp add: mmap_bytes_Cons)
  have sp: "span a (mmap_bytes (e # es)) = span a ?k \<union> span (a + of_nat ?k) (mmap_bytes es)"
    unfolding k by (rule span_add)
  have a: "a + of_nat ?k = a + (e_size e + 4)" by simp
  have "span a 24 \<subseteq> span a ?k" using Cons.prems(4) by (intro span_mono) simp
  then have d: "span a 24 \<inter> A = {}" using Cons.prems(3) unfolding sp by blast
  have sub: "span (a + of_nat j) 4 \<subseteq> span a 24" if "j \<le> 20" for j
    using that by (intro span_sub) simp
  have rd: "rd32 m' (a + of_nat j) = rd32 m (a + of_nat j)" if "j \<le> 20" for j
    using only_changes_rd32 [OF Cons.prems(2)] sub [OF that] d by blast
  have "rd32 m' a = rd32 m a" "rd64 m' (a + 4) = rd64 m (a + 4)" "rd64 m' (a + 12) = rd64 m (a + 12)"
    "rd32 m' (a + 20) = rd32 m (a + 20)"
    using rd [of 0] rd [of 4] rd [of 8] rd [of 12] rd [of 16] rd [of 20] by (simp_all add: rd64_def add.assoc)
  moreover have "mmap_at m' (a + (e_size e + 4)) es"
    using Cons.IH [of "a + (e_size e + 4)"] Cons.prems k unfolding sp a by (auto simp: mmap_bytes_Cons)
  ultimately show ?case using Cons.prems(1) by simp
qed simp

lemma mb_only:
  assumes "only_changes A m m'" "span mbd 52 \<inter> A = {}"
  shows "mb_flags m' mbd = mb_flags m mbd" "mb_mmap_length m' mbd = mb_mmap_length m mbd"
    "mb_mmap_addr m' mbd = mb_mmap_addr m mbd"
proof -
  have "rd32 m' (mbd + of_nat j) = rd32 m (mbd + of_nat j)" if "j \<le> 48" for j
    using only_changes_rd32 [OF assms(1)] span_sub [of j 4 52 mbd] that assms(2) by fastforce
  from this [of 0] this [of 44] this [of 48] show "mb_flags m' mbd = mb_flags m mbd"
    "mb_mmap_length m' mbd = mb_mmap_length m mbd" "mb_mmap_addr m' mbd = mb_mmap_addr m mbd"
    by (simp_all add: mb_flags_def mb_mmap_length_def mb_mmap_addr_def)
qed

section \<open>From the memory manager to the end\<close>

text \<open>A computation that returns a result of which \<open>Q\<close> holds.\<close>

definition returns :: "'r option \<Rightarrow> ('r \<Rightarrow> bool) \<Rightarrow> bool" where
  "returns m Q \<longleftrightarrow> (\<exists>x. m = Some x \<and> Q x)"

text \<open>
  The state \<open>s\<close> is reached by steps of the boot from a good machine, with paging
  and interrupts on where \<open>p\<close> and \<open>i\<close> say so.
\<close>

definition reached :: "bool \<Rightarrow> bool \<Rightarrow> 'a ramfs_state_scheme \<Rightarrow> 'a ramfs_state_scheme \<Rightarrow> bool" where
  "reached p i s0 s \<longleftrightarrow> machine_ok s0 \<and> boot_frame s0 s \<and> (p \<longrightarrow> paging_on s) \<and> (i \<longrightarrow> interrupts_on s)"

lemma reached_frame: "reached p i s0 s \<Longrightarrow> boot_frame s t \<Longrightarrow> reached p i s0 t"
  by (auto simp: reached_def boot_frame_def)

lemma returns_step:
  assumes "boot_step f" "reached p i s0 s" "\<And>t. reached p i s0 t \<Longrightarrow> returns (g t) Q"
  shows "returns (Option.bind (f s) g) Q"
proof -
  have "machine_ok s" using assms(2) machine_ok_frame unfolding reached_def by blast
  then obtain t where t: "f s = Some t" "boot_frame s t" using assms(1) unfolding boot_step_def by blast
  from assms(3) [OF reached_frame [OF assms(2) t(2)]] show ?thesis by (simp add: t(1))
qed

lemma returns_pair:
  assumes "boot_step (\<lambda>s. map_option snd (f s))" "reached p i s0 s" "\<And>r t. reached p i s0 t \<Longrightarrow> returns (g r t) Q"
  shows "returns (Option.bind (f s) (\<lambda>(r, s). g r s)) Q"
proof -
  have "returns (Option.bind (map_option snd (f s)) Some) (\<lambda>t. reached p i s0 t)"
    using assms(1,2) by (rule returns_step) (simp add: returns_def)
  then show ?thesis using assms(3) by (auto simp: returns_def split: bind_splits)
qed

text \<open>\<open>init_pages\<close> turns paging on.\<close>

lemma returns_init_pages:
  assumes "reached p i s0 s" "\<And>t. reached True i s0 t \<Longrightarrow> returns (g t) Q"
  shows "returns (Option.bind (init_pages s) g) Q"
proof -
  have "paging_on t" if "init_pages s = Some t" for t
    using that by (auto simp: init_pages_def EnablePaging_def split: bind_splits)
  moreover have "returns (Option.bind (init_pages s) Some) (\<lambda>t. reached p i s0 t)"
    using init_pages_boot assms(1) by (rule returns_step) (simp add: returns_def)
  ultimately show ?thesis using assms(2) by (auto simp: returns_def reached_def split: bind_splits)
qed

lemmas boot_rules =
  returns_step [OF INFO_boot] returns_init_pages returns_step [OF draws_boot [OF WARN_draws]]
  returns_step [OF kybrd_init_boot] returns_step [OF mouse_init_boot]
  returns_pair [OF gd_init_boot] returns_pair [OF pcisub_init_boot] returns_pair [OF k_fork_boot]

lemma reached_pure:
  "reached p i s0 s \<Longrightarrow> reached p i s0 (map_framebuffer a n s)" "reached p i s0 s \<Longrightarrow> reached p i s0 (heap_init s)"
  using map_framebuffer_boot heap_init_boot reached_frame by blast+

lemma reached_Sti: "reached p i s0 s \<Longrightarrow> reached p True s0 (x86Sti s)"
  by (simp add: reached_def x86Sti_def boot_frame_def)

lemma init_devices_returns:
  fixes s :: "'a ramfs_state_scheme"
  assumes "machine_ok s" "mount_count s = 0" "length (mounts s) = 16"
  shows "returns (init_devices L 1 mbd magic s) (\<lambda>(r, t). r = KERNEL_SUCCESS \<and> fs_true t \<and> mount_count t = 1 \<and>
    current_process t = 0 \<and> process_list t = process_list s \<and> paging_on t \<and> interrupts_on t)"
proof -
  let ?Q = "\<lambda>(r, t :: 'a ramfs_state_scheme). r = KERNEL_SUCCESS \<and> fs_true t \<and> mount_count t = 1 \<and>
    current_process t = 0 \<and> process_list t = process_list s \<and> paging_on t \<and> interrupts_on t"
  have start: "reached False False s s" using assms(1) by (simp add: reached_def)
  have last: "returns (Option.bind (initramfs L t) (\<lambda>t. Option.bind (INFO ''Success!\<newline>'' t) (\<lambda>t. Some (KERNEL_SUCCESS, t)))) ?Q"
    if "reached True True s t" for t
  proof -
    have t: "mount_count t = 0" "length (mounts t) = 16" "current_process t = 0" "process_list t = process_list s"
      "paging_on t" "interrupts_on t"
      using that assms by (simp_all add: reached_def boot_frame_def machine_ok_def)
    obtain u where u: "initramfs L t = Some u" "fs_true u" "mount_count u = 1"
      "current_process u = current_process t" "process_list u = process_list t"
      "paging_on u = paging_on t" "interrupts_on u = interrupts_on t"
      using initramfs_result [OF t(1,2)] by blast
    obtain v where "INFO ''Success!\<newline>'' u = Some v" "gd_only u v" using drawsD [OF draws_INFO] by blast
    then show ?thesis using u t by (auto simp: returns_def gd_only_def)
  qed
  show ?thesis
    unfolding init_devices_def Let_def
    by (intro boot_rules reached_pure last) (assumption | rule start reached_Sti)+
qed

section \<open>From the entry to the memory manager\<close>

text \<open>Steps that write no memory and leave the memory manager's state alone.\<close>

definition quiet :: "'a ramfs_state_scheme \<Rightarrow> 'a ramfs_state_scheme \<Rightarrow> bool" where
  "quiet s t \<longleftrightarrow> boot_frame s t \<and> mem t = mem s \<and> memMap t = memMap s \<and> memBlockCount t = memBlockCount s \<and>
     total_pages t = total_pages s"

lemma idt_init_boot: "quiet s (idt_init L s)"
  by (simp add: idt_init_def idt_set_gate_def idt_load_def quiet_def boot_frame_def Let_def)

lemma tables_quiet:
  fixes s :: "'a ramfs_state_scheme"
  assumes "length (gdt s) = 6"
  shows "\<exists>t u. gdt_init L (InitStdio s) = Some t \<and> pit_init (pic_init (idt_init L t)) = Some u \<and> quiet s u"
proof -
  have g: "length (gdt (InitStdio s)) = 6" using assms by (simp add: InitStdio_def)
  obtain t where t: "gdt_init L (InitStdio s) = Some t" "quiet s t"
    unfolding gdt_init_table [OF g] by (simp add: quiet_def boot_frame_def InitStdio_def)
  let ?u = "irq_install_handler 0 Timer_handler (pic_init (idt_init L t))"
  obtain log where "x86IRQ_clearmask 0 ?u = Some (?u\<lparr>iolog := log\<rparr>)" using clearmask_log [of 0 ?u] by auto
  moreover have "quiet t (?u\<lparr>iolog := log\<rparr>)" for log
    using idt_init_boot [of t L] by (simp add: quiet_def boot_frame_def irq_install_handler_def pic_init_state)
  ultimately show ?thesis using t
    by (auto simp: pit_init_def setup_pit_state quiet_def boot_frame_def)
qed

lemma gd_init_headless:
  assumes "magic = MULTIBOOT_BOOTLOADER_MAGIC" "mb_flags (mem s) mbd AND push_bit 12 1 = 0" "con_ok s"
  shows "\<exists>t. gd_init mbd magic s = Some (GERROR, t) \<and> gd_only s t \<and> only_changes vga_cells (mem s) (mem t)"
proof -
  obtain out where out: "render (bytes ''GD: Error! No framebuffer (flags: 0x%x)\<newline>'') [VInt (mb_flags (mem s) mbd)] = Some out"
    using gd_messages(2) by blast
  obtain out' where out': "render (bytes ''GD Failed to get framebuffer\<newline>'') [] = Some out'"
    using gd_messages(7) by blast
  let ?t = "Stdout out s"
  have "gd_init mbd magic s = Some (GERROR, Stdout out' ?t)"
    using assms(1,2) by (simp add: gd_init_def get_framebuffer_def EarlyLog_renders out out')
  moreover have "gd_only s (Stdout out' ?t)" by (rule gd_only_trans [OF gd_only_Stdout gd_only_Stdout])
  moreover have "only_changes vga_cells (mem s) (mem (Stdout out' ?t))"
    using only_changes_trans [OF Stdout_only [OF assms(3)] Stdout_only [OF Stdout_ok [OF assms(3)]]] by simp
  ultimately show ?thesis by blast
qed

text \<open>
  A boot: GRUB's information without a framebuffer, lying outside the text screen,
  on a good machine, in the state the kernel image starts in.
\<close>

definition boot_ok :: "linker \<Rightarrow> u32 \<Rightarrow> mmap_entry list \<Rightarrow> 'a ramfs_state_scheme \<Rightarrow> bool" where
  "boot_ok L mbd es s \<longleftrightarrow>
     bit (mb_flags (mem s) mbd) 6 \<and> mb_flags (mem s) mbd AND push_bit 12 1 = 0 \<and>
     mmap_at (mem s) (mb_mmap_addr (mem s) mbd) es \<and> mmap_bytes es = unat (mb_mmap_length (mem s) mbd) \<and>
     (\<forall>e \<in> set es. 20 \<le> unat (e_size e)) \<and>
     span mbd 52 \<inter> vga_cells = {} \<and> span (mb_mmap_addr (mem s) mbd) (mmap_bytes es) \<inter> vga_cells = {} \<and>
     (let bs = take 256 (map clip_entry (filter usable_entry es))
      in (\<forall>b \<in> set bs. unat (End b) + 4095 < 2 ^ 32) \<and> block_pages bs \<le> 2 ^ 20) \<and>
     unat (kernel_end L) + 4095 < 2 ^ 32 \<and>
     machine_ok s \<and> con_ok s \<and> length (gdt s) = 6 \<and> memmap_ok s \<and> blocks s = [] \<and> total_pages s = 0 \<and>
     process_list s = 0 \<and> mount_count s = 0 \<and> length (mounts s) = 16"

lemma pmm_after_console:
  fixes s :: "'a ramfs_state_scheme"
  assumes ok: "boot_ok L mbd es s" and o: "only_changes vga_cells (mem s) (mem u)"
    and f: "memMap u = memMap s" "memBlockCount u = memBlockCount s" "total_pages u = total_pages s"
  shows "\<exists>v. pmm_init L mbd MULTIBOOT_BOOTLOADER_MAGIC u = Some (0, v)"
proof -
  have B: "bit (mb_flags (mem s) mbd) 6" "mmap_at (mem s) (mb_mmap_addr (mem s) mbd) es"
    "mmap_bytes es = unat (mb_mmap_length (mem s) mbd)" "\<forall>e \<in> set es. 20 \<le> unat (e_size e)"
    "span mbd 52 \<inter> vga_cells = {}" "span (mb_mmap_addr (mem s) mbd) (mmap_bytes es) \<inter> vga_cells = {}"
    "memmap_ok s" "blocks s = []" "total_pages s = 0" "unat (kernel_end L) + 4095 < 2 ^ 32"
    using ok unfolding boot_ok_def Let_def by blast+
  let ?bs = "take 256 (map clip_entry (filter usable_entry es))"
  have bs: "\<forall>b \<in> set ?bs. unat (End b) + 4095 < 2 ^ 32" "block_pages ?bs \<le> 2 ^ 20"
    using ok by (simp_all add: boot_ok_def Let_def)
  note mb = mb_only [OF o B(5)]
  have small: "mmap_bytes es < 2 ^ 32" unfolding B(3) using unat_bound32 by simp
  have map: "mmap_at (mem u) (mb_mmap_addr (mem u) mbd + 0) es"
    using mmap_at_only [OF B(2) o B(6,4) small] by (simp add: mb)
  have len: "unat (0 :: u32) + mmap_bytes es = unat (mb_mmap_length (mem u) mbd)" using B(3) by (simp add: mb)
  have mo: "memmap_ok u" "blocks u = []" using B(7,8) f by (simp_all add: memmap_ok_def blocks_def)
  obtain v where v: "get_memmap_loop mbd 0 u = Some v" "memmap_ok v" "total_pages v = 0" "blocks v = ?bs"
    using get_memmap_loop_blocks [OF mo(1) map len] mo(2) f(3) B(9) by auto
  have g: "get_memmap mbd MULTIBOOT_BOOTLOADER_MAGIC u = Some (0, v)"
    using B(1) v(1) by (simp add: get_memmap_def mb)
  show ?thesis
    by (rule pmm_init_state [OF g v(2,3) _ _ B(10)]) (use bs v(4) in auto)
qed

lemma kernel_init_returns:
  fixes s :: "'a ramfs_state_scheme"
  assumes "boot_ok L mbd es s"
  shows "returns (kernel_init L 1 mbd MULTIBOOT_BOOTLOADER_MAGIC s) (\<lambda>(r, t). r = KERNEL_SUCCESS \<and> fs_true t \<and>
    mount_count t = 1 \<and> current_process t = 0 \<and> process_list t = 0 \<and> paging_on t \<and> interrupts_on t)"
proof -
  let ?s = "x86Cli s"
  have B: "mb_flags (mem ?s) mbd AND push_bit 12 1 = 0" "con_ok ?s" "machine_ok s" "length (gdt s) = 6"
    "mount_count s = 0" "length (mounts s) = 16" "process_list s = 0"
    using assms by (simp_all add: boot_ok_def Let_def x86Cli_def con_ok_def)
  obtain t where t: "gd_init mbd MULTIBOOT_BOOTLOADER_MAGIC ?s = Some (GERROR, t)" "gd_only ?s t"
    "only_changes vga_cells (mem ?s) (mem t)"
    using gd_init_headless [OF refl B(1,2)] by blast
  have ft: "length (gdt t) = 6" "memMap t = memMap s" "memBlockCount t = memBlockCount s" "total_pages t = total_pages s"
    using t(2) B(4) by (auto simp: gd_only_def x86Cli_def)
  obtain u w where u: "gdt_init L (InitStdio t) = Some u" "pit_init (pic_init (idt_init L u)) = Some w" "quiet t w"
    using tables_quiet [OF ft(1)] by blast
  have "only_changes vga_cells (mem s) (mem w)" using t(3) u(3) by (simp add: quiet_def x86Cli_def)
  moreover have "memMap w = memMap s" "memBlockCount w = memBlockCount s" "total_pages w = total_pages s"
    using ft u(3) by (simp_all add: quiet_def)
  ultimately obtain v where v: "pmm_init L mbd MULTIBOOT_BOOTLOADER_MAGIC w = Some (0, v)"
    using pmm_after_console [OF assms] by blast
  have "boot_frame t v" using u(3) pmm_init_boot [OF v] boot_frame_trans by (auto simp: quiet_def)
  then have fv: "current_process v = current_process s \<and> process_list v = process_list s \<and> mount_count v = mount_count s \<and>
      mounts v = mounts s \<and> dev8 v = dev8 s \<and> dev32 v = dev32 s"
    using t(2) by (auto simp: gd_only_def boot_frame_def x86Cli_def)
  then have "machine_ok v" using B(3) by (simp add: machine_ok_def ps2_idle_def config_space_def)
  moreover have "kernel_init L 1 mbd MULTIBOOT_BOOTLOADER_MAGIC s = init_devices L 1 mbd MULTIBOOT_BOOTLOADER_MAGIC v"
    using t(1) u(1,2) v by (simp add: kernel_init_def Let_def warn_gd_def)
  ultimately show ?thesis using init_devices_returns [of v L mbd] fv B(5-7) by simp
qed

section \<open>The loop of \<open>kmain\<close>\<close>

definition idle :: "u32 \<Rightarrow> 'a ramfs_state_scheme \<Rightarrow> bool" where
  "idle dir s \<longleftrightarrow> current_process s = 0 \<and> process_list s = 0 \<and> cr3 s = dir"

lemma mouse_irq_handler_idle: "mouse_irq_handler s = Some t \<Longrightarrow> idle dir s \<Longrightarrow> idle dir t"
  by (auto simp: mouse_irq_handler_def process_packet_def pic_send_eoi_def idle_def hw_io_defs split: if_splits)

lemma call_handler_idle: "call_handler h r s = Some t \<Longrightarrow> idle dir s \<Longrightarrow> idle dir t"
  using mouse_irq_handler_idle
  by (cases h) (auto simp: kybrd_handler_state timer_handler_def idle_def)

lemma irq_handler_idle: "irq_handler call_handler r s = Some t \<Longrightarrow> idle dir s \<Longrightarrow> idle dir t"
  using call_handler_idle [of _ r s _ dir]
  by (auto simp: irq_handler_def idle_def hw_io_defs split: bind_splits option.splits if_splits)

inductive_cases kmain_stepE: "kmain_step s t"

lemma kmain_step_idle: "kmain_step s t \<Longrightarrow> idle dir s \<Longrightarrow> idle dir t"
proof (erule kmain_stepE)
  show "idle dir s \<Longrightarrow> t = Halt (schedule s) \<Longrightarrow> idle dir t" by (simp add: idle_def schedule_def hw_io_defs)
qed (rule irq_handler_idle)

lemma kmain_steps_idle: "kmain_step\<^sup>*\<^sup>* s t \<Longrightarrow> idle dir s \<Longrightarrow> idle dir t"
  by (induction rule: rtranclp_induct) (auto intro: kmain_step_idle)

section \<open>A boot\<close>

text \<open>The 128 MiB machine with an idle mouse and an empty PCI bus, as the kernel is entered.\<close>

definition boot_state :: ramfs_state where
  "boot_state = (ramfs0 (proc0 (pci0 (gd0 (paging0 (heap0 boot_pmm))))))
     \<lparr>dev8 := \<lambda>_ _. 0, dev32 := \<lambda>_ _. 0xFFFFFFFF\<rparr>"

lemma boot_state_ok: "boot_ok linker0 0x9000 grub_entries boot_state"
proof -
  have up: "mem boot_state = grub_memory" "memMap boot_state = memMap boot_pmm"
    "memBlockCount boot_state = memBlockCount boot_pmm" "total_pages boot_state = total_pages boot_pmm"
    "gdt boot_state = gdt boot_console" "con_x boot_state = con_x boot_console" "con_y boot_state = con_y boot_console"
    "current_process boot_state = 0" "process_list boot_state = 0" "mount_count boot_state = 0"
    "length (mounts boot_state) = 16" "dev8 boot_state = (\<lambda>_ _. 0)" "dev32 boot_state = (\<lambda>_ _. 0xFFFFFFFF)"
    by (simp_all add: boot_state_def ramfs0_def proc0_def pci0_def gd0_def paging0_def heap0_def boot_pmm_def pmm0_def
        ramfs_state.defs proc_state.defs pci_state.defs gd_state.defs paging_state.defs heap_state.defs pmm_state.defs
        console_state.defs)
  have "length (gdt boot_console) = 6"
    by (simp add: console0_def input0_def irqs0_def desc_state.defs irq_state.defs input_state.defs
        console_state.defs)
  moreover have "con_ok boot_state" using boot_con_ok by (simp add: con_ok_def up)
  moreover have "machine_ok boot_state"
    by (auto simp: machine_ok_def ps2_idle_def config_space_def bridge_def config_word_def up drop_bit_eq_div)
  moreover have "memmap_ok boot_state" "blocks boot_state = []" "total_pages boot_state = 0"
    using boot_pmm_simps by (simp_all add: memmap_ok_def blocks_def up)
  moreover have "span 0x9000 52 \<inter> vga_cells = {}" "span 0x9100 72 \<inter> vga_cells = {}"
    by (rule span_disjoint; simp)+
  ultimately show ?thesis
    unfolding boot_ok_def Let_def up
    using grub_loaded grub_map
    by (simp add: mmap_bytes_def grub_entries_def usable_entry_def clip_entry_def block_pages_def)
qed

text \<open>What holds of a result, if there is one.\<close>

definition if_returns :: "'r option \<Rightarrow> ('r \<Rightarrow> bool) \<Rightarrow> bool" where
  "if_returns m Q \<longleftrightarrow> (\<forall>x. m = Some x \<longrightarrow> Q x)"

lemma if_returns_bind: "(\<And>x. if_returns (g x) Q) \<Longrightarrow> if_returns (Option.bind m g) Q"
  by (auto simp: if_returns_def split: bind_splits)

lemma if_returns_pair: "(\<And>r t. if_returns (g r t) Q) \<Longrightarrow> if_returns (Option.bind m (\<lambda>(r, t). g r t)) Q"
  by (auto simp: if_returns_def split: bind_splits)

lemma if_returns_pmm:
  fixes s :: "'a ramfs_state_scheme"
  assumes "\<And>t. if_returns (g 0 t) Q"
  shows "if_returns (Option.bind (pmm_init L mbd magic s) (\<lambda>(r, t). g r t)) Q"
proof -
  have "q = 0" if "pmm_init L mbd magic s = Some (q, v)" for q v
    using that by (auto simp: pmm_init_def Let_def split: bind_splits)
  then show ?thesis using assms by (fastforce simp: if_returns_def split: bind_splits)
qed

lemma if_returns_if: "(b \<Longrightarrow> if_returns m Q) \<Longrightarrow> (\<not> b \<Longrightarrow> if_returns n Q) \<Longrightarrow> if_returns (if b then m else n) Q"
  by simp

lemma if_returns_Some: "Q x \<Longrightarrow> if_returns (Some x) Q"
  by (simp add: if_returns_def)

lemmas if_returns_rules = if_returns_pmm if_returns_pair if_returns_bind if_returns_if if_returns_Some

section \<open>Properties\<close>

text \<open>
  The kernel boots: from GRUB's information without a framebuffer, on a machine
  with an idle mouse controller and no PCI bridge, \<open>kmain\<close> gets to its loop:
  every component is initialised in turn, the root file system is mounted, paging and
  interrupts are on.  No process is ever created: whatever turns of the loop and
  interrupts follow, the process list stays empty, \<open>schedule\<close> has nothing to run,
  and the page directory in use does not change.
\<close>

theorem kernel_boots:
  fixes s :: "'a ramfs_state_scheme"
  assumes "boot_ok L mbd es s"
  shows "\<exists>t. kmain_start L 1 mbd MULTIBOOT_BOOTLOADER_MAGIC s = Some (True, t) \<and> fs_true t \<and> mount_count t = 1 \<and>
    paging_on t \<and> interrupts_on t \<and>
    (\<forall>u. kmain_step\<^sup>*\<^sup>* t u \<longrightarrow> current_process u = 0 \<and> process_list u = 0 \<and> cr3 u = cr3 t)"
proof -
  obtain t where t: "kernel_init L 1 mbd MULTIBOOT_BOOTLOADER_MAGIC s = Some (KERNEL_SUCCESS, t)"
    "fs_true t" "mount_count t = 1" "current_process t = 0" "process_list t = 0" "paging_on t" "interrupts_on t"
    using kernel_init_returns [OF assms] unfolding returns_def by auto
  obtain u where u: "INFO ''Kernel just booted successfully!\<newline>'' t = Some u" "gd_only t u"
    using drawsD [OF draws_INFO] by blast
  have fu: "fs_true u" "mount_count u = 1" "paging_on u" "interrupts_on u" "idle (cr3 u) u"
    using t u(2) by (auto simp: gd_only_def idle_def)
  have "\<forall>v. kmain_step\<^sup>*\<^sup>* u v \<longrightarrow> current_process v = 0 \<and> process_list v = 0 \<and> cr3 v = cr3 u"
    using kmain_steps_idle [OF _ fu(5)] unfolding idle_def by blast
  moreover have "kmain_start L 1 mbd MULTIBOOT_BOOTLOADER_MAGIC s = Some (True, u)"
    using t(1) u(1) by (simp add: kmain_start_def)
  ultimately show ?thesis using fu(1-4) by blast
qed

theorem kernel_boots_witness:
  "\<exists>t. kmain_start linker0 1 0x9000 0x2BADB002 boot_state = Some (True, t) \<and> process_list (Halt (schedule t)) = 0"
proof -
  obtain t where t: "kmain_start linker0 1 0x9000 0x2BADB002 boot_state = Some (True, t)"
    "\<forall>u. kmain_step\<^sup>*\<^sup>* t u \<longrightarrow> current_process u = 0 \<and> process_list u = 0 \<and> cr3 u = cr3 t"
    using kernel_boots [OF boot_state_ok] by blast
  have "kmain_step\<^sup>*\<^sup>* t (Halt (schedule t))" by (rule r_into_rtranclp) (rule kmain_step.turn)
  then show ?thesis using t by blast
qed

text \<open>
  Initialisation cannot fail: whatever the boot information says, even with a
  wrong magic number or without a memory map, \<open>kernel_init\<close> never returns
  \<open>KERNEL_FAULT\<close>, because \<open>pmm_init\<close> returns 0 in every case; so
  \<open>kmain\<close> never stops with its error message.
\<close>

theorem kernel_init_never_faults:
  assumes "kernel_init L depth mbd magic s = Some (r, t)"
  shows "r = KERNEL_SUCCESS \<and> (\<forall>u. kmain_start L depth mbd magic s \<noteq> Some (False, u))"
proof -
  have "if_returns (kernel_init L depth mbd magic s) (\<lambda>(r, t). r = KERNEL_SUCCESS)"
    unfolding kernel_init_def init_devices_def Let_def
    by (intro if_returns_rules) simp_all
  then have r: "r = KERNEL_SUCCESS" using assms by (auto simp: if_returns_def)
  then show ?thesis using assms by (auto simp: kmain_start_def split: bind_splits)
qed

theorem kernel_init_never_faults_witness:
  "\<exists>t. kernel_init linker0 1 0x9000 0x2BADB002 boot_state = Some (KERNEL_SUCCESS, t)"
proof -
  obtain r t where "kernel_init linker0 1 0x9000 0x2BADB002 boot_state = Some (r, t)"
    using kernel_init_returns [OF boot_state_ok] unfolding returns_def by auto
  with kernel_init_never_faults [OF this] show ?thesis by blast
qed

end
