(* ===== verification/Stubs.thy ===== *)
theory Stubs
  imports Proc
begin

text \<open>
  The assembly between the processor and the C code: \<open>asm/irq_stub.asm\<close> and
  the entry code of \<open>asm/entry.s\<close>.  The instructions the files use are a
  datatype, a stub is the list of its instructions, and \<open>step\<close> is what the
  processor does for each; the stack is in physical memory like everything else.
  The facts: an interrupt that comes in through the IDT reaches the C handler with
  the arguments it declares, and the interrupted program gets its registers back.
\<close>

section \<open>The processor\<close>

datatype reg = EAX | ECX | EDX | EBX | ESP | EBP | ESI | EDI
datatype seg = CS | DS | ES | FS | GS | SS

record cpu =
  gpr :: "reg \<Rightarrow> u32"
  sreg :: "seg \<Rightarrow> u16"
  eip :: u32
  eflags :: u32
  cr2 :: u32

text \<open>
  The interrupt flag is bit 9 of \<open>eflags\<close>; the kernel's state follows it in
  \<open>interrupts_on\<close>.
\<close>

definition set_flags_word :: "u32 \<Rightarrow> cpu \<times> 'a hw_scheme \<Rightarrow> cpu \<times> 'a hw_scheme" where
  "set_flags_word w = (\<lambda>(c, s). (c\<lparr>eflags := w\<rparr>, s\<lparr>interrupts_on := bit w 9\<rparr>))"

definition push :: "u32 \<Rightarrow> cpu \<times> 'a hw_scheme \<Rightarrow> cpu \<times> 'a hw_scheme" where
  "push v = (\<lambda>(c, s). let esp = gpr c ESP - 4
     in (c\<lparr>gpr := (gpr c)(ESP := esp)\<rparr>, s\<lparr>mem := wr32 (mem s) esp v\<rparr>))"

definition top_word :: "cpu \<times> 'a hw_scheme \<Rightarrow> u32" where
  "top_word = (\<lambda>(c, s). rd32 (mem s) (gpr c ESP))"

definition drop_words :: "u32 \<Rightarrow> cpu \<times> 'a hw_scheme \<Rightarrow> cpu \<times> 'a hw_scheme" where
  "drop_words n = (\<lambda>(c, s). (c\<lparr>gpr := (gpr c)(ESP := gpr c ESP + n)\<rparr>, s))"

definition set_gpr :: "reg \<Rightarrow> u32 \<Rightarrow> cpu \<times> 'a hw_scheme \<Rightarrow> cpu \<times> 'a hw_scheme" where
  "set_gpr r v = (\<lambda>(c, s). (c\<lparr>gpr := (gpr c)(r := v)\<rparr>, s))"

definition set_sreg :: "seg \<Rightarrow> u16 \<Rightarrow> cpu \<times> 'a hw_scheme \<Rightarrow> cpu \<times> 'a hw_scheme" where
  "set_sreg g v = (\<lambda>(c, s). (c\<lparr>sreg := (sreg c)(g := v)\<rparr>, s))"

definition pop :: "reg \<Rightarrow> cpu \<times> 'a hw_scheme \<Rightarrow> cpu \<times> 'a hw_scheme" where
  "pop r m = set_gpr r (top_word m) (drop_words 4 m)"

definition set_low16 :: "u32 \<Rightarrow> u16 \<Rightarrow> u32" where
  "set_low16 w v = (w AND 0xFFFF0000) OR ucast v"

text \<open>The C functions the stubs call.\<close>

datatype cfun = C_irq_handler | C_page_fault_handler | C_kmain

datatype instr =
  Cli_i | Sti_i | PushByte u8 | Push reg | Pop reg | PushSeg seg | PopSeg seg | PushMem u32
| Pusha | Popa | MovSegReg seg reg | MovRegSeg reg seg | MovWord reg u16 | MovRegCr2 reg
| MovImm reg u32 | AddEsp u32 | CallC cfun | Iret

text \<open>
  A call pushes the address to return to, runs the function and returns; which
  address that is, \<open>ret\<close>, is the assembler's.  \<open>call\<close> is the meaning of
  the functions.  Interrupts do not change the privilege level: nothing in the
  kernel leaves ring 0.
\<close>

fun step :: "u32 \<Rightarrow> (cfun \<Rightarrow> cpu \<times> 'a hw_scheme \<Rightarrow> (cpu \<times> 'a hw_scheme) option)
    \<Rightarrow> instr \<Rightarrow> cpu \<times> 'a hw_scheme \<Rightarrow> (cpu \<times> 'a hw_scheme) option" where
  "step ret call Cli_i m = Some (set_flags_word (unset_bit 9 (eflags (fst m))) m)"
| "step ret call Sti_i m = Some (set_flags_word (set_bit 9 (eflags (fst m))) m)"
| "step ret call (PushByte b) m = Some (push (scast b) m)"
| "step ret call (Push r) m = Some (push (gpr (fst m) r) m)"
| "step ret call (Pop r) m = Some (pop r m)"
| "step ret call (PushSeg g) m = Some (push (ucast (sreg (fst m) g)) m)"
| "step ret call (PopSeg g) m = Some (set_sreg g (ucast (top_word m)) (drop_words 4 m))"
| "step ret call (PushMem off) m = Some (push (rd32 (mem (snd m)) (gpr (fst m) ESP + off)) m)"
| "step ret call Pusha m =
     Some (fold push (map (gpr (fst m)) [EAX, ECX, EDX, EBX, ESP, EBP, ESI, EDI]) m)"
| "step ret call Popa m =
     Some (pop EAX (pop ECX (pop EDX (pop EBX (drop_words 4 (pop EBP (pop ESI (pop EDI m))))))))"
| "step ret call (MovSegReg g r) m = Some (set_sreg g (ucast (gpr (fst m) r)) m)"
| "step ret call (MovRegSeg r g) m = Some (set_gpr r (set_low16 (gpr (fst m) r) (sreg (fst m) g)) m)"
| "step ret call (MovWord r w) m = Some (set_gpr r (set_low16 (gpr (fst m) r) w) m)"
| "step ret call (MovRegCr2 r) m = Some (set_gpr r (cr2 (fst m)) m)"
| "step ret call (MovImm r w) m = Some (set_gpr r w m)"
| "step ret call (AddEsp n) m = Some (drop_words n m)"
| "step ret call (CallC f) m = map_option (drop_words 4) (call f (push ret m))"
| "step ret call Iret m =
     (let ip = top_word m; m = drop_words 4 m; code = top_word m; m = drop_words 4 m; fl = top_word m; (c, s) = drop_words 4 m
      in Some (set_flags_word fl (c\<lparr>eip := ip, sreg := (sreg c)(CS := ucast code)\<rparr>, s)))"

abbreviation run :: "u32 \<Rightarrow> (cfun \<Rightarrow> cpu \<times> 'a hw_scheme \<Rightarrow> (cpu \<times> 'a hw_scheme) option)
    \<Rightarrow> instr list \<Rightarrow> cpu \<times> 'a hw_scheme \<Rightarrow> (cpu \<times> 'a hw_scheme) option" where
  "run ret call \<equiv> for_each (step ret call)"

section \<open>The stubs\<close>

definition irq_common_stub :: "instr list" where
  "irq_common_stub =
     [Pusha, MovRegSeg EAX DS, Push EAX,
      MovWord EAX 0x10, MovSegReg DS EAX, MovSegReg ES EAX, MovSegReg FS EAX, MovSegReg GS EAX,
      Push ESP, CallC C_irq_handler, AddEsp 4,
      Pop EAX, MovSegReg DS EAX, MovSegReg ES EAX, MovSegReg FS EAX, MovSegReg GS EAX,
      Popa, AddEsp 8, Sti_i, Iret]"

definition irq_code :: "nat \<Rightarrow> instr list" where
  "irq_code n = [Cli_i, PushByte 0, PushByte (32 + of_nat n)] @ irq_common_stub"

definition page_fault_code :: "instr list" where
  "page_fault_code =
     [Cli_i, Pusha, PushSeg DS, PushSeg ES, PushSeg FS, PushSeg GS,
      MovWord EAX 0x10, MovSegReg DS EAX, MovSegReg ES EAX, MovSegReg FS EAX, MovSegReg GS EAX,
      MovRegCr2 EAX, Push EAX, PushMem 52, CallC C_page_fault_handler, AddEsp 8,
      PopSeg GS, PopSeg FS, PopSeg ES, PopSeg DS, Popa, AddEsp 4, Iret]"

text \<open>The code at an address the IDT leads to.\<close>

definition code_at :: "linker \<Rightarrow> u32 \<Rightarrow> instr list option" where
  "code_at L a = (if a = page_fault_stub L then Some page_fault_code
     else map_option irq_code (List.find (\<lambda>n. irq_stub L n = a) [0..<16]))"

text \<open>
  What the processor does when vector \<open>v\<close> is raised: it saves \<open>eflags\<close>,
  \<open>cs\<close> and \<open>eip\<close>, and the error code of an exception that has one, clears
  the interrupt flag (the gates are interrupt gates) and goes to the gate's address.
\<close>

definition enter_gate :: "nat \<Rightarrow> u32 option \<Rightarrow> cpu \<times> 'a desc_state_scheme \<Rightarrow> cpu \<times> 'a desc_state_scheme" where
  "enter_gate v err m =
     (let c = fst m; g = idt (snd m) ! v;
          m = push (eip c) (push (ucast (sreg c CS)) (push (eflags c) m));
          (c, s) = (case err of None \<Rightarrow> m | Some e \<Rightarrow> push e m)
      in set_flags_word (unset_bit 9 (eflags c))
           (c\<lparr>eip := idt_offset g, sreg := (sreg c)(CS := selector g)\<rparr>, s))"

definition raise_vector ::
  "linker \<Rightarrow> u32 \<Rightarrow> (cfun \<Rightarrow> cpu \<times> 'a desc_state_scheme \<Rightarrow> (cpu \<times> 'a desc_state_scheme) option)
   \<Rightarrow> nat \<Rightarrow> u32 option \<Rightarrow> cpu \<times> 'a desc_state_scheme \<Rightarrow> (cpu \<times> 'a desc_state_scheme) option" where
  "raise_vector L ret call v err m =
     (let m = enter_gate v err m in Option.bind (code_at L (eip (fst m))) (\<lambda>code. run ret call code m))"

text \<open>
  The meaning of the C functions, by the calling convention: the arguments lie above
  the return address; \<open>eax\<close>, \<open>ecx\<close> and \<open>edx\<close> may hold anything
  afterwards (\<open>junk\<close>), the other registers are kept.  The stack the compiled
  code uses below its arguments is no state of the model.
\<close>

definition registers_at :: "memory \<Rightarrow> u32 \<Rightarrow> registers" where
  "registers_at m p = \<lparr>r_ds = rd32 m p, r_edi = rd32 m (p + 4), r_esi = rd32 m (p + 8), r_ebp = rd32 m (p + 12),
     r_esp = rd32 m (p + 16), r_ebx = rd32 m (p + 20), r_edx = rd32 m (p + 24), r_ecx = rd32 m (p + 28),
     r_eax = rd32 m (p + 32), int_no = rd32 m (p + 36), err_code = rd32 m (p + 40), r_eip = rd32 m (p + 44),
     r_cs = rd32 m (p + 48), r_eflags = rd32 m (p + 52), r_useresp = rd32 m (p + 56), r_ss = rd32 m (p + 60)\<rparr>"

definition clobber :: "(reg \<Rightarrow> u32) \<Rightarrow> cpu \<Rightarrow> cpu" where
  "clobber junk c = c\<lparr>gpr := (\<lambda>r. if r \<in> {EAX, ECX, EDX} then junk r else gpr c r)\<rparr>"

definition argument :: "u32 \<Rightarrow> cpu \<times> 'a hw_scheme \<Rightarrow> u32" where
  "argument k m = rd32 (mem (snd m)) (gpr (fst m) ESP + 4 + 4 * k)"

fun interrupt_call :: "(reg \<Rightarrow> u32) \<Rightarrow> cfun \<Rightarrow> cpu \<times> 'a proc_state_scheme \<Rightarrow> (cpu \<times> 'a proc_state_scheme) option" where
  "interrupt_call junk C_irq_handler m =
     map_option (\<lambda>s. (clobber junk (fst m), s))
       (irq_handler call_handler (registers_at (mem (snd m)) (argument 0 m)) (snd m))"
| "interrupt_call junk C_page_fault_handler m =
     Some (clobber junk (fst m), page_fault_handler (argument 0 m) (argument 1 m) (snd m))"
| "interrupt_call junk C_kmain m = None"

section \<open>Running a stub\<close>

lemma offset_apart:
  assumes "4 \<le> a - b" "4 \<le> b - a"
  shows "span (e - b) 4 \<inter> span (e - a) 4 = ({} :: u32 set)"
proof (rule ccontr)
  assume "span (e - b) 4 \<inter> span (e - a) 4 \<noteq> {}"
  then obtain x where x: "x - (e - b) < 4" "x - (e - a) < 4"
    by (auto simp: span_iff word_less_nat_alt)
  have d: "b - a = (x - (e - b)) - (x - (e - a))" "a - b = (x - (e - a)) - (x - (e - b))" by simp_all
  have small: "i - j < 4" if "i < 4" "j \<le> i" for i j :: u32
    using that by (auto simp: word_less_nat_alt word_le_nat_alt unat_sub)
  show False
  proof (cases "x - (e - a) \<le> x - (e - b)")
    case True
    then show False using small [OF x(1) True] assms(2) unfolding d(1) [symmetric] by simp
  next
    case False
    then have "a - b < 4" using small [OF x(2), of "x - (e - b)"] unfolding d(2) [symmetric] by simp
    then show False using assms(1) by simp
  qed
qed

lemma rd32_wr32_offset: "4 \<le> a - b \<Longrightarrow> 4 \<le> b - a \<Longrightarrow> rd32 (wr32 m (e - a) v) (e - b) = rd32 m (e - b)"
  by (rule rd32_wr32_disjoint [OF offset_apart])

lemma offset_arith: "(e - a) - b = e - (a + b)" "(e - a) + b = e - (a - b)" for e :: u32
  by simp_all

text \<open>Memory after words have been pushed below \<open>e\<close>, the first one on top.\<close>

fun stacked :: "memory \<Rightarrow> u32 \<Rightarrow> u32 list \<Rightarrow> memory" where
  "stacked m e [] = m"
| "stacked m e (w # ws) = stacked (wr32 m (e - 4) w) (e - 4) ws"

lemma stacked_only: "only_changes (span (e - of_nat (4 * length ws)) (4 * length ws)) m (stacked m e ws)"
proof (induction ws arbitrary: m e)
  case (Cons w ws)
  let ?k = "4 * length ws"
  have s: "span (e - of_nat (4 * length (w # ws))) (4 * length (w # ws)) =
      span (e - 4 - of_nat ?k) ?k \<union> span (e - 4) 4"
    using span_add [of "e - 4 - of_nat ?k" ?k 4] by (simp add: algebra_simps)
  have "only_changes (span (e - 4) 4) m (wr32 m (e - 4) w)" by (rule only_changes_wr32) simp
  from only_changes_trans [OF this Cons.IH] show ?case unfolding s by (simp add: Un_commute)
qed simp

lemma high16_bit: "\<not> bit (0xFFFF0000 :: u32) n" if "n < 16"
proof -
  have "0xFFFF0000 = push_bit 16 (0xFFFF :: u32)" by simp
  then show ?thesis using that by (simp only: bit_push_bit_iff) simp
qed

lemma low16 [simp]: "ucast (set_low16 w v) = v" "set_low16 (set_low16 w v) u = set_low16 w u"
proof -
  show "ucast (set_low16 w v) = v"
    by (rule bit_word_eqI) (use high16_bit in \<open>auto simp: set_low16_def bit_simps\<close>)
  show "set_low16 (set_low16 w v) u = set_low16 w u"
    by (rule bit_word_eqI) (use high16_bit in \<open>auto simp: set_low16_def bit_simps dest: bit_imp_le_length\<close>)
qed

lemmas cpu_simps = set_flags_word_def push_def top_word_def drop_words_def set_gpr_def set_sreg_def pop_def
  Let_def offset_arith rd32_wr32_offset x86Cli_def

section \<open>Device interrupts\<close>

definition irq_words :: "cpu \<Rightarrow> nat \<Rightarrow> u32 \<Rightarrow> u32 list" where
  "irq_words c n ret =
     [eflags c, ucast (sreg c CS), eip c, 0, scast (32 + of_nat n :: u8),
      gpr c EAX, gpr c ECX, gpr c EDX, gpr c EBX, gpr c ESP - 20, gpr c EBP, gpr c ESI, gpr c EDI,
      set_low16 (gpr c EAX) (sreg c DS), gpr c ESP - 56, ret]"

lemma enter_irq:
  assumes "idt s ! (32 + n) = idt_make a 8 0x8E"
  shows "enter_gate (32 + n) None (c, s) =
    (c\<lparr>eflags := unset_bit 9 (eflags c), eip := a, sreg := (sreg c)(CS := 8), gpr := (gpr c)(ESP := gpr c ESP - 12)\<rparr>,
     s\<lparr>mem := stacked (mem s) (gpr c ESP) [eflags c, ucast (sreg c CS), eip c], interrupts_on := False\<rparr>)"
  using assms by (simp add: enter_gate_def cpu_simps idt_offset_make bit_unset_bit_iff) (simp add: idt_make_def)

definition irq_frame :: "cpu \<Rightarrow> nat \<Rightarrow> registers" where
  "irq_frame c n = \<lparr>r_ds = set_low16 (gpr c EAX) (sreg c DS), r_edi = gpr c EDI, r_esi = gpr c ESI,
     r_ebp = gpr c EBP, r_esp = gpr c ESP - 20, r_ebx = gpr c EBX, r_edx = gpr c EDX, r_ecx = gpr c ECX,
     r_eax = gpr c EAX, int_no = scast (32 + of_nat n :: u8), err_code = 0, r_eip = eip c,
     r_cs = ucast (sreg c CS), r_eflags = eflags c, r_useresp = 0, r_ss = 0\<rparr>"

text \<open>The stub up to its call, and from there on.\<close>

definition irq_prologue :: "nat \<Rightarrow> instr list" where
  "irq_prologue n = [Cli_i, PushByte 0, PushByte (32 + of_nat n), Pusha, MovRegSeg EAX DS, Push EAX,
     MovWord EAX 0x10, MovSegReg DS EAX, MovSegReg ES EAX, MovSegReg FS EAX, MovSegReg GS EAX, Push ESP]"

definition irq_epilogue :: "instr list" where
  "irq_epilogue = [AddEsp 4, Pop EAX, MovSegReg DS EAX, MovSegReg ES EAX, MovSegReg FS EAX, MovSegReg GS EAX,
     Popa, AddEsp 8, Sti_i, Iret]"

lemma irq_code_parts: "irq_code n = irq_prologue n @ CallC C_irq_handler # irq_epilogue"
  by (simp add: irq_code_def irq_common_stub_def irq_prologue_def irq_epilogue_def)

lemma for_each_append: "for_each f (xs @ ys) s = Option.bind (for_each f xs s) (for_each f ys)"
  by (induction xs arbitrary: s) (auto split: bind_splits)

lemma all_regs: "(\<forall>r. P r) \<longleftrightarrow> P EAX \<and> P ECX \<and> P EDX \<and> P EBX \<and> P ESP \<and> P EBP \<and> P ESI \<and> P EDI"
  by (metis reg.exhaust)

lemma all_segs: "(\<forall>g. P g) \<longleftrightarrow> P CS \<and> P DS \<and> P ES \<and> P FS \<and> P GS \<and> P SS"
  by (metis seg.exhaust)

lemma unset_twice: "unset_bit n (unset_bit n w) = unset_bit n w" for w :: u32
  by (rule bit_word_eqI) (auto simp: bit_unset_bit_iff)

lemma selector_word: "ucast (ucast v :: u32) = (v :: u16)"
  by (rule bit_word_eqI) (auto simp: bit_simps)

definition in_irq :: "cpu \<Rightarrow> u32 \<Rightarrow> cpu" where
  "in_irq c a = c\<lparr>eflags := unset_bit 9 (eflags c), eip := a,
     sreg := (sreg c)(CS := 8, DS := 0x10, ES := 0x10, FS := 0x10, GS := 0x10),
     gpr := (gpr c)(EAX := set_low16 (gpr c EAX) 0x10, ESP := gpr c ESP - 64)\<rparr>"

lemma irq_to_call:
  assumes "e = gpr c ESP"
  shows "map_option (push ret) (run ret call (irq_prologue n)
    (c\<lparr>eflags := unset_bit 9 (eflags c), eip := a, sreg := (sreg c)(CS := 8), gpr := (gpr c)(ESP := e - 12)\<rparr>,
     s\<lparr>mem := stacked (mem s) e [eflags c, ucast (sreg c CS), eip c], interrupts_on := False\<rparr>)) =
    Some (in_irq c a, s\<lparr>mem := stacked (mem s) e (irq_words c n ret), interrupts_on := False\<rparr>)"
  unfolding assms
  by (simp add: irq_prologue_def cpu_simps irq_words_def in_irq_def bit_unset_bit_iff unset_twice)

lemma irq_from_call:
  assumes "e = gpr c ESP" "mem t = stacked m e (irq_words c n ret)"
  shows "run ret call irq_epilogue (drop_words 4 (clobber junk (in_irq c a), t)) =
    Some (c\<lparr>sreg := (sreg c)(ES := sreg c DS, FS := sreg c DS, GS := sreg c DS)\<rparr>,
      t\<lparr>interrupts_on := bit (eflags c) 9\<rparr>)"
  unfolding assms(1)
  by (simp add: irq_epilogue_def cpu_simps irq_words_def in_irq_def clobber_def assms selector_word)
    (rule cpu.equality; simp add: fun_eq_iff all_regs all_segs)

text \<open>The handlers of the kernel write no memory.\<close>

lemma process_packet_mem: "mem (process_packet s) = mem s"
  by (simp add: process_packet_def Let_def)

lemma call_handler_mem: "call_handler h r s = Some t \<Longrightarrow> mem t = mem s"
  by (cases h) (auto simp: timer_handler_def kybrd_handler_state mouse_irq_handler_def process_packet_mem
      pic_send_eoi_def hw_io_defs split: if_splits)

lemma irq_handler_mem: "irq_handler call_handler r s = Some t \<Longrightarrow> mem t = mem s"
  by (auto simp: irq_handler_def hw_io_defs dest: call_handler_mem split: if_splits bind_splits option.splits)

lemma handlers_ok_frame [simp]:
  "handlers_ok (s\<lparr>mem := m\<rparr>) = handlers_ok s" "handlers_ok (s\<lparr>interrupts_on := b\<rparr>) = handlers_ok s"
  for s :: "'a input_state_scheme"
  by (simp_all add: handlers_ok_def mouse_ok_def)

lemma vector_number: "n < 16 \<Longrightarrow> (scast (32 + of_nat n :: u8) :: u32) = 32 + of_nat n"
proof -
  assume n: "n < 16"
  have "\<forall>n \<in> {..<16}. (scast (32 + of_nat n :: u8) :: u32) = 32 + of_nat n"
    by (simp add: lessThan_nat_numeral lessThan_Suc)
  then show ?thesis using n by simp
qed

lemma irq_code_at:
  assumes "n < 16" "inj_on (irq_stub L) {..<16}" "page_fault_stub L \<notin> irq_stub L ` {..<16}"
  shows "code_at L (irq_stub L n) = Some (irq_code n)"
proof -
  have "List.find (\<lambda>k. irq_stub L k = irq_stub L n) [0..<16] = Some n"
    unfolding find_Some_iff
    by (rule exI [of _ n]) (use assms(1,2) in \<open>auto simp: inj_on_def\<close>)
  moreover have "irq_stub L n \<noteq> page_fault_stub L" using assms(1,3) by (metis image_eqI lessThan_iff)
  ultimately show ?thesis by (simp add: code_at_def)
qed

text \<open>
  C27 (interrupt stubs): when line \<open>n\<close> interrupts, the gate \<open>idt_init\<close> set up
  leads through the assembly stub to \<open>irq_handler\<close>, with interrupts off and a
  \<open>registers_t\<close> that holds vector \<open>32 + n\<close> and the interrupted program's
  registers.  The handler runs on the kernel's state as it was, but for at most 64 bytes
  below the stack pointer.  Afterwards the program goes on where it was, with its
  registers, flags and stack pointer; only \<open>es\<close>, \<open>fs\<close> and \<open>gs\<close> are
  given the value of \<open>ds\<close>.
\<close>

theorem irq_reaches_handler:
  fixes s :: "'a proc_state_scheme"
  assumes "handlers_ok s" "n < 16" "idt s = idt (idt_init L t)"
    and "inj_on (irq_stub L) {..<16}" "page_fault_stub L \<notin> irq_stub L ` {..<16}"
  shows "\<exists>r m s'. only_changes (span (gpr c ESP - 64) 64) (mem s) m \<and>
    int_no r = 32 + of_nat n \<and> r_eip r = eip c \<and> r_cs r = ucast (sreg c CS) \<and> r_eflags r = eflags c \<and>
    r_eax r = gpr c EAX \<and> r_ecx r = gpr c ECX \<and> r_edx r = gpr c EDX \<and> r_ebx r = gpr c EBX \<and>
    r_ebp r = gpr c EBP \<and> r_esi r = gpr c ESI \<and> r_edi r = gpr c EDI \<and> ucast (r_ds r) = sreg c DS \<and>
    irq_handler call_handler r (s\<lparr>mem := m, interrupts_on := False\<rparr>) = Some s' \<and> mem s' = m \<and>
    raise_vector L ret (interrupt_call junk) (32 + n) None (c, s) =
      Some (c\<lparr>sreg := (sreg c)(ES := sreg c DS, FS := sreg c DS, GS := sreg c DS)\<rparr>,
        s'\<lparr>interrupts_on := bit (eflags c) 9\<rparr>)"
proof -
  let ?e = "gpr c ESP" and ?a = "irq_stub L n"
  let ?m = "stacked (mem s) ?e (irq_words c n ret)"
  let ?r = "registers_at ?m (?e - 56)" and ?t = "s\<lparr>mem := ?m, interrupts_on := False\<rparr>"
  have gate: "idt s ! (32 + n) = idt_make ?a 8 0x8E" using assms(2) by (simp add: assms(3) idt_init_entries)
  have regs: "int_no ?r = 32 + of_nat n" "r_eip ?r = eip c" "r_cs ?r = ucast (sreg c CS)" "r_eflags ?r = eflags c"
    "r_eax ?r = gpr c EAX" "r_ecx ?r = gpr c ECX" "r_edx ?r = gpr c EDX" "r_ebx ?r = gpr c EBX"
    "r_ebp ?r = gpr c EBP" "r_esi ?r = gpr c ESI" "r_edi ?r = gpr c EDI" "ucast (r_ds ?r) = sreg c DS"
    by (simp_all add: registers_at_def irq_words_def offset_arith rd32_wr32_offset vector_number [OF assms(2)])
  have "handlers_ok ?t" using assms(1) by simp
  from kernel_irqs.dispatch [OF this assms(2) regs(1)] obtain s' where s': "irq_handler call_handler ?r ?t = Some s'"
    by metis
  then have m: "mem s' = ?m" using irq_handler_mem [OF s'] by simp
  have call: "interrupt_call junk C_irq_handler (in_irq c ?a, ?t) = Some (clobber junk (in_irq c ?a), s')"
    using s' by (simp add: argument_def in_irq_def irq_words_def offset_arith rd32_wr32_offset)
  obtain p where p: "run ret (interrupt_call junk) (irq_prologue n) (enter_gate (32 + n) None (c, s)) = Some p"
    "push ret p = (in_irq c ?a, ?t)"
    using irq_to_call [OF refl, of ret "interrupt_call junk" n c ?a s] unfolding enter_irq [OF gate]
    by (auto simp: map_option_case split: option.splits)
  have "raise_vector L ret (interrupt_call junk) (32 + n) None (c, s) =
      run ret (interrupt_call junk) irq_epilogue (drop_words 4 (clobber junk (in_irq c ?a), s'))"
    using p call irq_code_at [OF assms(2,4,5)]
    by (simp add: raise_vector_def enter_irq [OF gate] irq_code_parts for_each_append Let_def)
  also have "\<dots> = Some (c\<lparr>sreg := (sreg c)(ES := sreg c DS, FS := sreg c DS, GS := sreg c DS)\<rparr>,
        s'\<lparr>interrupts_on := bit (eflags c) 9\<rparr>)"
    by (rule irq_from_call [OF refl m])
  finally show ?thesis using stacked_only [of ?e "irq_words c n ret" "mem s"] regs s' m
    by (intro exI [of _ ?r] exI [of _ ?m] exI [of _ s']) (simp add: irq_words_def del: stacked.simps)
qed

text \<open>A machine whose only handler is the timer's.\<close>

definition ticking :: proc_state where
  "ticking = (proc0 (pci0 (gd0 before_paging)))\<lparr>idt := idt (idt_init linker0 (desc0 (machine0 latch))),
     irq_handlers := (replicate 16 None)[0 := Some Timer_handler],
     mouse_packet := replicate 4 0, packet_index := 0, mouse_x := 0, mouse_y := 0, scroll := 0\<rparr>"

definition stopped_cpu :: cpu where
  "stopped_cpu = \<lparr>gpr = \<lambda>_. 0x208000, sreg = \<lambda>_. 0x10, eip = 0x200400, eflags = 0x202, cr2 = 0\<rparr>"

theorem irq_reaches_handler_witness:
  "\<exists>s'. raise_vector linker0 0 (interrupt_call (\<lambda>_. 0)) 32 None (stopped_cpu, ticking) = Some (stopped_cpu, s') \<and>
    sys_ticks s' = sys_ticks ticking + 1 \<and> interrupts_on s'"
proof -
  have ok: "handlers_ok ticking" by (simp add: handlers_ok_def mouse_ok_def ticking_def)
  have idt: "idt ticking = idt (idt_init linker0 (desc0 (machine0 latch)))" by (simp add: ticking_def)
  have inj: "inj_on (irq_stub linker0) {..<16}"
    unfolding inj_on_def by (auto simp: lessThan_nat_numeral lessThan_Suc)
  have pf: "page_fault_stub linker0 \<notin> irq_stub linker0 ` {..<16}"
    by (auto simp: lessThan_nat_numeral lessThan_Suc)
  have cpu: "stopped_cpu\<lparr>sreg := (sreg stopped_cpu)(ES := sreg stopped_cpu DS, FS := sreg stopped_cpu DS,
      GS := sreg stopped_cpu DS)\<rparr> = stopped_cpu"
    by (simp add: stopped_cpu_def fun_eq_iff)
  from irq_reaches_handler [OF ok _ idt inj pf, of 0 stopped_cpu 0 "\<lambda>_. 0"]
  obtain r m s' where s': "int_no r = 32"
    "irq_handler call_handler r (ticking\<lparr>mem := m, interrupts_on := False\<rparr>) = Some s'"
    "raise_vector linker0 0 (interrupt_call (\<lambda>_. 0)) 32 None (stopped_cpu, ticking) =
      Some (stopped_cpu, s'\<lparr>interrupts_on := bit (eflags stopped_cpu) 9\<rparr>)"
    unfolding cpu by auto
  have "irq_handlers ticking ! 0 = Some Timer_handler" "length (irq_handlers ticking) = 16" by (simp_all add: ticking_def)
  then have "sys_ticks s' = sys_ticks ticking + 1"
    using s'(2) by (auto simp: irq_handler_def s'(1) timer_handler_def hw_io_defs)
  moreover have "bit (eflags stopped_cpu) 9" by (simp add: stopped_cpu_def bit_iff_odd drop_bit_eq_div)
  ultimately show ?thesis using s'(3) by auto
qed

section \<open>Page faults\<close>

definition fault_words :: "cpu \<Rightarrow> u32 \<Rightarrow> u32 \<Rightarrow> u32 list" where
  "fault_words c err ret =
     [eflags c, ucast (sreg c CS), eip c, err,
      gpr c EAX, gpr c ECX, gpr c EDX, gpr c EBX, gpr c ESP - 16, gpr c EBP, gpr c ESI, gpr c EDI,
      ucast (sreg c DS), ucast (sreg c ES), ucast (sreg c FS), ucast (sreg c GS), cr2 c, err, ret]"

lemma enter_fault:
  assumes "idt s ! 14 = idt_make a 8 0x8E"
  shows "enter_gate 14 (Some err) (c, s) =
    (c\<lparr>eflags := unset_bit 9 (eflags c), eip := a, sreg := (sreg c)(CS := 8), gpr := (gpr c)(ESP := gpr c ESP - 16)\<rparr>,
     s\<lparr>mem := stacked (mem s) (gpr c ESP) [eflags c, ucast (sreg c CS), eip c, err], interrupts_on := False\<rparr>)"
  using assms by (simp add: enter_gate_def cpu_simps idt_offset_make bit_unset_bit_iff) (simp add: idt_make_def)

definition fault_prologue :: "instr list" where
  "fault_prologue = [Cli_i, Pusha, PushSeg DS, PushSeg ES, PushSeg FS, PushSeg GS,
     MovWord EAX 0x10, MovSegReg DS EAX, MovSegReg ES EAX, MovSegReg FS EAX, MovSegReg GS EAX,
     MovRegCr2 EAX, Push EAX, PushMem 52]"

definition fault_epilogue :: "instr list" where
  "fault_epilogue = [AddEsp 8, PopSeg GS, PopSeg FS, PopSeg ES, PopSeg DS, Popa, AddEsp 4, Iret]"

lemma page_fault_code_parts: "page_fault_code = fault_prologue @ CallC C_page_fault_handler # fault_epilogue"
  by (simp add: page_fault_code_def fault_prologue_def fault_epilogue_def)

definition in_fault :: "cpu \<Rightarrow> u32 \<Rightarrow> cpu" where
  "in_fault c a = c\<lparr>eflags := unset_bit 9 (eflags c), eip := a,
     sreg := (sreg c)(CS := 8, DS := 0x10, ES := 0x10, FS := 0x10, GS := 0x10),
     gpr := (gpr c)(EAX := cr2 c, ESP := gpr c ESP - 76)\<rparr>"

lemma fault_to_call:
  assumes "e = gpr c ESP"
  shows "map_option (push ret) (run ret call fault_prologue
    (c\<lparr>eflags := unset_bit 9 (eflags c), eip := a, sreg := (sreg c)(CS := 8), gpr := (gpr c)(ESP := e - 16)\<rparr>,
     s\<lparr>mem := stacked (mem s) e [eflags c, ucast (sreg c CS), eip c, err], interrupts_on := False\<rparr>)) =
    Some (in_fault c a, s\<lparr>mem := stacked (mem s) e (fault_words c err ret), interrupts_on := False\<rparr>)"
  unfolding assms
  by (simp add: fault_prologue_def cpu_simps fault_words_def in_fault_def bit_unset_bit_iff unset_twice)

text \<open>The handler may write memory, but not the stack it was called on.\<close>

lemma same_word:
  assumes "\<And>x. x \<in> span (e - n) (unat n) \<Longrightarrow> m' x = m x" "4 \<le> k" "k \<le> n"
  shows "rd32 m' (e - k) = rd32 m (e - k)"
proof (rule rd32_cong, rule assms(1))
  fix x assume "x \<in> span (e - k) 4"
  then have x: "unat (x - (e - k)) < 4" by (simp add: span_iff)
  have sum: "unat (i + j) \<le> unat i + unat j" for i j :: u32
    unfolding unat_word_ariths by (rule mod_less_eq_dividend)
  have "x - (e - n) = (x - (e - k)) + (n - k)" by simp
  then have "unat (x - (e - n)) \<le> unat (x - (e - k)) + unat (n - k)" using sum by metis
  moreover have "unat (n - k) = unat n - unat k" "4 \<le> unat k" "unat k \<le> unat n"
    using assms(2,3) by (simp_all add: unat_sub word_le_nat_alt)
  ultimately have "unat (x - (e - n)) < unat n" using x by linarith
  then show "x \<in> span (e - n) (unat n)" unfolding span_iff .
qed

lemma fault_from_call:
  assumes "e = gpr c ESP" "\<And>x. x \<in> span (e - 76) 76 \<Longrightarrow> mem t x = stacked m e (fault_words c err ret) x"
  shows "run ret call fault_epilogue (drop_words 4 (clobber junk (in_fault c a), t)) =
    Some (c, t\<lparr>interrupts_on := bit (eflags c) 9\<rparr>)"
proof -
  have "rd32 (mem t) (e - k) = rd32 (stacked m e (fault_words c err ret)) (e - k)" if "4 \<le> k" "k \<le> 76" for k
    by (rule same_word [of e 76]) (use assms(2) that in simp_all)
  note rd = this [unfolded assms(1)]
  show ?thesis
    by (simp add: fault_epilogue_def cpu_simps fault_words_def in_fault_def clobber_def selector_word rd)
      (rule cpu.equality; simp add: fun_eq_iff all_regs all_segs)
qed

lemma page_fault_runs:
  fixes s :: "'a proc_state_scheme"
  assumes idt: "idt s = idt (idt_init L t)"
    and s1: "s1 = s\<lparr>mem := stacked (mem s) (gpr c ESP) (fault_words c err ret), interrupts_on := False\<rparr>"
    and keep: "\<And>x. x \<in> span (gpr c ESP - 76) 76 \<Longrightarrow> mem (page_fault_handler err (cr2 c) s1) x = mem s1 x"
  shows "raise_vector L ret (interrupt_call junk) 14 (Some err) (c, s) =
    Some (c, (page_fault_handler err (cr2 c) s1)\<lparr>interrupts_on := bit (eflags c) 9\<rparr>)"
proof -
  let ?a = "page_fault_stub L" and ?s' = "page_fault_handler err (cr2 c) s1"
  have gate: "idt s ! 14 = idt_make ?a 8 0x8E" by (simp add: idt idt_init_entries)
  have call: "interrupt_call junk C_page_fault_handler (in_fault c ?a, s1) = Some (clobber junk (in_fault c ?a), ?s')"
    by (simp add: s1 argument_def in_fault_def fault_words_def offset_arith rd32_wr32_offset)
  obtain p where p: "run ret (interrupt_call junk) fault_prologue (enter_gate 14 (Some err) (c, s)) = Some p"
    "push ret p = (in_fault c ?a, s1)"
    using fault_to_call [OF refl, of ret "interrupt_call junk" c ?a s err] unfolding enter_fault [OF gate] s1
    by (auto simp: map_option_case split: option.splits)
  have "raise_vector L ret (interrupt_call junk) 14 (Some err) (c, s) =
      run ret (interrupt_call junk) fault_epilogue (drop_words 4 (clobber junk (in_fault c ?a), ?s'))"
    using p call by (simp add: raise_vector_def enter_fault [OF gate] code_at_def page_fault_code_parts for_each_append Let_def)
  also have "\<dots> = Some (c, ?s'\<lparr>interrupts_on := bit (eflags c) 9\<rparr>)"
    by (rule fault_from_call [OF refl]) (use keep in \<open>simp add: s1\<close>)
  finally show ?thesis .
qed

end
