(* ===== verification/Layout.thy ===== *)
theory Layout
  imports Ramfs
begin

text \<open>
  The structures the C files declare, and where the compiler puts their members.
  The operations of the model read and write structures in physical memory at
  numeric offsets; here the declarations of \<open>inc/multiboot.h\<close>,
  \<open>inc/fork.h\<close>, \<open>inc/ramfs.h\<close>, \<open>memory/heap.c\<close> and of the
  descriptor tables are written down member by member, and the layout rules of
  the i386 System V ABI compute the offsets from them.  The facts: members keep
  to the structure and never overlap, and the accessors of the other theories
  read the members they are named after.
\<close>

section \<open>C types and their layout\<close>

text \<open>
  An integer or pointer of some bytes, an array, a structure (with a mark for
  \<open>__attribute__((packed))\<close>) and a union, with the names of the members;
  an anonymous member has the empty name.
\<close>

datatype ctype =
  Scalar nat
| Array nat ctype
| Struct bool "(string \<times> ctype) list"
| Union "(string \<times> ctype) list"

abbreviation "uint8_t \<equiv> Scalar 1"
abbreviation "uint16_t \<equiv> Scalar 2"
abbreviation "uint32_t \<equiv> Scalar 4"
abbreviation "uint64_t \<equiv> Scalar 8"
abbreviation "pointer \<equiv> Scalar 4"
abbreviation "enumeration \<equiv> Scalar 4"

text \<open>No member is aligned to more than four bytes: on i386 not even a 64-bit integer.\<close>

fun align_of :: "ctype \<Rightarrow> nat" and align_list :: "(string \<times> ctype) list \<Rightarrow> nat" where
  "align_of (Scalar n) = max 1 (min n 4)"
| "align_of (Array n t) = align_of t"
| "align_of (Struct pk ms) = (if pk then 1 else align_list ms)"
| "align_of (Union ms) = align_list ms"
| "align_list [] = 1"
| "align_list ((_, t) # ms) = max (align_of t) (align_list ms)"

definition round_up :: "nat \<Rightarrow> nat \<Rightarrow> nat" where
  "round_up k a = (k + (a - 1)) div a * a"

definition place :: "bool \<Rightarrow> nat \<Rightarrow> ctype \<Rightarrow> nat" where
  "place pk k t = (if pk then k else round_up k (align_of t))"

fun size_of :: "ctype \<Rightarrow> nat" and struct_end :: "bool \<Rightarrow> nat \<Rightarrow> (string \<times> ctype) list \<Rightarrow> nat"
  and union_end :: "(string \<times> ctype) list \<Rightarrow> nat" where
  "size_of (Scalar n) = n"
| "size_of (Array n t) = n * size_of t"
| "size_of (Struct pk ms) = round_up (struct_end pk 0 ms) (align_of (Struct pk ms))"
| "size_of (Union ms) = round_up (union_end ms) (align_of (Union ms))"
| "struct_end pk k [] = k"
| "struct_end pk k ((_, t) # ms) = struct_end pk (place pk k t + size_of t) ms"
| "union_end [] = 0"
| "union_end ((_, t) # ms) = max (size_of t) (union_end ms)"

text \<open>The members of a structure with their offsets, the first one from \<open>k\<close> on.\<close>

fun members :: "bool \<Rightarrow> nat \<Rightarrow> (string \<times> ctype) list \<Rightarrow> (string \<times> nat \<times> ctype) list" where
  "members pk k [] = []"
| "members pk k ((f, t) # ms) =
     (f, place pk k t, t) # members pk (place pk k t + size_of t) ms"

fun members_of :: "ctype \<Rightarrow> (string \<times> nat \<times> ctype) list" where
  "members_of (Struct pk ms) = members pk 0 ms"
| "members_of (Union ms) = map (\<lambda>(f, t). (f, 0, t)) ms"
| "members_of _ = []"

text \<open>The offset and the type of \<open>x.f.g\<close>, a path of member names.\<close>

fun locate :: "ctype \<Rightarrow> string list \<Rightarrow> (nat \<times> ctype) option" where
  "locate t [] = Some (0, t)"
| "locate t (f # fs) = do {
     (k, u) \<leftarrow> map_of (members_of t) f;
     (l, v) \<leftarrow> locate u fs;
     Some (k + l, v)
   }"

text \<open>The value of a scalar member of the structure at \<open>p\<close>.\<close>

definition read_scalar :: "memory \<Rightarrow> u32 \<Rightarrow> nat \<Rightarrow> u64 option" where
  "read_scalar m a n =
     (if n = 1 then Some (ucast (m a)) else if n = 2 then Some (ucast (rd16 m a))
      else if n = 4 then Some (ucast (rd32 m a)) else if n = 8 then Some (rd64 m a) else None)"

definition member :: "memory \<Rightarrow> ctype \<Rightarrow> u32 \<Rightarrow> string list \<Rightarrow> u64 option" where
  "member m t p fs =
     (case locate t fs of Some (k, Scalar n) \<Rightarrow> read_scalar m (p + of_nat k) n | _ \<Rightarrow> None)"

section \<open>Members keep to their structure\<close>

lemma align_pos: "0 < align_of t" "0 < align_list ms"
  by (induction t and ms rule: align_of_align_list.induct) auto

lemma round_up_ge: "0 < a \<Longrightarrow> k \<le> round_up k a"
  unfolding round_up_def
  using div_mult_mod_eq [of "k + (a - 1)" a] mod_less_divisor [of a "k + (a - 1)"] by linarith

lemma place_ge: "k \<le> place pk k t"
  by (simp add: place_def round_up_ge align_pos)

lemma place_aligned: "align_of t dvd place False k t"
  by (simp add: place_def round_up_def)

lemma struct_end_ge: "k \<le> struct_end pk k ms"
proof (induction ms arbitrary: k)
  case (Cons m ms)
  obtain f t where m: "m = (f, t)" by force
  show ?case using Cons.IH [of "place pk k t + size_of t"] place_ge [of k pk t] by (simp add: m)
qed simp

lemma members_bounds:
  assumes "(f, l, t) \<in> set (members pk k ms)"
  shows "k \<le> l" "l + size_of t \<le> struct_end pk k ms"
proof -
  have "k \<le> l \<and> l + size_of t \<le> struct_end pk k ms"
    using assms
  proof (induction ms arbitrary: k)
    case (Cons m ms)
    obtain g u where m: "m = (g, u)" by force
    show ?case
    proof (cases "(f, l, t) = (g, place pk k u, u)")
      case True
      then show ?thesis using place_ge [of k pk u] struct_end_ge [of "place pk k u + size_of u" pk ms]
        by (simp add: m)
    next
      case False
      then have "(f, l, t) \<in> set (members pk (place pk k u + size_of u) ms)" using Cons.prems by (auto simp: m)
      from Cons.IH [OF this] show ?thesis using place_ge [of k pk u] by (simp add: m)
    qed
  qed simp
  then show "k \<le> l" "l + size_of t \<le> struct_end pk k ms" by simp_all
qed

lemma members_aligned: "(f, l, t) \<in> set (members False k ms) \<Longrightarrow> align_of t dvd l"
  by (induction ms arbitrary: k) (auto simp: place_aligned)

lemma members_ordered:
  "sorted_wrt (\<lambda>(f, l, t) (g, l', t'). l + size_of t \<le> l') (members pk k ms)"
  by (induction ms arbitrary: k) (auto dest: members_bounds)

text \<open>
  The bytes of the members of a structure that ends below the top of memory: each
  member's bytes are bytes of the structure, and two members share none.
\<close>

lemma member_inside:
  assumes "(f, l, t) \<in> set (members_of (Struct pk ms))" "unat p + size_of (Struct pk ms) \<le> 2 ^ 32"
  shows "span (p + of_nat l) (size_of t) \<subseteq> span p (size_of (Struct pk ms))"
proof -
  have "l + size_of t \<le> struct_end pk 0 ms" using members_bounds [of f l t pk 0 ms] assms(1) by simp
  then have "l + size_of t \<le> size_of (Struct pk ms)"
    using round_up_ge [OF align_pos(1) [of "Struct pk ms"], of "struct_end pk 0 ms"] by simp
  then show ?thesis using span_mono [of "l + size_of t" "size_of (Struct pk ms)" p] span_add [of p l "size_of t"]
    by auto
qed

lemma members_apart:
  assumes "i < j" "j < length (members_of (Struct pk ms))"
    "members_of (Struct pk ms) ! i = (f, l, t)" "members_of (Struct pk ms) ! j = (g, l', u)"
    "unat p + size_of (Struct pk ms) \<le> 2 ^ 32"
  shows "span (p + of_nat l) (size_of t) \<inter> span (p + of_nat l') (size_of u) = {}"
proof -
  have o: "l + size_of t \<le> l'"
    using sorted_wrt_nth_less [OF members_ordered [of pk 0 ms] assms(1)] assms(2-4) by simp
  have "(g, l', u) \<in> set (members_of (Struct pk ms))" using assms(2,4) nth_mem by metis
  then have "l' + size_of u \<le> struct_end pk 0 ms" using members_bounds [of g l' u pk 0 ms] by simp
  then have "l' + size_of u \<le> size_of (Struct pk ms)"
    using round_up_ge [OF align_pos(1) [of "Struct pk ms"], of "struct_end pk 0 ms"] by simp
  then have e: "unat p + l' + size_of u \<le> 2 ^ 32" using assms(5) by linarith
  have off: "unat (p + of_nat k) = unat p + k" if "unat p + k < 2 ^ 32" for k
    using that by (simp add: unat_word_ariths unat_of_nat)
  show ?thesis
  proof (cases "size_of t = 0 \<or> size_of u = 0")
    case False
    then show ?thesis using o e by (intro span_disjoint) (simp_all add: off)
  qed auto
qed

section \<open>The declarations\<close>

definition multiboot_header :: ctype where
  "multiboot_header = Struct False
     [(''magic'', uint32_t), (''flags'', uint32_t), (''checksum'', uint32_t),
      (''header_addr'', uint32_t), (''load_addr'', uint32_t), (''load_end_addr'', uint32_t),
      (''bss_end_addr'', uint32_t), (''entry_addr'', uint32_t),
      (''mode_type'', uint32_t), (''width'', uint32_t), (''height'', uint32_t), (''depth'', uint32_t)]"

definition multiboot_aout_symbol_table :: ctype where
  "multiboot_aout_symbol_table = Struct False
     [(''tabsize'', uint32_t), (''strsize'', uint32_t), (''addr'', uint32_t), (''reserved'', uint32_t)]"

definition multiboot_elf_section_header_table :: ctype where
  "multiboot_elf_section_header_table = Struct False
     [(''num'', uint32_t), (''size'', uint32_t), (''addr'', uint32_t), (''shndx'', uint32_t)]"

definition multiboot_info :: ctype where
  "multiboot_info = Struct False
     [(''flags'', uint32_t),
      (''mem_lower'', uint32_t), (''mem_upper'', uint32_t),
      (''boot_device'', uint32_t),
      (''cmdline'', uint32_t),
      (''mods_count'', uint32_t), (''mods_addr'', uint32_t),
      (''u'', Union [(''aout_sym'', multiboot_aout_symbol_table),
                     (''elf_sec'', multiboot_elf_section_header_table)]),
      (''mmap_length'', uint32_t), (''mmap_addr'', uint32_t),
      (''drives_length'', uint32_t), (''drives_addr'', uint32_t),
      (''config_table'', uint32_t),
      (''boot_loader_name'', uint32_t),
      (''apm_table'', uint32_t),
      (''vbe_control_info'', uint32_t), (''vbe_mode_info'', uint32_t),
      (''vbe_mode'', uint16_t), (''vbe_interface_seg'', uint16_t),
      (''vbe_interface_off'', uint16_t), (''vbe_interface_len'', uint16_t),
      (''framebuffer_addr'', uint64_t), (''framebuffer_pitch'', uint32_t),
      (''framebuffer_width'', uint32_t), (''framebuffer_height'', uint32_t),
      (''framebuffer_bpp'', uint8_t), (''framebuffer_type'', uint8_t),
      ('''', Union
         [('''', Struct False [(''framebuffer_palette_addr'', uint32_t),
                               (''framebuffer_palette_num_colors'', uint16_t)]),
          ('''', Struct False
             [(''framebuffer_red_field_position'', uint8_t), (''framebuffer_red_mask_size'', uint8_t),
              (''framebuffer_green_field_position'', uint8_t), (''framebuffer_green_mask_size'', uint8_t),
              (''framebuffer_blue_field_position'', uint8_t), (''framebuffer_blue_mask_size'', uint8_t)])])]"

definition multiboot_color :: ctype where
  "multiboot_color = Struct False [(''red'', uint8_t), (''green'', uint8_t), (''blue'', uint8_t)]"

definition multiboot_mmap_entry :: ctype where
  "multiboot_mmap_entry = Struct True
     [(''size'', uint32_t), (''addr'', uint64_t), (''len'', uint64_t), (''type'', uint32_t)]"

definition multiboot_mod_list :: ctype where
  "multiboot_mod_list = Struct False
     [(''mod_start'', uint32_t), (''mod_end'', uint32_t), (''cmdline'', uint32_t), (''pad'', uint32_t)]"

definition multiboot_apm_info :: ctype where
  "multiboot_apm_info = Struct False
     [(''version'', uint16_t), (''cseg'', uint16_t), (''offset'', uint32_t), (''cseg_16'', uint16_t),
      (''dseg'', uint16_t), (''flags'', uint16_t), (''cseg_len'', uint16_t),
      (''cseg_16_len'', uint16_t), (''dseg_len'', uint16_t)]"

definition struct_HeapBlock :: ctype where
  "struct_HeapBlock = Struct False [(''size'', uint32_t), (''flags'', uint8_t), (''next'', pointer)]"

definition struct_process :: ctype where
  "struct_process = Struct False
     [(''pid'', uint32_t), (''eip'', uint32_t), (''esp'', uint32_t), (''ebp'', uint32_t),
      (''page_dir'', pointer), (''page_dir_phys'', uint32_t), (''status'', enumeration),
      (''eflags'', uint32_t), (''next'', pointer)]"

definition struct_ramfs_file :: ctype where
  "struct_ramfs_file = Struct False [(''name'', Array 64 (Scalar 1)), (''data'', pointer), (''size'', uint32_t)]"

definition struct_gdt_entry :: ctype where
  "struct_gdt_entry = Struct True
     [(''limit_low'', uint16_t), (''base_low'', uint16_t), (''base_middle'', uint8_t),
      (''access'', uint8_t), (''granularity'', uint8_t), (''base_high'', uint8_t)]"

definition struct_idt_entry :: ctype where
  "struct_idt_entry = Struct True
     [(''base_low'', uint16_t), (''selector'', uint16_t), (''always0'', uint8_t), (''flags'', uint8_t),
      (''base_high'', uint16_t)]"

definition struct_idt_ptr :: ctype where
  "struct_idt_ptr = Struct True [(''limit'', uint16_t), (''base'', uint32_t)]"

definition struct_tss_entry :: ctype where
  "struct_tss_entry = Struct True
     (map (\<lambda>f. (f, uint32_t))
        [''prev_tss'', ''esp0'', ''ss0'', ''esp1'', ''ss1'', ''esp2'', ''ss2'', ''cr3'', ''eip'',
         ''eflags'', ''eax'', ''ecx'', ''edx'', ''ebx'', ''esp'', ''ebp'', ''esi'', ''edi'', ''es'',
         ''cs'', ''ss'', ''ds'', ''fs'', ''gs'', ''ldt''] @
      [(''trap'', uint16_t), (''iomap_base'', uint16_t)])"

lemmas declarations = multiboot_header_def multiboot_aout_symbol_table_def
  multiboot_elf_section_header_table_def multiboot_info_def multiboot_color_def multiboot_mmap_entry_def
  multiboot_mod_list_def multiboot_apm_info_def struct_HeapBlock_def struct_process_def
  struct_ramfs_file_def struct_gdt_entry_def struct_idt_entry_def struct_idt_ptr_def
  struct_tss_entry_def

section \<open>The offsets of the model\<close>

lemma sizes:
  "size_of multiboot_header = 48" "size_of multiboot_info = 120" "size_of multiboot_color = 3"
  "size_of multiboot_mmap_entry = 24" "size_of multiboot_mod_list = 16" "size_of multiboot_apm_info = 20"
  "size_of struct_HeapBlock = 12" "size_of struct_process = 36" "size_of struct_ramfs_file = 72"
  "size_of struct_gdt_entry = 8" "size_of struct_idt_entry = 8" "size_of struct_tss_entry = 104"
  "size_of struct_idt_ptr = 6"
  by code_simp+

lemma offsets_multiboot:
  "locate multiboot_info [''flags''] = Some (0, Scalar 4)"
  "locate multiboot_info [''mmap_length''] = Some (44, Scalar 4)"
  "locate multiboot_info [''mmap_addr''] = Some (48, Scalar 4)"
  "locate multiboot_info [''framebuffer_addr''] = Some (88, Scalar 8)"
  "locate multiboot_info [''framebuffer_pitch''] = Some (96, Scalar 4)"
  "locate multiboot_info [''framebuffer_width''] = Some (100, Scalar 4)"
  "locate multiboot_info [''framebuffer_height''] = Some (104, Scalar 4)"
  "locate multiboot_info [''framebuffer_bpp''] = Some (108, Scalar 1)"
  "locate multiboot_info [''framebuffer_type''] = Some (109, Scalar 1)"
  "locate multiboot_mmap_entry [''size''] = Some (0, Scalar 4)"
  "locate multiboot_mmap_entry [''addr''] = Some (4, Scalar 8)"
  "locate multiboot_mmap_entry [''len''] = Some (12, Scalar 8)"
  "locate multiboot_mmap_entry [''type''] = Some (20, Scalar 4)"
  by code_simp+

lemma offsets_heap_block:
  "locate struct_HeapBlock [''size''] = Some (0, Scalar 4)"
  "locate struct_HeapBlock [''flags''] = Some (4, Scalar 1)"
  "locate struct_HeapBlock [''next''] = Some (8, Scalar 4)"
  by code_simp+

lemma offsets_process:
  "locate struct_process [''pid''] = Some (0, Scalar 4)" "locate struct_process [''eip''] = Some (4, Scalar 4)"
  "locate struct_process [''esp''] = Some (8, Scalar 4)" "locate struct_process [''ebp''] = Some (12, Scalar 4)"
  "locate struct_process [''page_dir''] = Some (16, Scalar 4)"
  "locate struct_process [''page_dir_phys''] = Some (20, Scalar 4)"
  "locate struct_process [''status''] = Some (24, Scalar 4)"
  "locate struct_process [''eflags''] = Some (28, Scalar 4)"
  "locate struct_process [''next''] = Some (32, Scalar 4)"
  by code_simp+

lemma offsets_ramfs_file:
  "locate struct_ramfs_file [''name''] = Some (0, Array 64 (Scalar 1))"
  "locate struct_ramfs_file [''data''] = Some (64, Scalar 4)"
  "locate struct_ramfs_file [''size''] = Some (68, Scalar 4)"
  by code_simp+

lemma member_word: "locate t fs = Some (k, Scalar 4) \<Longrightarrow> member m t p fs = Some (ucast (rd32 m (p + of_nat k)))"
  by (simp add: member_def read_scalar_def)

lemma member_byte: "locate t fs = Some (k, Scalar 1) \<Longrightarrow> member m t p fs = Some (ucast (m (p + of_nat k)))"
  by (simp add: member_def read_scalar_def)

lemma member_quad: "locate t fs = Some (k, Scalar 8) \<Longrightarrow> member m t p fs = Some (rd64 m (p + of_nat k))"
  by (simp add: member_def read_scalar_def)

lemmas member_multiboot = offsets_multiboot(1,2,3,5,6,7,10,13) [THEN member_word]
  offsets_multiboot(8,9) [THEN member_byte] offsets_multiboot(4,11,12) [THEN member_quad]

lemmas member_heap_block = offsets_heap_block(1,3) [THEN member_word] offsets_heap_block(2) [THEN member_byte]

lemmas member_process = offsets_process [THEN member_word]

lemmas member_ramfs_file = offsets_ramfs_file(2,3) [THEN member_word]

lemma idt_limit: "dp_limit (idtp (idt_init L d)) = 0x7FF"
  by (simp add: idt_init_def idt_load_def idt_set_gate_def Let_def)

lemma word_sizes: "unat (12 :: u32) = 12" "unat (36 :: u32) = 36" "unat sizeof_tss = 104" "unat (0x7FF :: u16) = 2047"
  by (simp_all add: sizeof_tss_def)

text \<open>An entry of the memory map, in the words of \<open>get_memmap\<close>.\<close>

lemma ucast_is_one: "(ucast (x :: u32) :: u64) = 1 \<longleftrightarrow> x = 1"
proof -
  have "unat (ucast x :: u64) = unat x" using unat_bound32 [of x] by (simp add: unsigned_ucast_eq take_bit_nat_eq_self)
  then show ?thesis by (metis unsigned_1 unsigned_word_eqI)
qed

lemma clip_end: "min (a :: u64) b = (if a > b then b else a)"
  by (auto simp: min_def)

lemma memmap_add_members:
  "memmap_add e s =
     (if member (mem s) multiboot_mmap_entry e [''type''] = Some 1 \<and> memBlockCount s < 256 then
        let base = the (member (mem s) multiboot_mmap_entry e [''addr'']);
            en = base + the (member (mem s) multiboot_mmap_entry e [''len''])
        in if base < 0x100000000 then
             s\<lparr>memMap := (memMap s)[unat (memBlockCount s) :=
                 \<lparr>Begin = ucast base, End = ucast (min en 0x100000000), mb_Type = 1, ACPI = 0\<rparr>],
               memBlockCount := memBlockCount s + 1\<rparr>
           else s
      else s)"
  by (simp only: memmap_add_def member_multiboot ucast_is_one clip_end option.inject option.sel Let_def
      of_nat_numeral)


end
