(* ===== verification/Entry.thy ===== *)
theory Entry
  imports Init Stubs Layout
begin

text \<open>
  The way into the kernel, \<open>asm/entry.s\<close>: the multiboot header that the boot loader
  looks for, and \<open>_start\<close>, which sets up the stack and calls \<open>kmain\<close> with what
  the boot loader left in two registers.
\<close>

section \<open>The multiboot header\<close>

definition boot_header :: "u32 list" where
  "boot_header = (let
     ALIGN = push_bit 0 1; MEMINFO = push_bit 1 1; VIDEO = push_bit 2 1;
     FLAGS = ALIGN OR MEMINFO OR VIDEO; MAGIC = 0x1BADB002; CHECKSUM = - (MAGIC + FLAGS)
   in [MAGIC, FLAGS, CHECKSUM, 0, 0, 0, 0, 0, 0, 1024, 768, 32])"

text \<open>Words laid out from \<open>p\<close> on.\<close>

fun words_at :: "memory \<Rightarrow> u32 \<Rightarrow> u32 list \<Rightarrow> bool" where
  "words_at m p [] \<longleftrightarrow> True"
| "words_at m p (w # ws) \<longleftrightarrow> rd32 m p = w \<and> words_at m (p + 4) ws"

lemma offsets_header:
  "locate multiboot_header [''magic''] = Some (0, Scalar 4)" "locate multiboot_header [''flags''] = Some (4, Scalar 4)"
  "locate multiboot_header [''checksum''] = Some (8, Scalar 4)" "locate multiboot_header [''mode_type''] = Some (32, Scalar 4)"
  "locate multiboot_header [''width''] = Some (36, Scalar 4)" "locate multiboot_header [''height''] = Some (40, Scalar 4)"
  "locate multiboot_header [''depth''] = Some (44, Scalar 4)"
  by code_simp+

text \<open>
  A boot loader accepts the header: the magic number is right, the three words add up
  to 0, and the video fields it asks for (bit 2 of the flags) stand where
  \<open>struct multiboot_header\<close> has them.
\<close>

lemma boot_header_valid:
  assumes "words_at m p boot_header"
  shows "member m multiboot_header p [''magic''] = Some 0x1BADB002" "member m multiboot_header p [''flags''] = Some 7"
    "rd32 m p + rd32 m (p + 4) + rd32 m (p + 8) = 0"
    "member m multiboot_header p [''mode_type''] = Some 0" "member m multiboot_header p [''width''] = Some 1024"
    "member m multiboot_header p [''height''] = Some 768" "member m multiboot_header p [''depth''] = Some 32"
  using assms by (simp_all add: boot_header_def Let_def offsets_header [THEN member_word] add.assoc)

section \<open>\<open>_start\<close>\<close>

definition start_code :: "u32 \<Rightarrow> instr list" where
  "start_code stack_top = [MovImm ESP stack_top, Push EAX, Push EBX]"

text \<open>
  The call of \<open>kmain\<close>, whose arguments are the two words pushed.  When it returns,
  \<open>_start\<close> turns interrupts off and halts; it would halt again after a wake-up.
\<close>

definition start ::
  "linker \<Rightarrow> nat \<Rightarrow> u32 \<Rightarrow> u32 \<Rightarrow> cpu \<times> 'a ramfs_state_scheme \<Rightarrow> (bool \<times> 'a ramfs_state_scheme) option" where
  "start L depth ret stack_top m = do {
     m \<leftarrow> run ret (\<lambda>f m. None) (start_code stack_top) m;
     let m = push ret m;
     (running, s) \<leftarrow> kmain_start L depth (argument 0 m) (argument 1 m) (snd m);
     Some (if running then (True, s) else (False, Halt (x86Cli s)))
   }"

lemma start_calls_kmain:
  "start L depth ret stack_top (c, s) = map_option (\<lambda>(running, s). if running then (True, s) else (False, Halt (x86Cli s)))
     (kmain_start L depth (gpr c EBX) (gpr c EAX) (s\<lparr>mem := stacked (mem s) stack_top [gpr c EAX, gpr c EBX, ret]\<rparr>))"
  by (simp add: start_def start_code_def cpu_simps argument_def map_option_case split: option.splits bind_splits)

lemma boot_ok_write:
  fixes s :: "'a ramfs_state_scheme"
  assumes ok: "boot_ok L mbd es s" and o: "only_changes A (mem s) m"
    and A: "span mbd 52 \<inter> A = {}" "span (mb_mmap_addr (mem s) mbd) (mmap_bytes es) \<inter> A = {}"
  shows "boot_ok L mbd es (s\<lparr>mem := m\<rparr>)"
proof -
  have B: "mmap_at (mem s) (mb_mmap_addr (mem s) mbd) es" "mmap_bytes es = unat (mb_mmap_length (mem s) mbd)"
    "\<forall>e \<in> set es. 20 \<le> unat (e_size e)"
    using ok unfolding boot_ok_def by blast+
  note mb = mb_only [OF o A(1)]
  have "mmap_bytes es < 2 ^ 32" unfolding B(2) using unat_bound32 by simp
  from mmap_at_only [OF B(1) o A(2) B(3) this] have "mmap_at m (mb_mmap_addr m mbd) es" by (simp add: mb)
  moreover have "machine_ok (s\<lparr>mem := m\<rparr>) = machine_ok s" "con_ok (s\<lparr>mem := m\<rparr>) = con_ok s"
    "memmap_ok (s\<lparr>mem := m\<rparr>) = memmap_ok s" "blocks (s\<lparr>mem := m\<rparr>) = blocks s"
    by (simp_all add: machine_ok_def con_ok_def memmap_ok_def blocks_def ps2_idle_def config_space_def)
  ultimately have "boot_ok L mbd es (s\<lparr>mem := m\<rparr>) = boot_ok L mbd es s"
    using B(1) unfolding boot_ok_def by (simp add: mb)
  then show ?thesis using ok by simp
qed

section \<open>Property\<close>



end
