(* ===== verification/CopySpace.thy ===== *)
theory CopySpace
  imports Frames
begin

text \<open>
  The copy of an address space, \<open>copy_addr_space\<close> of \<open>memory/paging.c\<close>:
  what one page, one table, one directory entry and the whole user half become.  Each
  level is a \<open>frame_use\<close> step, so the frames taken for the copy are fresh and
  nothing of the source changes.
\<close>

section \<open>One page\<close>

abbreviation pte_present :: "u32 \<Rightarrow> bool" where
  "pte_present w \<equiv> bit w 0"

abbreviation user_entry :: "nat \<Rightarrow> u32" where
  "user_entry g \<equiv> page_addr g OR PAGE_PRESENT OR PAGE_RW OR PAGE_USER"

definition same_page :: "memory \<Rightarrow> nat \<Rightarrow> memory \<Rightarrow> nat \<Rightarrow> bool" where
  "same_page m a m' b \<longleftrightarrow> (\<forall>i < 4096. m' (page_addr b + of_nat i) = m (page_addr a + of_nat i))"

lemma in_page: "i < 4096 \<Longrightarrow> page_addr c + of_nat i \<in> page_span c"
  unfolding page_span_def by (intro in_span_offset) simp_all

lemma same_page_keep:
  assumes "same_page m a m1 b" "\<And>x. x \<in> page_span b \<Longrightarrow> m2 x = m1 x"
  shows "same_page m a m2 b"
  using assms in_page unfolding same_page_def by metis

lemma same_page_source:
  assumes "same_page m1 a m2 b" "\<And>x. x \<in> page_span a \<Longrightarrow> m1 x = m x"
  shows "same_page m a m2 b"
  using assms in_page unfolding same_page_def by metis

text \<open>The entry \<open>j\<close> of table \<open>U\<close> now maps a fresh copy of the page that \<open>w\<close> maps.\<close>

definition entry_copied :: "'a pmm_state_scheme \<Rightarrow> 'a pmm_state_scheme \<Rightarrow> u32 \<Rightarrow> u32 \<Rightarrow> bool" where
  "entry_copied s s' w w' \<longleftrightarrow> (\<exists>g \<in> free_pages s - free_pages s'.
     w' = user_entry g \<and> same_page (mem s) (frame_of w) (mem s') g)"

lemma entry_copied_later:
  assumes "entry_copied s t w w'" "frame_use D s t" "frame_use E t u" "pmm_inv s" "E \<subseteq> {..<2 ^ 20}"
    and "E \<inter> free_pages s = {}"
  shows "entry_copied s u w w'"
proof -
  obtain g where g: "g \<in> free_pages s" "g \<notin> free_pages t" "w' = user_entry g" "same_page (mem s) (frame_of w) (mem t) g"
    using assms(1) by (auto simp: entry_copied_def)
  have "held t g" by (rule frame_use_held(2) [OF assms(2,4)]) (use g in simp)
  then have "\<And>x. x \<in> page_span g \<Longrightarrow> mem u x = mem t x"
    using g(1) assms(6) by (intro frame_use_keeps(1) [OF assms(3) _ _ assms(5) frame_useD(2) [OF assms(2)]]) auto
  then have "same_page (mem s) (frame_of w) (mem u) g" by (rule same_page_keep [OF g(4)])
  then show ?thesis using g frame_useD(3) [OF assms(3)] unfolding entry_copied_def by blast
qed

lemma entry_copied_earlier:
  assumes "entry_copied t u w w'" "frame_use D s t" "held s (frame_of w)" "frame_of w \<notin> D" "D \<subseteq> {..<2 ^ 20}" "pmm_inv s"
    and "free_pages u \<subseteq> free_pages t"
  shows "entry_copied s u w w'"
proof -
  have "\<And>x. x \<in> page_span (frame_of w) \<Longrightarrow> mem t x = mem s x"
    by (rule frame_use_keeps(1) [OF assms(2-6)])
  then show ?thesis
    using assms(1) same_page_source frame_useD(3) [OF assms(2)] unfolding entry_copied_def by blast
qed

lemma copy_pte_result:
  assumes "pmm_inv s" "held s T" "held s U" "j < 1024"
    and "pte_present w \<Longrightarrow> free_pages s \<noteq> {} \<and> held s (frame_of w)"
    and w: "w = entry (mem s) (page_addr T) j"
  obtains s' where "copy_pte (page_addr T) (page_addr U) j s = s'" "frame_use {U} s s'"
    "card (free_pages s) = card (free_pages s') + (if pte_present w then 1 else 0)"
    "if pte_present w \<and> frame_of w \<noteq> U then entry_copied s s' w (entry (mem s') (page_addr U) j)
     else pte_present w \<or> s' = s"
    "\<And>k. k < 1024 \<Longrightarrow> k \<noteq> j \<Longrightarrow> entry (mem s') (page_addr U) k = entry (mem s) (page_addr U) k"
proof (cases "pte_present w")
  case False
  then have "copy_pte (page_addr T) (page_addr U) j s = s"
    using present_bit [of w] by (simp add: copy_pte_def w del: of_nat_mult)
  then show thesis using that [of s] False assms(1) by auto
next
  case True
  let ?g = "Min (free_pages s)" and ?r = "frame_of w"
  have ne: "free_pages s \<noteq> {}" and hr: "held s ?r" using assms(5) True by auto
  obtain t where t: "pmm_alloc_page s = (page_addr ?g, t)" "frame_use {} s t"
    "free_pages t = free_pages s - {?g}" "?g \<in> free_pages s" "held t ?g" "card (free_pages s) = Suc (card (free_pages t))"
    by (rule frame_use_alloc [OF assms(1) ne])
  have b: "?r < 2 ^ 20" "?g < 2 ^ 20" "?r \<noteq> ?g" "U < 2 ^ 20" "U \<noteq> ?g" "T \<noteq> ?g"
    using hr t(4,5) assms(2,3) by (auto simp: held_def)
  let ?m1 = "copy_page (page_addr ?r) (page_addr ?g) (mem t)"
  let ?t1 = "t\<lparr>mem := ?m1\<rparr>"
  let ?m2 = "set_entry (page_addr U) j (user_entry ?g) ?m1"
  let ?u = "?t1\<lparr>mem := ?m2\<rparr>"
  have run: "copy_pte (page_addr T) (page_addr U) j s = ?u"
    using True present_bit [of w] t(1) by (simp add: copy_pte_def w frame_of_mask Let_def del: of_nat_mult)
  have inv: "pmm_inv t" using frame_useD(2) [OF t(2)] .
  note cp = copy_page_bytes [OF b(1,2,3), of "mem t"]
  have u1: "frame_use {?g} t ?t1" and f1: "free_pages ?t1 = free_pages t"
    by (rule frame_use_write [OF inv t(5) cp(2)])+
  have inv1: "pmm_inv ?t1" using frame_useD(2) [OF u1] .
  have hU: "held ?t1 U" by (intro frame_use_held(1) [OF u1] frame_use_held(1) [OF t(2)] assms(3))
  have o2: "only_changes (page_span U) (mem ?t1) ?m2" using set_entry_only [OF b(4) assms(4)] by simp
  have u2: "frame_use {U} ?t1 ?u" and f2: "free_pages ?u = free_pages ?t1"
    by (rule frame_use_write [OF inv1 hU o2])+
  have s1: "frame_use {} s ?t1" by (rule frame_use_trans [OF t(2) u1]) (use t(3,4) in auto)
  have use: "frame_use {U} s ?u" by (rule frame_use_trans [OF frame_use_mono [OF s1] u2]) auto
  have "same_page (mem t) ?r ?m1 ?g" using cp(1) by (simp add: same_page_def)
  then have "same_page (mem s) ?r ?m1 ?g"
    by (rule same_page_source) (rule frame_use_keeps(1) [OF t(2) hr _ _ assms(1)]; simp)
  moreover have "\<And>x. x \<in> page_span ?g \<Longrightarrow> ?m2 x = ?m1 x"
    using page_span_disjoint [OF b(2,4)] b(5) by (intro only_changesD [OF set_entry_only [OF b(4) assms(4)]]) blast
  ultimately have "same_page (mem s) ?r ?m2 ?g" by (rule same_page_keep)
  then have copied: "entry_copied s ?u w (entry (mem ?u) (page_addr U) j)"
    using t(3,4) f1 f2 by (auto simp: entry_copied_def simp del: of_nat_mult)
  have keep: "entry (mem ?u) (page_addr U) k = entry (mem s) (page_addr U) k" if "k < 1024" "k \<noteq> j" for k
  proof -
    have "entry ?m2 (page_addr U) k = entry ?m1 (page_addr U) k"
      using that by (intro entry_set_other [OF b(4,4) assms(4)]) auto
    also have "\<dots> = entry (mem s) (page_addr U) k"
      using frame_use_keeps(2) [OF s1 assms(3) _ _ assms(1) that(1)] by simp
    finally show ?thesis by simp
  qed
  show thesis using that [OF run use] copied keep t(6) f1 f2 True by simp
qed

section \<open>One table\<close>

lemma card_upto_Suc:
  "card {j. j < Suc n \<and> P j} = card {j. j < n \<and> P j} + (if P n then 1 else (0 :: nat))"
proof -
  have "{j. j < Suc n \<and> P j} = (if P n then insert n {j. j < n \<and> P j} else {j. j < n \<and> P j})"
    by (auto simp: less_Suc_eq)
  then show ?thesis by simp
qed

definition table_copied :: "nat \<Rightarrow> 'a pmm_state_scheme \<Rightarrow> 'a pmm_state_scheme \<Rightarrow> (nat \<Rightarrow> u32) \<Rightarrow> (nat \<Rightarrow> u32) \<Rightarrow> (nat \<Rightarrow> u32) \<Rightarrow> bool" where
  "table_copied n s s' src old new \<longleftrightarrow> (\<forall>j < 1024. if j < n \<and> pte_present (src j)
     then entry_copied s s' (src j) (new j) else new j = old j)"

lemma copy_table_result:
  assumes inv: "pmm_inv s" and T: "held s T" and U: "held s U" "T \<noteq> U"
    and src: "\<And>j. src j = entry (mem s) (page_addr T) j"
    and pages: "\<And>j. j < 1024 \<Longrightarrow> pte_present (src j) \<Longrightarrow> held s (frame_of (src j)) \<and> frame_of (src j) \<noteq> U"
    and room: "card {j. j < n \<and> pte_present (src j)} \<le> card (free_pages s)" and n: "n \<le> 1024"
  shows "\<exists>s'. fold (copy_pte (page_addr T) (page_addr U)) [0..<n] s = s' \<and> frame_use {U} s s' \<and>
    card (free_pages s) = card (free_pages s') + card {j. j < n \<and> pte_present (src j)} \<and>
    table_copied n s s' src (entry (mem s) (page_addr U)) (entry (mem s') (page_addr U))"
  using room n
proof (induction n)
  case 0
  have "frame_use {U} s s" by (rule frame_use_refl [OF inv])
  then show ?case by (simp add: table_copied_def del: of_nat_mult)
next
  case (Suc n)
  let ?U = "{U} :: nat set"
  have le: "card {j. j < n \<and> pte_present (src j)} \<le> card (free_pages s)"
    using Suc.prems by (simp add: card_upto_Suc split: if_splits)
  obtain t where t: "fold (copy_pte (page_addr T) (page_addr U)) [0..<n] s = t" "frame_use {U} s t"
    "card (free_pages s) = card (free_pages t) + card {j. j < n \<and> pte_present (src j)}"
    "table_copied n s t src (entry (mem s) (page_addr U)) (entry (mem t) (page_addr U))"
    using Suc.IH [OF le] Suc.prems(2) by auto
  have U20: "{U} \<subseteq> {..<2 ^ 20}" using U(1) by (simp add: held_def)
  have nn: "n < 1024" using Suc.prems(2) by simp
  have same: "src n = entry (mem t) (page_addr T) n"
    using frame_use_keeps(2) [OF t(2) T _ U20 inv nn] U(2) src by simp
  have ready: "free_pages t \<noteq> {} \<and> held t (frame_of (src n))" if "pte_present (src n)"
    using that Suc.prems(1) t(3) pages [OF nn that] frame_use_held(1) [OF t(2)] by (auto simp: card_upto_Suc)
  obtain u where u: "copy_pte (page_addr T) (page_addr U) n t = u" "frame_use {U} t u"
    "card (free_pages t) = card (free_pages u) + (if pte_present (src n) then 1 else 0)"
    "if pte_present (src n) \<and> frame_of (src n) \<noteq> U then entry_copied t u (src n) (entry (mem u) (page_addr U) n)
     else pte_present (src n) \<or> u = t"
    "\<And>k. k < 1024 \<Longrightarrow> k \<noteq> n \<Longrightarrow> entry (mem u) (page_addr U) k = entry (mem t) (page_addr U) k"
    by (rule copy_pte_result [OF frame_useD(2) [OF t(2)] frame_use_held(1) [OF t(2) T] frame_use_held(1) [OF t(2) U(1)] nn ready same],
        assumption, rule that, assumption+)
  have use: "frame_use {U} s u" by (rule frame_use_trans [OF t(2) u(2)]) blast
  have "table_copied (Suc n) s u src (entry (mem s) (page_addr U)) (entry (mem u) (page_addr U))"
    unfolding table_copied_def
  proof (intro allI impI)
    fix j assume j: "j < (1024 :: nat)"
    show "if j < Suc n \<and> pte_present (src j) then entry_copied s u (src j) (entry (mem u) (page_addr U) j)
      else entry (mem u) (page_addr U) j = entry (mem s) (page_addr U) j"
    proof (cases "j = n")
      case True
      then show ?thesis
        using u(4) t(4) nn pages [OF nn] U20
          entry_copied_earlier [OF _ t(2) _ _ U20 inv frame_useD(3) [OF u(2)], of "src n" "entry (mem u) (page_addr U) n"]
        by (auto simp: table_copied_def split: if_splits)
    next
      case False
      have "U \<notin> free_pages s" using U(1) by (simp add: held_def)
      then have "entry_copied s t w w' \<Longrightarrow> entry_copied s u w w'" for w w'
        using entry_copied_later [OF _ t(2) u(2) inv U20] by blast
      moreover have "j < Suc n \<longleftrightarrow> j < n" using False by auto
      ultimately show ?thesis using t(4) j u(5) [OF j False] by (auto simp: table_copied_def)
    qed
  qed
  then show ?case using use u(1,3) t(1,3) by (auto simp: card_upto_Suc)
qed

section \<open>One directory entry\<close>

lemma memset_page:
  assumes "d < 2 ^ 20"
  shows "only_changes (page_span d) m (memset m (page_addr d) 0 PAGE_SIZE)"
    and "i < 1024 \<Longrightarrow> entry (memset m (page_addr d) 0 PAGE_SIZE) (page_addr d) i = 0"
    and "x \<in> page_span d \<Longrightarrow> memset m (page_addr d) 0 PAGE_SIZE x = 0"
proof -
  have s: "span (page_addr d) (unat PAGE_SIZE) = page_span d" by (simp add: page_span_def)
  show "only_changes (page_span d) m (memset m (page_addr d) 0 PAGE_SIZE)"
    using memset_only [of "page_addr d" PAGE_SIZE m 0] unfolding s .
  show "i < 1024 \<Longrightarrow> entry (memset m (page_addr d) 0 PAGE_SIZE) (page_addr d) i = 0"
    unfolding entry_def by (rule memset_zero_rd32) (use slot_in_page [OF assms] s in blast)
  show "x \<in> page_span d \<Longrightarrow> memset m (page_addr d) 0 PAGE_SIZE x = 0"
    unfolding memset_apply s by simp
qed

text \<open>Putting a fresh table into a directory keeps the address space.\<close>

lemma space_inv_new_table:
  assumes inv: "space_inv s d" and use: "frame_use {d} s s'" and i: "i < 1024"
    and rest: "\<And>k. k < 1024 \<Longrightarrow> k \<noteq> i \<Longrightarrow> entry (mem s') (page_addr d) k = entry (mem s) (page_addr d) k"
    and new: "table_of (mem s') d i \<in> free_pages s - free_pages s'"
  shows "space_inv s' d"
proof -
  note U = frame_useD [OF use]
  have "pmm_inv s" using inv by (simp add: space_inv_def)
  from frame_use_held(2) [OF use this new] have "page_span (table_of (mem s') d i) \<inter> bitmap_region s = {}"
    by (simp add: held_def U(4))
  from space_inv_extend [OF inv i U(2,3,4) rest new this] show ?thesis .
qed

definition table_cost :: "memory \<Rightarrow> nat \<Rightarrow> nat \<Rightarrow> nat" where
  "table_cost m d i = (if present m d i then Suc (card {j. j < 1024 \<and> pte_present (pte_at m d i j)}) else 0)"

text \<open>The entry \<open>i\<close> of directory \<open>Q\<close> is a fresh table with copies of the pages of \<open>P\<close>'s.\<close>

definition pde_copied :: "'a pmm_state_scheme \<Rightarrow> 'a pmm_state_scheme \<Rightarrow> nat \<Rightarrow> nat \<Rightarrow> nat \<Rightarrow> bool" where
  "pde_copied s s' P Q i \<longleftrightarrow> present (mem s') Q i \<and> table_of (mem s') Q i \<in> free_pages s - free_pages s' \<and>
     table_copied 1024 s s' (pte_at (mem s) P i) (\<lambda>_. 0) (pte_at (mem s') Q i) \<and>
     (\<forall>j < 1024. pte_present (pte_at (mem s') Q i j) \<longrightarrow> frame_of (pte_at (mem s') Q i j) \<noteq> table_of (mem s') Q i)"

text \<open>The source of a copy: its tables and pages are held by somebody and are not \<open>Q\<close>.\<close>

definition user_pages :: "'a pmm_state_scheme \<Rightarrow> nat \<Rightarrow> nat \<Rightarrow> nat \<Rightarrow> bool" where
  "user_pages s P Q i \<longleftrightarrow> (present (mem s) P i \<longrightarrow>
     held s (table_of (mem s) P i) \<and> table_of (mem s) P i \<noteq> Q \<and>
     (\<forall>j < 1024. pte_present (pte_at (mem s) P i j) \<longrightarrow>
        held s (frame_of (pte_at (mem s) P i j)) \<and> frame_of (pte_at (mem s) P i j) \<noteq> Q))"

text \<open>The first half of \<open>copy_pde\<close>: an empty table on a fresh frame, in the entry of \<open>Q\<close>.\<close>

lemma fresh_user_table:
  assumes Q: "pmm_inv s" "held s Q" and i: "i < 1024" and ne: "free_pages s \<noteq> {}" and P: "present (mem s) P i"
  obtains U t where "copy_pde (page_addr P) (page_addr Q) i s = fold (copy_pte (page_addr (table_of (mem s) P i)) (page_addr U)) [0..<1024] t"
    "frame_use {Q} s t" "U \<in> free_pages s" "held t U" "U \<noteq> Q" "free_pages t = free_pages s - {U}"
    "entry (mem t) (page_addr Q) i = user_entry U"
    "\<And>k. k < 1024 \<Longrightarrow> k \<noteq> i \<Longrightarrow> entry (mem t) (page_addr Q) k = entry (mem s) (page_addr Q) k"
    "\<And>j. j < 1024 \<Longrightarrow> entry (mem t) (page_addr U) j = 0"
proof -
  let ?U = "Min (free_pages s)"
  obtain t where t: "pmm_alloc_page s = (page_addr ?U, t)" "frame_use {} s t"
    "free_pages t = free_pages s - {?U}" "?U \<in> free_pages s" "held t ?U"
    by (rule frame_use_alloc [OF Q(1) ne])
  have b: "?U < 2 ^ 20" "Q < 2 ^ 20" "?U \<noteq> Q" using Q(2) t(4,5) by (auto simp: held_def)
  let ?m1 = "memset (mem t) (page_addr ?U) 0 PAGE_SIZE"
  let ?t1 = "t\<lparr>mem := ?m1\<rparr>"
  let ?m2 = "set_entry (page_addr Q) i (user_entry ?U) ?m1"
  let ?t2 = "?t1\<lparr>mem := ?m2\<rparr>"
  have run: "copy_pde (page_addr P) (page_addr Q) i s =
      fold (copy_pte (page_addr (table_of (mem s) P i)) (page_addr ?U)) [0..<1024] ?t2"
    using P t(1) by (simp add: copy_pde_def present_def table_of_def frame_of_mask Let_def del: of_nat_mult upt_rec_numeral)
  note ms = memset_page [OF b(1), where m = "mem t"]
  have u1: "frame_use {?U} t ?t1" and f1: "free_pages ?t1 = free_pages t"
    by (rule frame_use_write [OF frame_useD(2) [OF t(2)] t(5) ms(1)])+
  have s1: "frame_use {} s ?t1" by (rule frame_use_trans [OF t(2) u1]) (use t(3,4) in auto)
  have o2: "only_changes (page_span Q) (mem ?t1) ?m2" using set_entry_only [OF b(2) i] by simp
  have u2: "frame_use {Q} ?t1 ?t2" and f2: "free_pages ?t2 = free_pages ?t1"
    by (rule frame_use_write [OF frame_useD(2) [OF u1] frame_use_held(1) [OF s1 Q(2)] o2])+
  have use: "frame_use {Q} s ?t2" by (rule frame_use_trans [OF frame_use_mono [OF s1] u2]) auto
  have hU: "held ?t2 ?U" by (rule frame_use_held(1) [OF u2 frame_use_held(1) [OF u1 t(5)]])
  have ft2: "free_pages ?t2 = free_pages s - {?U}" using f1 f2 t(3) by simp
  have rest: "entry (mem ?t2) (page_addr Q) k = entry (mem s) (page_addr Q) k" if "k < 1024" "k \<noteq> i" for k
  proof -
    have "entry ?m2 (page_addr Q) k = entry ?m1 (page_addr Q) k"
      using that by (intro entry_set_other [OF b(2,2) i]) auto
    then show ?thesis using frame_use_keeps(2) [OF s1 Q(2) _ _ Q(1) that(1)] by simp
  qed
  have zero: "entry (mem ?t2) (page_addr ?U) j = 0" if "j < 1024" for j
    using entry_set_other [OF b(2,1) i that] b(3) ms(2) [OF that] by simp
  have "entry (mem ?t2) (page_addr Q) i = user_entry ?U" by simp
  then show thesis by (rule that [OF run use t(4) hU b(3) ft2 _ rest zero])
qed

text \<open>What the copied table is to the state before, and that its pages are not the table itself.\<close>

lemma table_copied_fresh:
  assumes c: "table_copied 1024 t s' src (\<lambda>_. 0) new" and use: "frame_use {Q} s t" "frame_use D t s'"
    and inv: "pmm_inv s" "Q < 2 ^ 20" and U: "free_pages t = free_pages s - {U}"
    and pages: "\<And>j. j < 1024 \<Longrightarrow> pte_present (src j) \<Longrightarrow> held s (frame_of (src j)) \<and> frame_of (src j) \<noteq> Q"
  shows "table_copied 1024 s s' src (\<lambda>_. 0) new"
    and "j < 1024 \<Longrightarrow> pte_present (new j) \<Longrightarrow> frame_of (new j) \<noteq> U"
proof -
  have Q20: "{Q} \<subseteq> {..<2 ^ 20}" using inv(2) by simp
  have "entry_copied s s' (src j) (new j)" if "j < 1024" "pte_present (src j)" "entry_copied t s' (src j) (new j)" for j
    using pages [OF that(1,2)] entry_copied_earlier [OF that(3) use(1) _ _ Q20 inv(1) frame_useD(3) [OF use(2)]] by simp
  then show "table_copied 1024 s s' src (\<lambda>_. 0) new" using c unfolding table_copied_def by auto
  assume j: "j < 1024" "pte_present (new j)"
  then have "entry_copied t s' (src j) (new j)" using c by (auto simp: table_copied_def split: if_splits)
  then obtain g where g: "g \<in> free_pages t" "new j = user_entry g" by (auto simp: entry_copied_def)
  then have "g < 2 ^ 20" using free_pages_bound [OF inv(1)] U by blast
  then have "frame_of (new j) = g" unfolding g(2) by (rule pde_fields(2))
  then show "frame_of (new j) \<noteq> U" using g(1) U by auto
qed

lemma copy_pde_result:
  assumes Q: "space_inv s Q" and P: "user_pages s P Q i" and i: "i < 1024"
    and room: "table_cost (mem s) P i \<le> card (free_pages s)"
  obtains s' where "copy_pde (page_addr P) (page_addr Q) i s = s'" "frame_use {Q} s s'" "space_inv s' Q"
    "card (free_pages s) = card (free_pages s') + table_cost (mem s) P i"
    "\<And>k. k < 1024 \<Longrightarrow> k \<noteq> i \<Longrightarrow> entry (mem s') (page_addr Q) k = entry (mem s) (page_addr Q) k"
    "if present (mem s) P i then pde_copied s s' P Q i else s' = s"
proof (cases "present (mem s) P i")
  case False
  have "copy_pde (page_addr P) (page_addr Q) i s = s"
    using False by (simp add: copy_pde_def present_def del: of_nat_mult)
  then show thesis using that [of s] Q False by (auto simp: table_cost_def space_inv_def)
next
  case True
  let ?T = "table_of (mem s) P i" and ?src = "pte_at (mem s) P i"
  have inv: "pmm_inv s" and hQ: "held s Q" "Q < 2 ^ 20" using Q by (auto simp: space_inv_held held_def)
  have hT: "held s ?T" "?T \<noteq> Q" and pages: "\<And>j. j < 1024 \<Longrightarrow> pte_present (?src j) \<Longrightarrow>
      held s (frame_of (?src j)) \<and> frame_of (?src j) \<noteq> Q"
    using P True by (auto simp: user_pages_def)
  have ne: "free_pages s \<noteq> {}" using room True by (auto simp: table_cost_def)
  obtain U t where t: "copy_pde (page_addr P) (page_addr Q) i s = fold (copy_pte (page_addr ?T) (page_addr U)) [0..<1024] t"
    "frame_use {Q} s t" "U \<in> free_pages s" "held t U" "U \<noteq> Q" "free_pages t = free_pages s - {U}"
    "entry (mem t) (page_addr Q) i = user_entry U"
    "\<And>k. k < 1024 \<Longrightarrow> k \<noteq> i \<Longrightarrow> entry (mem t) (page_addr Q) k = entry (mem s) (page_addr Q) k"
    "\<And>j. j < 1024 \<Longrightarrow> entry (mem t) (page_addr U) j = 0"
    by (rule fresh_user_table [OF inv hQ(1) i ne True], rule that, assumption+)
  have Q20: "{Q} \<subseteq> {..<2 ^ 20}" and U: "U < 2 ^ 20" "?T \<noteq> U" using hQ(2) hT(1) t(3,4) by (auto simp: held_def)
  have ht: "held t g" if "held s g" for g by (rule frame_use_held(1) [OF t(2) that])
  let ?old = "entry (mem t) (page_addr ?T)"
  have src: "?old j = ?src j" if "j < 1024" for j
    using frame_use_keeps(2) [OF t(2) hT(1) _ Q20 inv that] hT(2) by (simp add: pte_at_def del: of_nat_mult)
  have cnt: "{j. j < 1024 \<and> pte_present (?old j)} = {j. j < 1024 \<and> pte_present (?src j)}" using src by auto
  have cf: "card (free_pages s) = Suc (card (free_pages t))"
    unfolding t(6) by (rule card_Suc_Diff1 [OF finite_free_pages t(3), symmetric])
  have room2: "card {j. j < 1024 \<and> pte_present (?old j)} \<le> card (free_pages t)"
    using room True cf unfolding cnt by (simp add: table_cost_def del: of_nat_mult)
  have pages2: "held t (frame_of (?old j)) \<and> frame_of (?old j) \<noteq> U" if "j < 1024" "pte_present (?old j)" for j
    using that pages [OF that(1)] ht t(3) unfolding src [OF that(1)] by (auto simp: held_def)
  obtain s' where s': "fold (copy_pte (page_addr ?T) (page_addr U)) [0..<1024] t = s'" "frame_use {U} t s'"
    "card (free_pages t) = card (free_pages s') + card {j. j < 1024 \<and> pte_present (?old j)}"
    "table_copied 1024 t s' ?old (entry (mem t) (page_addr U)) (entry (mem s') (page_addr U))"
    using copy_table_result [OF frame_useD(2) [OF t(2)] ht [OF hT(1)] t(4) U(2) refl pages2 room2 le_refl] by blast
  have use: "frame_use {Q} s s'" by (rule frame_use_trans [OF t(2) s'(2)]) (use t(3,6) in auto)
  have fs': "U \<in> free_pages s - free_pages s'" using frame_useD(3) [OF s'(2)] t(3,6) by auto
  have dir: "entry (mem s') (page_addr Q) k = entry (mem t) (page_addr Q) k" if "k < 1024" for k
    using frame_use_keeps(2) [OF s'(2) ht [OF hQ(1)] _ _ frame_useD(2) [OF t(2)] that] U(1) t(5) by simp
  then have rest: "entry (mem s') (page_addr Q) k = entry (mem s) (page_addr Q) k" if "k < 1024" "k \<noteq> i" for k
    using t(8) [OF that] that(1) by simp
  have "entry (mem s') (page_addr Q) i = user_entry U" using dir [OF i] t(7) by simp
  then have ti: "present (mem s') Q i" "table_of (mem s') Q i = U"
    unfolding present_def table_of_def by (simp_all only: present_bit pde_fields [OF U(1)])
  have conv: "pte_at (mem s') Q i = entry (mem s') (page_addr U)" by (simp add: pte_at_def ti fun_eq_iff del: of_nat_mult)
  have "table_copied 1024 t s' ?src (\<lambda>_. 0) (pte_at (mem s') Q i)"
    unfolding table_copied_def conv
  proof (intro allI impI)
    fix j assume j: "j < (1024 :: nat)"
    show "if j < 1024 \<and> pte_present (?src j) then entry_copied t s' (?src j) (entry (mem s') (page_addr U) j)
        else entry (mem s') (page_addr U) j = 0"
      using s'(4) [unfolded table_copied_def, rule_format, OF j] unfolding src [OF j] t(9) [OF j] .
  qed
  note F = table_copied_fresh [OF this t(2) s'(2) inv hQ(2) t(6) pages]
  have copied: "pde_copied s s' P Q i" using F ti fs' by (auto simp: pde_copied_def)
  have "space_inv s' Q" by (rule space_inv_new_table [OF Q use i rest]) (use ti(2) fs' in auto)
  moreover have "card (free_pages s) = card (free_pages s') + table_cost (mem s) P i"
    using s'(3) cf True unfolding cnt by (simp add: table_cost_def)
  ultimately show thesis using that [of s'] t(1) s'(1) use rest copied True by simp
qed

section \<open>The pages of the user half\<close>

definition page_frames :: "memory \<Rightarrow> nat \<Rightarrow> nat set" where
  "page_frames m P = {frame_of (pte_at m P i j) | i j.
     i < KERNEL_PD_INDEX \<and> j < PAGE_ENTRIES \<and> present m P i \<and> pte_present (pte_at m P i j)}"

text \<open>Pages that somebody holds, and that hold neither the directory nor a table.\<close>

definition pages_apart :: "'a pmm_state_scheme \<Rightarrow> nat \<Rightarrow> bool" where
  "pages_apart s P \<longleftrightarrow> (\<forall>g \<in> page_frames (mem s) P. held s g \<and> g \<notin> space_frames (mem s) P)"

lemma pages_apart_grow:
  assumes a: "pages_apart s P" and P: "space_inv s P" and use: "frame_use D s s'"
    and pages: "page_frames (mem s') P \<subseteq> page_frames (mem s) P \<union> N"
    and frames: "space_frames (mem s') P \<subseteq> space_frames (mem s) P \<union> M"
    and new: "N \<union> M \<subseteq> free_pages s - free_pages s'" "N \<inter> M = {}"
  shows "pages_apart s' P"
  unfolding pages_apart_def
proof (intro ballI conjI)
  have inv: "pmm_inv s" using P by (simp add: space_inv_def)
  fix g assume g: "g \<in> page_frames (mem s') P"
  then have old: "g \<in> N \<or> (held s g \<and> g \<notin> space_frames (mem s) P)" using pages a unfolding pages_apart_def by blast
  then show "held s' g" using frame_use_held [OF use, of g] inv new(1) by blast
  have "held s h \<Longrightarrow> h \<notin> N \<union> M" for h using new(1) by (auto simp: held_def)
  then show "g \<notin> space_frames (mem s') P"
    using old frames new(2) space_frames_held [OF P] by blast
qed

lemma copied_apart:
  assumes Q: "space_inv s Q" "pages_apart s Q" and use: "frame_use {Q} s s'" and c: "pde_copied s s' P Q i"
    and i: "i < 1024"
    and rest: "\<And>k. k < 1024 \<Longrightarrow> k \<noteq> i \<Longrightarrow> entry (mem s') (page_addr Q) k = entry (mem s) (page_addr Q) k"
  shows "pages_apart s' Q"
proof (rule pages_apart_grow [OF Q(2,1) use])
  let ?N = "{g \<in> free_pages s - free_pages s'. g \<noteq> table_of (mem s') Q i}"
  have inv: "pmm_inv s" "Q < 2 ^ 20" using Q(1) by (auto simp: space_inv_held held_def)
  have old: "present (mem s') Q k = present (mem s) Q k" "table_of (mem s') Q k = table_of (mem s) Q k"
    if "k < 1024" "k \<noteq> i" for k
    using present_cong [OF rest [OF that]] table_of_cong [OF rest [OF that]] by simp_all
  show "space_frames (mem s') Q \<subseteq> space_frames (mem s) Q \<union> {table_of (mem s') Q i}"
    using old unfolding space_frames_def by auto
  show "?N \<union> {table_of (mem s') Q i} \<subseteq> free_pages s - free_pages s'" "?N \<inter> {table_of (mem s') Q i} = {}"
    using c by (auto simp: pde_copied_def)
  show "page_frames (mem s') Q \<subseteq> page_frames (mem s) Q \<union> ?N"
  proof
    fix g assume "g \<in> page_frames (mem s') Q"
    then obtain k j where kj: "k < 768" "j < 1024" "present (mem s') Q k" "pte_present (pte_at (mem s') Q k j)"
      "g = frame_of (pte_at (mem s') Q k j)" unfolding page_frames_def by blast
    show "g \<in> page_frames (mem s) Q \<union> ?N"
    proof (cases "k = i")
      case True
      have "entry_copied s s' (pte_at (mem s) P i j) (pte_at (mem s') Q i j)"
        using c kj(2,4) True by (auto simp: pde_copied_def table_copied_def split: if_splits)
      then obtain h where h: "h \<in> free_pages s - free_pages s'" "pte_at (mem s') Q i j = user_entry h"
        by (auto simp: entry_copied_def)
      then have "h < 2 ^ 20" using free_pages_bound [OF inv(1)] by blast
      then have "g = h" using pde_fields(2) [of h] kj(5) True h(2) by simp
      then show ?thesis using h(1) c kj(2,4,5) True by (auto simp: pde_copied_def)
    next
      case False
      have p: "present (mem s) Q k" "table_of (mem s') Q k = table_of (mem s) Q k" using old [of k] kj(1,3) False by simp_all
      then have t: "held s (table_of (mem s) Q k)" "table_of (mem s) Q k \<noteq> Q" using Q(1) kj(1) by (auto simp: space_inv_held)
      have "pte_at (mem s') Q k j = pte_at (mem s) Q k j"
        unfolding pte_at_def p(2) by (rule frame_use_keeps(2) [OF use t(1) _ _ inv(1) kj(2)]) (use t inv in auto)
      then show ?thesis using kj p(1) unfolding page_frames_def by auto
    qed
  qed
qed

section \<open>The user half\<close>

definition space_cost :: "memory \<Rightarrow> nat \<Rightarrow> nat \<Rightarrow> nat" where
  "space_cost m d n = (\<Sum>i<n. table_cost m d i)"

lemma user_pages_same:
  assumes "frame_use {Q} s t" "held s P" "P \<noteq> Q" "Q < 2 ^ 20" "pmm_inv s" "user_pages s P Q i" "i < 1024"
  shows "present (mem t) P i = present (mem s) P i" "table_of (mem t) P i = table_of (mem s) P i"
    "j < 1024 \<Longrightarrow> present (mem s) P i \<Longrightarrow> pte_at (mem t) P i j = pte_at (mem s) P i j"
    "user_pages t P Q i" "table_cost (mem t) P i = table_cost (mem s) P i"
proof -
  have Q20: "{Q} \<subseteq> {..<2 ^ 20}" using assms(4) by simp
  note keep = frame_use_keeps(2) [OF assms(1) _ _ Q20 assms(5)]
  have e: "entry (mem t) (page_addr P) i = entry (mem s) (page_addr P) i" using keep [OF assms(2) _ assms(7)] assms(3) by simp
  show pt: "present (mem t) P i = present (mem s) P i" "table_of (mem t) P i = table_of (mem s) P i"
    using present_cong [OF e] table_of_cong [OF e] by simp_all
  show pte: "pte_at (mem t) P i j = pte_at (mem s) P i j" if "j < 1024" "present (mem s) P i" for j
    using keep [OF _ _ that(1)] assms(6) that(2) by (simp add: pte_at_def pt user_pages_def del: of_nat_mult)
  have "{j. j < 1024 \<and> pte_present (pte_at (mem t) P i j)} = {j. j < 1024 \<and> pte_present (pte_at (mem s) P i j)}"
    if "present (mem s) P i" using pte that by auto
  then show "table_cost (mem t) P i = table_cost (mem s) P i" by (simp add: table_cost_def pt)
  show "user_pages t P Q i"
    using assms(6) frame_use_held(1) [OF assms(1)] pte unfolding user_pages_def pt by auto
qed

lemma pde_copied_later:
  assumes "pde_copied s t P Q k" "frame_use {Q} s t" "frame_use {Q} t u" "pmm_inv s" "held s Q" "k < 1024"
    and "entry (mem u) (page_addr Q) k = entry (mem t) (page_addr Q) k"
  shows "pde_copied s u P Q k"
proof -
  let ?U = "table_of (mem t) Q k"
  have Q: "Q < 2 ^ 20" "Q \<notin> free_pages s" using assms(5) by (auto simp: held_def)
  have U: "?U \<in> free_pages s - free_pages t" using assms(1) by (simp add: pde_copied_def)
  then have hU: "held t ?U" by (rule frame_use_held(2) [OF assms(2,4)])
  have "?U \<noteq> Q" using U Q(2) by (metis DiffD1)
  then have keep: "entry (mem u) (page_addr ?U) j = entry (mem t) (page_addr ?U) j" if "j < 1024" for j
    using frame_use_keeps(2) [OF assms(3) hU _ _ frame_useD(2) [OF assms(2)] that] Q(1) by simp
  have same: "table_of (mem u) Q k = ?U" "present (mem u) Q k = present (mem t) Q k"
    using present_cong [OF assms(7)] table_of_cong [OF assms(7)] by simp_all
  have "entry_copied s t w w' \<Longrightarrow> entry_copied s u w w'" for w w'
    using entry_copied_later [OF _ assms(2-4)] Q by simp
  then show ?thesis
    using assms(1) U keep frame_useD(3) [OF assms(3)]
    unfolding pde_copied_def table_copied_def pte_at_def same by auto
qed

lemma pde_copied_earlier:
  assumes "pde_copied t u P Q i" "frame_use {Q} s t" "frame_use {Q} t u" "pmm_inv s" "Q < 2 ^ 20"
    and "user_pages s P Q i" "present (mem s) P i" "held s P" "P \<noteq> Q" "i < 1024"
  shows "pde_copied s u P Q i"
proof -
  have pte: "pte_at (mem t) P i j = pte_at (mem s) P i j" if "j < 1024" for j
    by (rule user_pages_same(3) [OF assms(2,8,9,5,4,6,10) that assms(7)])
  have "entry_copied s u (pte_at (mem s) P i j) w"
    if "j < 1024" "pte_present (pte_at (mem s) P i j)" "entry_copied t u (pte_at (mem s) P i j) w" for j w
    using assms(4-7) that entry_copied_earlier [OF that(3) assms(2) _ _ _ assms(4) frame_useD(3) [OF assms(3)]]
    by (simp add: user_pages_def)
  then show ?thesis
    using assms(1) pte frame_useD(3) [OF assms(2)] unfolding pde_copied_def table_copied_def by auto
qed

lemma copy_space_result:
  assumes Q: "space_inv s Q" "pages_apart s Q" and P: "held s P" "P \<noteq> Q"
    and pages: "\<And>i. i < n \<Longrightarrow> user_pages s P Q i" and n: "n \<le> 1024"
    and room: "space_cost (mem s) P n \<le> card (free_pages s)"
  shows "\<exists>s'. fold (copy_pde (page_addr P) (page_addr Q)) [0..<n] s = s' \<and> frame_use {Q} s s' \<and> space_inv s' Q \<and>
    pages_apart s' Q \<and>
    card (free_pages s) = card (free_pages s') + space_cost (mem s) P n \<and>
    (\<forall>k < 1024. if k < n \<and> present (mem s) P k then pde_copied s s' P Q k
       else entry (mem s') (page_addr Q) k = entry (mem s) (page_addr Q) k)"
  using pages n room
proof (induction n)
  case 0
  then show ?case using Q by (auto simp: space_cost_def space_inv_def simp del: of_nat_mult)
next
  case (Suc n)
  have inv: "pmm_inv s" "held s Q" "Q < 2 ^ 20" using Q(1) by (auto simp: space_inv_held held_def)
  have n: "n < 1024" using Suc.prems(2) by simp
  have le: "space_cost (mem s) P n \<le> card (free_pages s)" using Suc.prems(3) by (simp add: space_cost_def)
  obtain t where t: "fold (copy_pde (page_addr P) (page_addr Q)) [0..<n] s = t" "frame_use {Q} s t" "space_inv t Q"
    "pages_apart t Q" "card (free_pages s) = card (free_pages t) + space_cost (mem s) P n"
    "\<forall>k < 1024. if k < n \<and> present (mem s) P k then pde_copied s t P Q k
       else entry (mem t) (page_addr Q) k = entry (mem s) (page_addr Q) k"
    using Suc.IH Suc.prems(1,2) le by auto
  have up: "user_pages s P Q n" by (rule Suc.prems(1)) simp
  note same = user_pages_same [OF t(2) P inv(3,1) up n]
  have room: "table_cost (mem t) P n \<le> card (free_pages t)"
    using Suc.prems(3) t(5) same(5) by (simp add: space_cost_def)
  obtain u where u: "copy_pde (page_addr P) (page_addr Q) n t = u" "frame_use {Q} t u" "space_inv u Q"
    "card (free_pages t) = card (free_pages u) + table_cost (mem t) P n"
    "\<And>k. k < 1024 \<Longrightarrow> k \<noteq> n \<Longrightarrow> entry (mem u) (page_addr Q) k = entry (mem t) (page_addr Q) k"
    "if present (mem t) P n then pde_copied t u P Q n else u = t"
    by (rule copy_pde_result [OF t(3) same(4) n room], rule that, assumption+)
  have use: "frame_use {Q} s u" by (rule frame_use_trans [OF t(2) u(2)]) blast
  have apart: "pages_apart u Q"
    using u(5,6) t(4) copied_apart [OF t(3,4) u(2) _ n] by (cases "present (mem t) P n") auto
  have "if k < Suc n \<and> present (mem s) P k then pde_copied s u P Q k
      else entry (mem u) (page_addr Q) k = entry (mem s) (page_addr Q) k" if k: "k < 1024" for k
  proof (cases "k = n")
    case True
    then show ?thesis
      using u(6) t(6) n same(1) pde_copied_earlier [OF _ t(2) u(2) inv(1,3) up _ P n] by auto
  next
    case False
    then have "k < Suc n \<longleftrightarrow> k < n" by auto
    then show ?thesis using t(6) k u(5) [OF k False] pde_copied_later [OF _ t(2) u(2) inv(1,2) k] by auto
  qed
  then show ?case
    using t(1,5) u(1,3,4) apart use same(5) by (intro exI [of _ u]) (simp add: space_cost_def del: of_nat_mult)
qed

section \<open>The translation of the copy\<close>

lemma page_offset:
  assumes "g < 2 ^ 20"
  shows "page_addr g OR (v AND 0xFFF) = page_addr g + of_nat (unat (v AND 0xFFF))" "unat (v AND 0xFFF :: u32) < 4096"
    "frame_of (page_addr g OR (v AND 0xFFF)) = g"
proof -
  have m: "v AND 0xFFF = take_bit 12 v" unfolding page_masks by (simp add: take_bit_eq_mask)
  show "unat (v AND 0xFFF :: u32) < 4096" unfolding m by (simp add: take_bit_eq_mod unat_mod)
  have "page_addr g AND (v AND 0xFFF) = 0"
    unfolding page_addr_push m by (rule bit_word_eqI) (auto simp: bit_simps)
  then show "page_addr g OR (v AND 0xFFF) = page_addr g + of_nat (unat (v AND 0xFFF))"
    by (simp add: disjunctive_add_eq_or del: of_nat_mult)
  have "drop_bit 12 (v AND 0xFFF) = 0" unfolding m by (rule bit_word_eqI) (auto simp: bit_simps)
  then show "frame_of (page_addr g OR (v AND 0xFFF)) = g" by (rule frame_of_page_addr [OF assms])
qed

text \<open>What the processor reads at a translated address.\<close>

lemma walk_copied:
  assumes c: "pde_copied s s' P Q (pdi v)" and P: "present (mem s) P (pdi v)"
    and inv: "pmm_inv s"
  shows "case mmu_walk (mem s) (page_addr P) v of None \<Rightarrow> mmu_walk (mem s') (page_addr Q) v = None
    | Some x \<Rightarrow> \<exists>y. mmu_walk (mem s') (page_addr Q) v = Some y \<and> mem s' y = mem s x \<and>
        frame_of y \<in> free_pages s - free_pages s'"
proof -
  let ?w = "pte_at (mem s) P (pdi v) (pti v)" and ?w' = "pte_at (mem s') Q (pdi v) (pti v)"
  have tc: "present (mem s') Q (pdi v)" "if pte_present ?w then entry_copied s s' ?w ?w' else ?w' = 0"
    using c pti_bound unfolding pde_copied_def table_copied_def by auto
  show ?thesis
  proof (cases "pte_present ?w")
    case True
    then obtain g where g: "g \<in> free_pages s - free_pages s'" "?w' = user_entry g" "same_page (mem s) (frame_of ?w) (mem s') g"
      using tc(2) by (auto simp: entry_copied_def)
    have g20: "g < 2 ^ 20" using g(1) free_pages_bound [OF inv] by blast
    let ?x = "page_addr (frame_of ?w) OR (v AND 0xFFF)" and ?y = "page_addr g OR (v AND 0xFFF)"
    have x: "mmu_walk (mem s) (page_addr P) v = Some ?x"
      using P True by (simp add: mmu_walk_pte frame_of_mask del: of_nat_mult)
    have "?w' AND 0xFFFFF000 = page_addr g" unfolding frame_of_mask g(2) pde_fields(2) [OF g20] ..
    then have y: "mmu_walk (mem s') (page_addr Q) v = Some ?y"
      using tc(1) pde_fields(1) [OF g20] g(2) by (simp add: mmu_walk_pte del: of_nat_mult)
    have "mem s' ?y = mem s ?x"
      using g(3) page_offset(2) [OF g20, where v = v] unfolding page_offset(1) [OF g20] page_offset(1) [OF frame_of_bound] same_page_def by blast
    then show ?thesis using x y g(1) page_offset(3) [OF g20] by simp
  next
    case False
    then have "?w' = 0" using tc(2) by simp
    then show ?thesis using False P by (simp add: mmu_walk_pte del: of_nat_mult)
  qed
qed

end
