(* ===== verification/ProcInv.thy ===== *)
theory ProcInv
  imports Proc HeapFrame CopySpace
begin

text \<open>
  Processes and their address spaces.  \<open>procs_inv\<close> says that every process of the
  list has a live structure on the kernel heap and an address space of its own: the
  kernel's half is the kernel's, and the directory, the tables and the pages of the
  lower half are owned by it alone.  Creating a process, forking and scheduling keep it.
\<close>

section \<open>The fields of a process\<close>

lemma proc_fields_frame [simp]:
  "free_pages (s\<lparr>next_pid := n\<rparr>) = free_pages s" "free_pages (s\<lparr>process_list := p\<rparr>) = free_pages s"
  "free_pages (s\<lparr>current_process := p\<rparr>) = free_pages s" "free_pages (s\<lparr>cr3 := n\<rparr>) = free_pages s"
  "bitmap_region (s\<lparr>next_pid := n\<rparr>) = bitmap_region s" "bitmap_region (s\<lparr>process_list := p\<rparr>) = bitmap_region s"
  "bitmap_region (s\<lparr>current_process := p\<rparr>) = bitmap_region s" "bitmap_region (s\<lparr>cr3 := n\<rparr>) = bitmap_region s"
  "pmm_inv (s\<lparr>next_pid := n\<rparr>) = pmm_inv s" "pmm_inv (s\<lparr>process_list := p\<rparr>) = pmm_inv s"
  "pmm_inv (s\<lparr>current_process := p\<rparr>) = pmm_inv s" "pmm_inv (s\<lparr>cr3 := n\<rparr>) = pmm_inv s"
  for s :: "'a proc_state_scheme"
  by (simp_all add: free_pages_def bitmap_region_def pmm_inv_def)

lemma proc_heap_frame [simp]:
  "heap_area (s\<lparr>next_pid := n\<rparr>) cs = heap_area s cs" "heap_area (s\<lparr>process_list := p\<rparr>) cs = heap_area s cs"
  "heap_area (s\<lparr>current_process := p\<rparr>) cs = heap_area s cs" "heap_area (s\<lparr>cr3 := n\<rparr>) cs = heap_area s cs"
  "heap_inv (s\<lparr>next_pid := n\<rparr>) bs lost = heap_inv s bs lost" "heap_inv (s\<lparr>process_list := p\<rparr>) bs lost = heap_inv s bs lost"
  "heap_inv (s\<lparr>current_process := p\<rparr>) bs lost = heap_inv s bs lost" "heap_inv (s\<lparr>cr3 := n\<rparr>) bs lost = heap_inv s bs lost"
  for s :: "'a proc_state_scheme"
  by (simp_all add: heap_area_def heap_inv_def)

lemma proc_owned_frame [simp]:
  "owned (s\<lparr>next_pid := n\<rparr>) cs g = owned s cs g" "owned (s\<lparr>process_list := p\<rparr>) cs g = owned s cs g"
  "owned (s\<lparr>current_process := p\<rparr>) cs g = owned s cs g" "owned (s\<lparr>cr3 := n\<rparr>) cs g = owned s cs g"
  "held (s\<lparr>next_pid := n\<rparr>) g = held s g" "held (s\<lparr>process_list := p\<rparr>) g = held s g"
  "held (s\<lparr>current_process := p\<rparr>) g = held s g" "held (s\<lparr>cr3 := n\<rparr>) g = held s g"
  "space_inv (s\<lparr>next_pid := n\<rparr>) g = space_inv s g" "space_inv (s\<lparr>process_list := p\<rparr>) g = space_inv s g"
  "space_inv (s\<lparr>current_process := p\<rparr>) g = space_inv s g" "space_inv (s\<lparr>cr3 := n\<rparr>) g = space_inv s g"
  for s :: "'a proc_state_scheme"
  by (simp_all add: owned_def held_def space_inv_def)

lemma proc_preserves_frame [simp]:
  "preserves s cs (t\<lparr>next_pid := n\<rparr>) cs' D B = preserves s cs t cs' D B"
  "preserves s cs (t\<lparr>process_list := p\<rparr>) cs' D B = preserves s cs t cs' D B"
  "preserves s cs (t\<lparr>current_process := p\<rparr>) cs' D B = preserves s cs t cs' D B"
  "preserves s cs (t\<lparr>cr3 := n\<rparr>) cs' D B = preserves s cs t cs' D B"
  for t :: "'a proc_state_scheme"
  by (simp_all add: preserves_def)

lemmas pfield_simps = pfield_def set_pfield_def rd32_wr32_disjoint span4

text \<open>The offsets of the fields.\<close>

abbreviation field_offset :: "u32 \<Rightarrow> bool" where
  "field_offset off \<equiv> unat off + 4 \<le> 36"

lemma field_span:
  assumes "unat p + 36 \<le> 2 ^ 32" "field_offset off"
  shows "span (p + off) 4 \<subseteq> nspan (unat p) 36"
proof -
  have "unat (p + off) = unat p + unat off" using assms by (simp add: unat_word_ariths)
  then show ?thesis using assms by (subst span_nspan) auto
qed

lemma pfield_cong:
  assumes "unat p + 36 \<le> 2 ^ 32" "field_offset off" "\<And>x. x \<in> nspan (unat p) 36 \<Longrightarrow> m' x = m x"
  shows "pfield m' p off = pfield m p off"
  unfolding pfield_def using field_span [OF assms(1,2)] assms(3) by (intro rd32_cong) blast

lemma pfield_write_only:
  assumes "unat p + 36 \<le> 2 ^ 32" "field_offset off"
  shows "only_changes (nspan (unat p) 36) m (wr32 m (p + off) v)"
  by (rule only_changes_wr32 [OF field_span [OF assms]])

lemma pfield_writes:
  assumes "only_changes (nspan (unat p) 36) m m1" "unat p + 36 \<le> 2 ^ 32" "field_offset off"
  shows "only_changes (nspan (unat p) 36) m (wr32 m1 (p + off) v)"
  using only_changes_trans [OF assms(1) pfield_write_only [OF assms(2,3)]] by simp

section \<open>The frames of an address space\<close>

text \<open>The address of a directory and table index.\<close>

definition page_at :: "nat \<Rightarrow> nat \<Rightarrow> u32" where
  "page_at i j = of_nat (i * 4194304 + j * 4096)"

lemma page_at:
  assumes "i < 1024" "j < 1024"
  shows "pdi (page_at i j) = i" "pti (page_at i j) = j" "unat (page_at i j) = i * 4194304 + j * 4096"
proof -
  show u: "unat (page_at i j) = i * 4194304 + j * 4096"
    unfolding page_at_def by (rule unat_of_nat32) (use assms in simp)
  show "pdi (page_at i j) = i" unfolding pdi_div u using assms by simp
  have "drop_bit 12 v AND 0x3FF = take_bit 10 (drop_bit 12 v)" for v :: u32
    unfolding page_masks by (simp add: take_bit_eq_mask)
  then have "pti (page_at i j) = unat (page_at i j) div 4096 mod 1024"
    by (simp add: take_bit_eq_mod drop_bit_eq_div unat_mod unat_div)
  also have "\<dots> = (j + i * 1024) mod 1024" unfolding u by simp
  also have "\<dots> = j" using assms by simp
  finally show "pti (page_at i j) = j" .
qed

text \<open>
  The frames of the lower half: the tables and the pages they map.  With the directory
  they are what a process has for itself.
\<close>

definition user_frames :: "memory \<Rightarrow> nat \<Rightarrow> nat set" where
  "user_frames m P = {table_of m P i | i. i < KERNEL_PD_INDEX \<and> present m P i} \<union> page_frames m P"

lemmas user_frames_defs = user_frames_def page_frames_def

definition private_frames :: "memory \<Rightarrow> nat \<Rightarrow> nat set" where
  "private_frames m P = insert P (user_frames m P)"

lemma walk_page_at:
  assumes "i < 1024" "j < 1024" "present m P i" "pte_present (pte_at m P i j)"
  shows "mmu_walk m (page_addr P) (page_at i j) = Some (page_addr (frame_of (pte_at m P i j)) OR (page_at i j AND 0xFFF))"
  using assms by (simp add: mmu_walk_pte page_at frame_of_mask del: of_nat_mult)

lemma user_page_walk:
  assumes "g \<in> user_frames m P" "\<And>i. i < 768 \<Longrightarrow> present m P i \<Longrightarrow> table_of m P i \<noteq> g"
  obtains v where "pdi v < 768" "mmu_walk m (page_addr P) v = Some (page_addr g OR (v AND 0xFFF))" "g < 2 ^ 20"
proof -
  obtain i j where ij: "i < 768" "j < 1024" "present m P i" "pte_present (pte_at m P i j)" "g = frame_of (pte_at m P i j)"
    using assms unfolding user_frames_defs by blast
  then show thesis
    using that [of "page_at i j"] walk_page_at [of i j m P] page_at(1) [of i j] frame_of_bound by simp
qed

text \<open>Where a user address leads.\<close>

lemma in_frame: "x \<in> page_span (frame_of x)"
  using page_span_iff [OF frame_of_bound] by (simp add: frame_of_def drop_bit_eq_div unat_div)

lemma walk_user_frame:
  assumes "mmu_walk m (page_addr P) v = Some x" "pdi v < 768"
  shows "frame_of x \<in> page_frames m P" "frame_of x \<in> user_frames m P"
proof -
  let ?w = "pte_at m P (pdi v) (pti v)"
  have w: "present m P (pdi v)" "pte_present ?w" "x = page_addr (frame_of ?w) OR (v AND 0xFFF)"
    using assms(1) by (auto simp: mmu_walk_pte frame_of_mask simp del: of_nat_mult split: if_splits)
  have "frame_of x = frame_of ?w" unfolding w(3) by (rule page_offset(3) [OF frame_of_bound])
  then show "frame_of x \<in> page_frames m P" using assms(2) pti_bound w(1,2) unfolding page_frames_def by auto
  then show "frame_of x \<in> user_frames m P" by (simp add: user_frames_def)
qed

lemma page_frames_walk: "page_frames m P = {frame_of x | v x. pdi v < KERNEL_PD_INDEX \<and> mmu_walk m (page_addr P) v = Some x}"
proof (intro equalityI subsetI)
  fix g assume "g \<in> page_frames m P"
  then obtain i j where ij: "i < 768" "j < 1024" "present m P i" "pte_present (pte_at m P i j)" "g = frame_of (pte_at m P i j)"
    unfolding page_frames_def by blast
  then have "mmu_walk m (page_addr P) (page_at i j) = Some (page_addr g OR (page_at i j AND 0xFFF))" "pdi (page_at i j) = i"
    using walk_page_at [of i j m P] page_at(1) [of i j] by simp_all
  moreover have "frame_of (page_addr g OR (page_at i j AND 0xFFF)) = g"
    unfolding ij(5) by (rule page_offset(3) [OF frame_of_bound])
  ultimately show "g \<in> {frame_of x | v x. pdi v < KERNEL_PD_INDEX \<and> mmu_walk m (page_addr P) v = Some x}"
    using ij(1) by force
qed (use walk_user_frame(1) in blast)



lemma frame_of_page: "f < 2 ^ 20 \<Longrightarrow> frame_of (page_addr f) = f"
  using frame_of_page_addr [of f 0] by simp

section \<open>Everybody's address space\<close>

lemma user_frames_page:
  "i < 768 \<Longrightarrow> j < 1024 \<Longrightarrow> present m P i \<Longrightarrow> pte_present (pte_at m P i j) \<Longrightarrow> frame_of (pte_at m P i j) \<in> user_frames m P"
  unfolding user_frames_defs by blast

lemma user_frames_sub:
  assumes "\<And>i. i < 768 \<Longrightarrow> present m P i \<Longrightarrow> present m' P i \<and> table_of m' P i = table_of m P i \<and>
    (\<forall>j < 1024. pte_at m' P i j = pte_at m P i j)"
  shows "user_frames m P \<subseteq> user_frames m' P"
proof
  fix g assume "g \<in> user_frames m P"
  then consider i where "i < 768" "present m P i" "g = table_of m P i"
    | i j where "i < 768" "j < 1024" "present m P i" "pte_present (pte_at m P i j)" "g = frame_of (pte_at m P i j)"
    unfolding user_frames_defs by blast
  then show "g \<in> user_frames m' P"
  proof cases
    case 1
    then show ?thesis using assms [of i] unfolding user_frames_defs by auto
  next
    case 2
    then have "present m' P i" "pte_at m' P i j = pte_at m P i j" using assms [of i] by auto
    then show ?thesis using 2 user_frames_page [of i j m' P] by simp
  qed
qed

text \<open>What the frames of an address space hold decides all of it.\<close>

lemma space_keep:
  assumes "space_inv s P" "pmm_inv s'" "\<And>g. g \<in> space_frames (mem s) P \<Longrightarrow> held s' g"
    and same: "\<And>g x. g \<in> space_frames (mem s) P \<Longrightarrow> x \<in> page_span g \<Longrightarrow> mem s' x = mem s x"
  shows "space_inv s' P" "i < 1024 \<Longrightarrow> entry (mem s') (page_addr P) i = entry (mem s) (page_addr P) i"
    "space_frames (mem s') P = space_frames (mem s) P" "private_frames (mem s') P = private_frames (mem s) P"
    "mmu_walk (mem s') (page_addr P) v = mmu_walk (mem s) (page_addr P) v"
proof -
  have keep: "entry (mem s') (page_addr g) i = entry (mem s) (page_addr g) i" if "g \<in> space_frames (mem s) P" "i < 1024" for g i
    using space_frames_held [OF assms(1) that(1)] same [OF that(1)] that(2) by (intro entry_cong) (auto simp: held_def)
  show ent: "entry (mem s') (page_addr P) i = entry (mem s) (page_addr P) i" if "i < 1024" for i
    by (rule keep [OF _ that]) (simp add: space_frames_def)
  have pt: "present (mem s') P i = present (mem s) P i" "table_of (mem s') P i = table_of (mem s) P i" if "i < 1024" for i
    using present_cong [OF ent [OF that]] table_of_cong [OF ent [OF that]] by simp_all
  have tab: "table_of (mem s) P i \<in> space_frames (mem s) P" if "i < 1024" "present (mem s) P i" for i
    using that by (auto simp: space_frames_def)
  have pte: "pte_at (mem s') P i j = pte_at (mem s) P i j" if "i < 1024" "j < 1024" "present (mem s) P i" for i j
    unfolding pte_at_def pt(2) [OF that(1)] by (rule keep [OF tab [OF that(1,3)] that(2)])
  show sf: "space_frames (mem s') P = space_frames (mem s) P"
    unfolding space_frames_def using pt by (metis (no_types, lifting))
  have P: "P \<in> space_frames (mem s) P" by (simp add: space_frames_def)
  show "space_inv s' P"
    using assms(1,2) assms(3) [OF P] assms(3) [OF tab] pt unfolding space_inv_held by simp
  have "user_frames (mem s') P = user_frames (mem s) P"
    by (intro equalityI user_frames_sub) (simp_all add: pt pte)
  then show "private_frames (mem s') P = private_frames (mem s) P" by (simp add: private_frames_def)
  show "mmu_walk (mem s') (page_addr P) v = mmu_walk (mem s) (page_addr P) v"
    by (intro mmu_walk_cong ent keep pdi_bound pti_bound tab)
qed

definition kernel_ok :: "'a paging_state_scheme \<Rightarrow> hblk list \<Rightarrow> nat \<Rightarrow> bool" where
  "kernel_ok s cs d \<longleftrightarrow> kernel_page_dir s = page_addr d \<and> space_inv s d \<and> (\<forall>g \<in> space_frames (mem s) d. owned s cs g)"

text \<open>
  An address space of its own: nobody else holds its frames below the kernel's half,
  no page is its directory or a table of it, and its directory ends like the kernel's.
\<close>

definition own_space :: "'a heap_state_scheme \<Rightarrow> hblk list \<Rightarrow> nat \<Rightarrow> nat \<Rightarrow> bool" where
  "own_space s cs d P \<longleftrightarrow> space_inv s P \<and> page_frames (mem s) P \<inter> space_frames (mem s) P = {} \<and>
     (\<forall>g \<in> private_frames (mem s) P. owned s cs g \<and> g \<notin> space_frames (mem s) d) \<and>
     (\<forall>i. KERNEL_PD_INDEX \<le> i \<longrightarrow> i < PAGE_ENTRIES \<longrightarrow> entry (mem s) (page_addr P) i = entry (mem s) (page_addr d) i)"

lemma own_space_frames:
  assumes "own_space s cs d P" "g \<in> space_frames (mem s) P"
  shows "g \<in> private_frames (mem s) P \<or> g \<in> space_frames (mem s) d"
proof (cases "g = P")
  case False
  then obtain i where i: "i < 1024" "present (mem s) P i" "g = table_of (mem s) P i" using assms(2) by (auto simp: space_frames_def)
  show ?thesis
  proof (cases "i < 768")
    case True
    then show ?thesis using i by (auto simp: private_frames_def user_frames_defs)
  next
    case False
    then have e: "entry (mem s) (page_addr P) i = entry (mem s) (page_addr d) i" using assms(1) i(1) by (simp add: own_space_def)
    have "present (mem s) d i" "g = table_of (mem s) d i"
      using i(2,3) unfolding present_def table_of_def e by simp_all
    then show ?thesis using i(1) by (auto simp: space_frames_def)
  qed
qed (simp add: private_frames_def)

lemma own_space_pages: "own_space s cs d P \<Longrightarrow> pmm_inv s \<Longrightarrow> pages_apart s P"
  using owned_held [of s cs] unfolding own_space_def pages_apart_def private_frames_def user_frames_def by blast

lemma kernel_ok_keep:
  assumes "preserves s cs s' cs' D B" "kernel_ok s cs d" "D \<inter> space_frames (mem s) d = {}"
    and "kernel_page_dir s' = kernel_page_dir s"
  shows "kernel_ok s' cs' d" "space_frames (mem s') d = space_frames (mem s) d"
    "i < 1024 \<Longrightarrow> entry (mem s') (page_addr d) i = entry (mem s) (page_addr d) i"
    "mmu_walk (mem s') (page_addr d) v = mmu_walk (mem s) (page_addr d) v"
proof -
  note P = preservesD [OF assms(1)]
  have d: "space_inv s d" "\<And>g. g \<in> space_frames (mem s) d \<Longrightarrow> owned s cs g" using assms(2) by (auto simp: kernel_ok_def)
  have "held s' g" if "g \<in> space_frames (mem s) d" for g by (rule owned_held [OF P(1) P(2) [OF d(2) [OF that]]])
  moreover have "mem s' x = mem s x" if "g \<in> space_frames (mem s) d" "x \<in> page_span g" for g x
    using that assms(3) by (intro P(3) [OF d(2) [OF that(1)]]) auto
  ultimately have k: "space_inv s' d" "i < 1024 \<Longrightarrow> entry (mem s') (page_addr d) i = entry (mem s) (page_addr d) i"
    "space_frames (mem s') d = space_frames (mem s) d" "mmu_walk (mem s') (page_addr d) v = mmu_walk (mem s) (page_addr d) v"
    for i v using space_keep [OF d(1) P(1)] by blast+
  then show "space_frames (mem s') d = space_frames (mem s) d"
    "i < 1024 \<Longrightarrow> entry (mem s') (page_addr d) i = entry (mem s) (page_addr d) i"
    "mmu_walk (mem s') (page_addr d) v = mmu_walk (mem s) (page_addr d) v" by blast+
  show "kernel_ok s' cs' d" using k(1,3) assms(2,4) P(2) by (auto simp: kernel_ok_def)
qed

lemma own_space_keep:
  assumes "preserves s cs s' cs' D B" "kernel_ok s cs d" "own_space s cs d P"
    and "D \<inter> space_frames (mem s) d = {}" "D \<inter> private_frames (mem s) P = {}"
    and "kernel_page_dir s' = kernel_page_dir s"
  shows "own_space s' cs' d P" "private_frames (mem s') P = private_frames (mem s) P"
    "mmu_walk (mem s') (page_addr P) v = mmu_walk (mem s) (page_addr P) v"
    "x \<in> page_span g \<Longrightarrow> g \<in> private_frames (mem s) P \<Longrightarrow> mem s' x = mem s x"
proof -
  note Pr = preservesD [OF assms(1)]
  note K = kernel_ok_keep [OF assms(1,2,4,6)]
  have own: "owned s cs g" if "g \<in> space_frames (mem s) P \<union> private_frames (mem s) P" for g
    using that own_space_frames [OF assms(3)] assms(2,3) by (auto simp: own_space_def kernel_ok_def)
  have D: "g \<notin> D" if "g \<in> space_frames (mem s) P \<union> private_frames (mem s) P" for g
    using that own_space_frames [OF assms(3)] assms(4,5) by blast
  have "held s' g" if "g \<in> space_frames (mem s) P" for g
    by (rule owned_held [OF Pr(1) Pr(2)]) (use own that in blast)
  moreover have same: "mem s' x = mem s x" if "g \<in> space_frames (mem s) P \<union> private_frames (mem s) P" "x \<in> page_span g" for g x
    by (rule Pr(3) [OF own [OF that(1)] D [OF that(1)] that(2)])
  moreover have sp: "space_inv s P" using assms(3) by (simp add: own_space_def)
  ultimately have k: "space_inv s' P" "private_frames (mem s') P = private_frames (mem s) P"
    "i < 1024 \<Longrightarrow> entry (mem s') (page_addr P) i = entry (mem s) (page_addr P) i"
    "mmu_walk (mem s') (page_addr P) v = mmu_walk (mem s) (page_addr P) v" "space_frames (mem s') P = space_frames (mem s) P" for i v
    using space_keep [OF sp Pr(1)] by blast+
  then show "private_frames (mem s') P = private_frames (mem s) P"
    "mmu_walk (mem s') (page_addr P) v = mmu_walk (mem s) (page_addr P) v" by blast+
  show "x \<in> page_span g \<Longrightarrow> g \<in> private_frames (mem s) P \<Longrightarrow> mem s' x = mem s x" using same by blast
  have "page_frames (mem s') P = page_frames (mem s) P" by (simp only: page_frames_walk k(4))
  then show "own_space s' cs' d P"
    using assms(3) k K(2,3) Pr(2) unfolding own_space_def by auto
qed

section \<open>The invariant of the process list\<close>

abbreviation pd_of :: "memory \<Rightarrow> u32 \<Rightarrow> nat" where
  "pd_of m q \<equiv> frame_of (pfield m q P_PAGE_DIR)"

definition proc_block :: "hblk list \<Rightarrow> u32 \<Rightarrow> hblk \<Rightarrow> bool" where
  "proc_block cs q b \<longleftrightarrow> b \<in> set cs \<and> b_used b \<and> unat q = b_addr b + 12 \<and> 36 \<le> b_size b \<and> b_end b \<le> 2 ^ 32"

definition proc_ok :: "'a proc_state_scheme \<Rightarrow> hblk list \<Rightarrow> nat \<Rightarrow> u32 \<Rightarrow> bool" where
  "proc_ok s cs d q \<longleftrightarrow> (\<exists>b. proc_block cs q b) \<and>
     pfield (mem s) q P_PAGE_DIR = page_addr (pd_of (mem s) q) \<and>
     pfield (mem s) q P_PAGE_DIR_PHYS = page_addr (pd_of (mem s) q) \<and> own_space s cs d (pd_of (mem s) q)"

definition procs_inv :: "'a proc_state_scheme \<Rightarrow> hblk list \<Rightarrow> hblk list \<Rightarrow> nat \<Rightarrow> u32 list \<Rightarrow> bool" where
  "procs_inv s bs lost d ps \<longleftrightarrow> heap_inv s bs lost \<and> kernel_ok s (bs @ lost) d \<and>
     proc_path (mem s) (process_list s) ps \<and> distinct ps \<and> (\<forall>q \<in> set ps. proc_ok s (bs @ lost) d q) \<and>
     (\<forall>q \<in> set ps. \<forall>r \<in> set ps. q \<noteq> r \<longrightarrow>
        private_frames (mem s) (pd_of (mem s) q) \<inter> private_frames (mem s) (pd_of (mem s) r) = {}) \<and>
     (current_process s = 0 \<or> current_process s \<in> set ps)"

lemma proc_block_span:
  assumes "proc_block cs q b"
  shows "unat q + 36 \<le> 2 ^ 32" "nspan (unat q) 36 \<subseteq> payload b"
  using assms by (auto simp: proc_block_def b_end_def)

text \<open>A process keeps its fields and its address space when a step leaves both alone.\<close>

lemma proc_ok_keep:
  assumes "preserves s cs s' cs' D B" "kernel_ok s cs d" "proc_ok s cs d q" "kernel_page_dir s' = kernel_page_dir s"
    and "D \<inter> space_frames (mem s) d = {}" "D \<inter> private_frames (mem s) (pd_of (mem s) q) = {}"
    and "\<And>b. proc_block cs q b \<Longrightarrow> b \<notin> B"
  shows "proc_ok s' cs' d q" "field_offset off \<Longrightarrow> pfield (mem s') q off = pfield (mem s) q off"
    "private_frames (mem s') (pd_of (mem s') q) = private_frames (mem s) (pd_of (mem s) q)"
    "mmu_walk (mem s') (page_addr (pd_of (mem s') q)) v = mmu_walk (mem s) (page_addr (pd_of (mem s) q)) v"
proof -
  note P = preservesD [OF assms(1)]
  obtain b where b: "proc_block cs q b" using assms(3) by (auto simp: proc_ok_def)
  have same: "mem s' x = mem s x" if "x \<in> nspan (unat q) 36" for x
    using b assms(7) [OF b] that proc_block_span(2) [OF b] by (intro P(5) [of b]) (auto simp: proc_block_def)
  have f: "pfield (mem s') q off = pfield (mem s) q off" if "field_offset off" for off
    by (rule pfield_cong [OF proc_block_span(1) [OF b] that same])
  then show "field_offset off \<Longrightarrow> pfield (mem s') q off = pfield (mem s) q off" .
  have pd: "pd_of (mem s') q = pd_of (mem s) q" by (simp add: f)
  have own: "own_space s cs d (pd_of (mem s) q)" using assms(3) by (simp add: proc_ok_def)
  note k = own_space_keep [OF assms(1,2) own assms(5,6,4)]
  show "private_frames (mem s') (pd_of (mem s') q) = private_frames (mem s) (pd_of (mem s) q)"
    "mmu_walk (mem s') (page_addr (pd_of (mem s') q)) v = mmu_walk (mem s) (page_addr (pd_of (mem s) q)) v"
    unfolding pd using k(2,3) by blast+
  have "proc_block cs' q b" using b P(4) by (auto simp: proc_block_def)
  then show "proc_ok s' cs' d q" using assms(3) k(1) f pd unfolding proc_ok_def by auto
qed

lemma proc_path_cong:
  assumes "proc_path m p ps" "\<And>q. q \<in> set ps \<Longrightarrow> pfield m' q P_NEXT = pfield m q P_NEXT"
  shows "proc_path m' p ps"
  using assms by (induction ps arbitrary: p) auto

lemma proc_path_unique: "proc_path m p ps \<Longrightarrow> proc_path m p qs \<Longrightarrow> ps = qs"
proof (induction ps arbitrary: p qs)
  case Nil
  then show ?case by (cases qs) auto
next
  case (Cons q ps)
  then show ?case by (cases qs) auto
qed

text \<open>What somebody owns is not free.\<close>

lemma owned_not_free: "pmm_inv s \<Longrightarrow> owned s cs g \<Longrightarrow> g \<notin> free_pages s"
  using owned_held [of s cs g] by (auto simp: held_def)

lemma fresh_owned:
  assumes "heap_inv s bs lost" "frame_use D s s'" "g \<in> free_pages s - free_pages s'"
  shows "owned s' (bs @ lost) g"
proof -
  have inv: "pmm_inv s" using assms(1) by (simp add: heap_inv_def)
  have "page_span g \<inter> b_span b = {}" if "b \<in> set (bs @ lost)" for b
    using heap_inv_block(1) [OF assms(1), of b g] that assms(3) page_nspan [OF free_pages_bound [OF inv, of g]]
    by (auto simp: b_end_def)
  then show ?thesis
    unfolding owned_iff [OF frame_useD(2) [OF assms(2)]] using frame_use_held(2) [OF assms(2) inv assms(3)] by blast
qed

text \<open>The parts of a step that adds process \<open>p\<close> put together.\<close>

lemma procs_inv_add:
  assumes inv: "procs_inv s bs lost d ps" and pres: "preserves s (bs @ lost) s' (bs' @ lost') {} {}"
    and heap: "heap_inv s' bs' lost'" and k: "kernel_page_dir s' = kernel_page_dir s"
    and p: "p \<notin> set ps" "p \<noteq> 0" "proc_ok s' (bs' @ lost') d p"
      "\<And>g. g \<in> private_frames (mem s') (pd_of (mem s') p) \<Longrightarrow> \<not> owned s (bs @ lost) g"
    and links: "process_list s' = p" "pfield (mem s') p P_NEXT = process_list s" "current_process s' = current_process s"
  shows "procs_inv s' bs' lost' d (p # ps)"
proof -
  have kern: "kernel_ok s (bs @ lost) d" using inv by (simp add: procs_inv_def)
  have old: "proc_ok s (bs @ lost) d q" if "q \<in> set ps" for q using inv that by (simp add: procs_inv_def)
  note keep = proc_ok_keep [OF pres kern old k Int_empty_left Int_empty_left]
  have nxt: "pfield (mem s') q P_NEXT = pfield (mem s) q P_NEXT" if "q \<in> set ps" for q
    by (rule keep(2) [OF that]) simp_all
  have "proc_path (mem s') (process_list s) ps"
    by (rule proc_path_cong [OF _ nxt]) (use inv in \<open>simp_all add: procs_inv_def\<close>)
  moreover have priv: "private_frames (mem s') (pd_of (mem s') q) = private_frames (mem s) (pd_of (mem s) q)"
    if "q \<in> set ps" for q by (rule keep(3) [OF that]) simp_all
  moreover have "private_frames (mem s') (pd_of (mem s') p) \<inter> private_frames (mem s') (pd_of (mem s') q) = {}"
    if "q \<in> set ps" for q
  proof -
    have "owned s (bs @ lost) g" if "g \<in> private_frames (mem s) (pd_of (mem s) q)" for g
      using old [OF \<open>q \<in> set ps\<close>] that by (auto simp: proc_ok_def own_space_def)
    then show ?thesis unfolding priv [OF that] using p(4) by blast
  qed
  moreover have "proc_ok s' (bs' @ lost') d q" if "q \<in> set ps" for q by (rule keep(1) [OF that]) simp_all
  moreover have "kernel_ok s' (bs' @ lost') d" by (rule kernel_ok_keep(1) [OF pres kern _ k]) simp
  ultimately show ?thesis
    using inv heap p(1-3) links unfolding procs_inv_def by (auto simp: Int_commute)
qed

section \<open>Changing one process's address space\<close>

text \<open>A space that grows by fresh frames stays the process's own.\<close>

lemma own_space_grow:
  assumes heap: "heap_inv s bs lost" and use: "frame_use D s s'"
    and pres: "preserves s (bs @ lost) s' (bs @ lost) D {}"
    and old: "own_space s (bs @ lost) d e"
    and kern: "kernel_ok s (bs @ lost) d" "space_frames (mem s') d = space_frames (mem s) d"
      "\<And>i. i < 1024 \<Longrightarrow> entry (mem s') (page_addr d) i = entry (mem s) (page_addr d) i"
    and space: "space_inv s' e" "pages_apart s' e"
    and half: "\<And>i. 768 \<le> i \<Longrightarrow> i < 1024 \<Longrightarrow> entry (mem s') (page_addr e) i = entry (mem s) (page_addr e) i"
    and mine: "private_frames (mem s') e \<subseteq> private_frames (mem s) e \<union> (free_pages s - free_pages s')"
  shows "own_space s' (bs @ lost) d e"
  unfolding own_space_def
proof (intro conjI ballI allI impI)
  have pinv: "pmm_inv s" using heap by (simp add: heap_inv_def)
  fix g assume g: "g \<in> private_frames (mem s') e"
  show "owned s' (bs @ lost) g"
    using g mine old preservesD(2) [OF pres] fresh_owned [OF heap use] unfolding own_space_def by blast
  show "g \<notin> space_frames (mem s') d"
    using g mine old owned_not_free [OF pinv] kern(1) unfolding kern(2) own_space_def kernel_ok_def by blast
next
  fix i assume i: "768 \<le> i" "i < (1024 :: nat)"
  then show "entry (mem s') (page_addr e) i = entry (mem s') (page_addr d) i"
    using half [OF i] kern(3) [OF i(2)] old by (simp add: own_space_def)
qed (use space in \<open>auto simp: pages_apart_def\<close>)

text \<open>A step that writes frames of process \<open>p\<close> and gives it fresh ones.\<close>

lemma procs_inv_change:
  assumes inv: "procs_inv s bs lost d ps" and p: "p \<in> set ps" and use: "frame_use D s s'"
    and D: "D \<subseteq> private_frames (mem s) (pd_of (mem s) p)"
    and space: "space_inv s' (pd_of (mem s) p)" "pages_apart s' (pd_of (mem s) p)"
    and half: "\<And>i. 768 \<le> i \<Longrightarrow> i < 1024 \<Longrightarrow> entry (mem s') (page_addr (pd_of (mem s) p)) i = entry (mem s) (page_addr (pd_of (mem s) p)) i"
    and priv: "user_frames (mem s') (pd_of (mem s) p) \<subseteq> user_frames (mem s) (pd_of (mem s) p) \<union> (free_pages s - free_pages s')"
    and same: "kernel_page_dir s' = kernel_page_dir s" "process_list s' = process_list s" "current_process s' = current_process s"
  shows "procs_inv s' bs lost d ps" "preserves s (bs @ lost) s' (bs @ lost) D {}"
    "q \<in> set ps \<Longrightarrow> field_offset off \<Longrightarrow> pfield (mem s') q off = pfield (mem s) q off"
    "mmu_walk (mem s') (page_addr d) v = mmu_walk (mem s) (page_addr d) v"
    "q \<in> set ps \<Longrightarrow> q \<noteq> p \<Longrightarrow> mmu_walk (mem s') (page_addr (pd_of (mem s') q)) v = mmu_walk (mem s) (page_addr (pd_of (mem s) q)) v"
proof -
  let ?cs = "bs @ lost" and ?Q = "pd_of (mem s) p"
  have heap: "heap_inv s bs lost" and kern: "kernel_ok s ?cs d" and ok: "\<And>q. q \<in> set ps \<Longrightarrow> proc_ok s ?cs d q"
    and iso: "\<And>q r. q \<in> set ps \<Longrightarrow> r \<in> set ps \<Longrightarrow> q \<noteq> r \<Longrightarrow>
      private_frames (mem s) (pd_of (mem s) q) \<inter> private_frames (mem s) (pd_of (mem s) r) = {}"
    using inv by (auto simp: procs_inv_def)
  have pinv: "pmm_inv s" using heap by (simp add: heap_inv_def)
  have own: "owned s ?cs g" "g \<notin> space_frames (mem s) d" if "g \<in> private_frames (mem s) (pd_of (mem s) q)" "q \<in> set ps" for g q
    using ok [OF that(2)] that(1) by (auto simp: proc_ok_def own_space_def)
  have "owned s ?cs g" if "g \<in> D" for g using own(1) [of g p] that D p by blast
  note pu = preserves_use [OF heap use this]
  show pres: "preserves s ?cs s' ?cs D {}" by (rule pu(1))
  have Dk: "D \<inter> space_frames (mem s) d = {}" using D own(2) p by blast
  note K = kernel_ok_keep [OF pres kern Dk same(1)]
  show "mmu_walk (mem s') (page_addr d) v = mmu_walk (mem s) (page_addr d) v" by (rule K(4))
  have fields: "pfield (mem s') q off = pfield (mem s) q off" if "q \<in> set ps" "field_offset off" for q off
  proof -
    have "proc_ok s ?cs d q" by (rule ok [OF that(1)])
    then obtain b where b: "proc_block ?cs q b" by (auto simp: proc_ok_def)
    show ?thesis
      using b proc_block_span(2) [OF b]
      by (intro pfield_cong [OF proc_block_span(1) [OF b] that(2)] preservesD(5) [OF pres, of b]) (auto simp: proc_block_def)
  qed
  then show "q \<in> set ps \<Longrightarrow> field_offset off \<Longrightarrow> pfield (mem s') q off = pfield (mem s) q off" .
  have pd: "pd_of (mem s') q = pd_of (mem s) q" if "q \<in> set ps" for q using fields [OF that] by simp
  have Dq: "D \<inter> private_frames (mem s) (pd_of (mem s) q) = {}" if "q \<in> set ps" "q \<noteq> p" for q
    using D iso [OF p that(1)] that(2) by blast
  have keep: "proc_ok s' ?cs d q" "private_frames (mem s') (pd_of (mem s') q) = private_frames (mem s) (pd_of (mem s) q)"
    "mmu_walk (mem s') (page_addr (pd_of (mem s') q)) v = mmu_walk (mem s) (page_addr (pd_of (mem s) q)) v"
    if "q \<in> set ps" "q \<noteq> p" for q v
    using proc_ok_keep(1,3,4) [OF pres kern ok [OF that(1)] same(1) Dk Dq [OF that]] by simp_all
  then show "q \<in> set ps \<Longrightarrow> q \<noteq> p \<Longrightarrow>
      mmu_walk (mem s') (page_addr (pd_of (mem s') q)) v = mmu_walk (mem s) (page_addr (pd_of (mem s) q)) v" by blast
  have mine: "private_frames (mem s') ?Q \<subseteq> private_frames (mem s) ?Q \<union> (free_pages s - free_pages s')"
    using priv by (auto simp: private_frames_def)
  have frees: "\<not> owned s ?cs g" if "g \<in> free_pages s" for g using owned_not_free [OF pinv] that by blast
  have "own_space s ?cs d ?Q" using ok [OF p] by (simp add: proc_ok_def)
  then have "own_space s' ?cs d ?Q"
    by (rule own_space_grow [OF heap use pres _ kern K(2,3) space half mine])
  then have "proc_ok s' ?cs d p"
    using ok [OF p] fields [OF p] pd [OF p] unfolding proc_ok_def by simp
  then have all: "proc_ok s' ?cs d q" if "q \<in> set ps" for q using keep(1) [OF that] by (cases "q = p") auto
  have dis: "private_frames (mem s') (pd_of (mem s') p) \<inter> private_frames (mem s') (pd_of (mem s') q) = {}"
    if "q \<in> set ps" "q \<noteq> p" for q
    using mine iso [OF p that(1)] that(2) own(1) [OF _ that(1)] frees
    unfolding pd [OF p] keep(2) [OF that] by blast
  then have "private_frames (mem s') (pd_of (mem s') q) \<inter> private_frames (mem s') (pd_of (mem s') r) = {}"
    if "q \<in> set ps" "r \<in> set ps" "q \<noteq> r" for q r
    using that keep(2) iso [OF that] by (cases "q = p"; cases "r = p") (simp_all add: Int_commute)
  moreover have "proc_path (mem s') (process_list s') ps"
    unfolding same by (rule proc_path_cong [of "mem s"]) (use inv fields in \<open>simp_all add: procs_inv_def\<close>)
  ultimately show "procs_inv s' bs lost d ps"
    using inv pu(2) K(1) all same unfolding procs_inv_def by simp
qed

end
