(* ===== verification/ProcUse.thy ===== *)
theory ProcUse
  imports ProcInv
begin

text \<open>
  What \<open>create_process\<close> does to the process list: the code in its three parts, the
  address space it fills, and the new process as the invariant sees it.  The last section
  starts the invariant, with no process, from a heap set up after paging.
\<close>

section \<open>\<open>create_process\<close> in its three parts\<close>

definition start_process :: "u32 \<Rightarrow> u32 \<Rightarrow> 'a proc_state_scheme \<Rightarrow> 'a proc_state_scheme" where
  "start_process p eip s =
     (let s = set_pfield p P_PID (next_pid s) s;
          s = s\<lparr>next_pid := next_pid s + 1\<rparr>
      in set_pfield p P_EIP eip s)"

definition fill_space :: "u32 \<Rightarrow> 'a proc_state_scheme \<Rightarrow> 'a proc_state_scheme" where
  "fill_space p s =
     (let s = s\<lparr>mem := memset (mem s) (pfield (mem s) p P_PAGE_DIR) 0 PAGE_SIZE\<rparr>;
          s = clone_kernel_space (pfield (mem s) p P_PAGE_DIR) s;
          (stack_phys, s) = pmm_alloc_page s;
          s = map_page (pfield (mem s) p P_PAGE_DIR) 0xBFF000 stack_phys (PAGE_RW OR PAGE_USER OR PAGE_PRESENT) s
      in s\<lparr>mem := memset (mem s) stack_phys 0 PAGE_SIZE\<rparr>)"

definition finish_process :: "u32 \<Rightarrow> 'a proc_state_scheme \<Rightarrow> 'a proc_state_scheme" where
  "finish_process p s =
     (let s = set_pfield p P_ESP (0xBFF000 + PAGE_SIZE - 16) s;
          s = set_pfield p P_EBP (pfield (mem s) p P_ESP) s;
          s = set_pfield p P_EFLAGS 0x202 s;
          s = set_pfield p P_STATUS (status_code READY) s;
          s = set_pfield p P_NEXT (process_list s) s
      in s\<lparr>process_list := p\<rparr>)"

lemma create_process_parts:
  "create_process eip esp ebp s = do {
     (p, s) \<leftarrow> malloc sizeof_process s;
     let (frame, s) = pmm_alloc_page (start_process p eip s);
     let s = set_pfield p P_PAGE_DIR_PHYS frame s;
     let s = set_pfield p P_PAGE_DIR (pfield (mem s) p P_PAGE_DIR_PHYS) s;
     Some (p, finish_process p (fill_space p s))
   }"
  by (simp add: create_process_def start_process_def fill_space_def finish_process_def Let_def case_prod_beta)

lemma start_process_eq:
  "\<exists>m. start_process p eip s = s\<lparr>mem := m, next_pid := next_pid s + 1\<rparr> \<and>
     m = wr32 (wr32 (mem s) p (next_pid s)) (p + 4) eip"
  by (cases s) (simp add: start_process_def set_pfield_def Let_def)

lemma finish_process_eq:
  "\<exists>m. finish_process p s = s\<lparr>mem := m, process_list := p\<rparr> \<and>
     m = wr32 (wr32 (wr32 (wr32 (wr32 (mem s) (p + 8) 0xBFFFF0) (p + 12) 0xBFFFF0) (p + 28) 0x202) (p + 24) 0)
       (p + 32) (process_list s)"
  by (cases s) (simp add: finish_process_def set_pfield_def pfield_def status_code_def Let_def)

section \<open>A new address space\<close>

lemma clone_result:
  assumes "kernel_page_dir s = page_addr d" "d < 2 ^ 20" "e < 2 ^ 20" "d \<noteq> e"
  shows "\<exists>m'. clone_kernel_space (page_addr e) s = s\<lparr>mem := m'\<rparr> \<and> only_changes (page_span e) (mem s) m' \<and>
    (\<forall>i < 1024. entry m' (page_addr e) i = entry (mem s) (page_addr (if KERNEL_PD_INDEX \<le> i then d else e)) i)"
proof -
  let ?m = "fold (\<lambda>i m. set_entry (page_addr e) i (entry m (page_addr d) i) m) [768..<1024] (mem s)"
  have "clone_kernel_space (page_addr e) s = s\<lparr>mem := ?m\<rparr>"
    by (simp add: clone_kernel_space_def assms(1) del: of_nat_mult upt_rec_numeral upt_Suc)
  then show ?thesis
    using clone_entries [OF assms(2-4), of 1024 768 "mem s"]
    by (intro exI [of _ ?m]) (simp del: of_nat_mult upt_rec_numeral upt_Suc)
qed

lemma clone_space:
  fixes s :: "'a paging_state_scheme"
  assumes inv: "space_inv s d" "kernel_page_dir s = page_addr d" and e: "held s e" "e \<notin> space_frames (mem s) d"
    and s1: "s1 = s\<lparr>mem := memset (mem s) (page_addr e) 0 PAGE_SIZE\<rparr>"
  obtains s2 where "clone_kernel_space (page_addr e) s1 = s2" "frame_use {e} s s1" "frame_use {e} s s2" "space_inv s2 e"
    "free_pages s2 = free_pages s" "kernel_page_dir s2 = kernel_page_dir s"
    "\<And>i. i < 1024 \<Longrightarrow> entry (mem s2) (page_addr e) i = (if 768 \<le> i then entry (mem s) (page_addr d) i else 0)"
    "\<And>v. mmu_walk (mem s2) (page_addr e) v = (if 768 \<le> pdi v then mmu_walk (mem s) (page_addr d) v else None)"
proof -
  have b: "d < 2 ^ 20" "e < 2 ^ 20" "d \<noteq> e" using inv(1) e by (auto simp: space_inv_held held_def space_frames_def)
  have pinv: "pmm_inv s" and hd: "held s d" using inv(1) by (auto simp: space_inv_held)
  note ms = memset_page [OF b(2), where m = "mem s"]
  have u1: "frame_use {e} s s1" "free_pages s1 = free_pages s"
    unfolding s1 by (rule frame_use_write [OF pinv e(1) ms(1)])+
  have k1: "kernel_page_dir s1 = page_addr d" by (simp add: s1 inv(2))
  obtain m2 where m2: "clone_kernel_space (page_addr e) s1 = s1\<lparr>mem := m2\<rparr>" "only_changes (page_span e) (mem s1) m2"
    "\<And>i. i < 1024 \<Longrightarrow> entry m2 (page_addr e) i = entry (mem s1) (page_addr (if 768 \<le> i then d else e)) i"
    using clone_result [OF k1 b] by blast
  let ?s2 = "s1\<lparr>mem := m2\<rparr>"
  have u2: "frame_use {e} s1 ?s2" "free_pages ?s2 = free_pages s1"
    by (rule frame_use_write [OF frame_useD(2) [OF u1(1)] frame_use_held(1) [OF u1(1) e(1)] m2(2)])+
  have use: "frame_use {e} s ?s2" by (rule frame_use_trans [OF u1(1) u2(1)]) blast
  have e20: "{e} \<subseteq> {..<2 ^ 20}" using b(2) by simp
  have ent: "entry (mem ?s2) (page_addr e) i = (if 768 \<le> i then entry (mem s) (page_addr d) i else 0)" if "i < 1024" for i
  proof -
    have "entry (mem s1) (page_addr d) i = entry (mem s) (page_addr d) i"
      by (rule frame_use_keeps(2) [OF u1(1) hd _ e20 pinv that]) (use b(3) in simp)
    moreover have "entry (mem s1) (page_addr e) i = 0" using ms(2) [OF that] by (simp add: s1 del: of_nat_mult)
    ultimately show ?thesis using m2(3) [OF that] by simp
  qed
  have pr: "present (mem ?s2) e i \<longleftrightarrow> 768 \<le> i \<and> present (mem s) d i" if "i < 1024" for i
    unfolding present_def ent [OF that] by simp
  have tb: "table_of (mem ?s2) e i = table_of (mem s) d i" if "i < 1024" "768 \<le> i" for i
    unfolding table_of_def ent [OF that(1)] using that(2) by simp
  have inv2: "space_inv ?s2 e"
    using inv(1) frame_useD(2) [OF use] frame_use_held(1) [OF use] e pr tb
    unfolding space_inv_held [of ?s2] space_inv_held [of s] space_frames_def by auto
  have walk: "mmu_walk (mem ?s2) (page_addr e) v = (if 768 \<le> pdi v then mmu_walk (mem s) (page_addr d) v else None)" for v
  proof (cases "768 \<le> pdi v \<and> present (mem s) d (pdi v)")
    case True
    let ?g = "table_of (mem s) d (pdi v)"
    have "?g \<in> space_frames (mem s) d" using True pdi_bound by (auto simp: space_frames_def)
    moreover from this have "?g \<notin> {e}" using e(2) by blast
    ultimately have "entry (mem ?s2) (page_addr ?g) (pti v) = entry (mem s) (page_addr ?g) (pti v)"
      using frame_use_keeps(2) [OF use space_frames_held [OF inv(1)] _ e20 pinv pti_bound] by blast
    then show ?thesis using True pr [OF pdi_bound] tb [OF pdi_bound]
      by (simp add: mmu_walk_pte pte_at_def del: of_nat_mult)
  next
    case False
    then show ?thesis using pr [OF pdi_bound, of v] by (auto simp: mmu_walk_pte simp del: of_nat_mult)
  qed
  show thesis using that [OF m2(1) u1(1) use inv2 _ _ ent walk] u1(2) u2(2) by (simp add: s1)
qed

text \<open>The stack page, 0xBFF000, and the translation of a new process.\<close>

abbreviation new_walk :: "memory \<Rightarrow> nat \<Rightarrow> nat \<Rightarrow> u32 \<Rightarrow> u32 option" where
  "new_walk m d f v \<equiv> (if drop_bit 12 v = 0xBFF then Some (page_addr f OR (v AND 0xFFF))
     else if 768 \<le> pdi v then mmu_walk m (page_addr d) v else None)"

lemma new_walk_pages:
  assumes "\<And>v. mmu_walk m' (page_addr e) v = new_walk m d f v" "f < 2 ^ 20"
  shows "page_frames m' e \<subseteq> {f}"
  unfolding page_frames_walk using assms page_offset(3) [OF assms(2)] by (auto simp del: of_nat_mult split: if_splits)

lemma new_walk_private:
  assumes walk: "\<And>v. mmu_walk m' (page_addr e) v = new_walk m d f v" and f: "f < 2 ^ 20" "f \<in> F"
    and tables: "\<And>i. i < 768 \<Longrightarrow> present m' e i \<Longrightarrow> table_of m' e i \<in> F"
  shows "user_frames m' e \<subseteq> F"
  using new_walk_pages [OF walk f(1)] f(2) tables unfolding user_frames_def by blast

text \<open>The stack page: a fresh frame at 0xBFF000, and zeros in it.\<close>

abbreviation stack_flags :: u32 where
  "stack_flags \<equiv> PAGE_RW OR PAGE_USER OR PAGE_PRESENT"

lemma stack_mapped:
  fixes s :: "'a paging_state_scheme"
  assumes sp: "space_inv s e" and np: "\<not> present (mem s) e 2" and room: "2 \<le> card (free_pages s)"
  obtains f g s1 s2 where "pmm_alloc_page s = (page_addr f, s1)" "map_page (page_addr e) 0xBFF000 (page_addr f) stack_flags s1 = s2"
    "frame_use {} s s1" "frame_use {e} s s2" "space_inv s2 e" "f < 2 ^ 20" "held s2 f" "f \<in> free_pages s" "g \<in> free_pages s" "g \<noteq> f"
    "free_pages s2 = free_pages s - {f} - {g}" "f \<notin> space_frames (mem s2) e" "table_of (mem s2) e 2 = g"
    "\<And>i. i < 1024 \<Longrightarrow> present (mem s2) e i \<longleftrightarrow> i = 2 \<or> present (mem s) e i"
    "\<And>i. i < 1024 \<Longrightarrow> i \<noteq> 2 \<Longrightarrow> entry (mem s2) (page_addr e) i = entry (mem s) (page_addr e) i"
    "\<And>v. mmu_walk (mem s2) (page_addr e) v =
       (if drop_bit 12 v = 0xBFF then Some (page_addr f OR (v AND 0xFFF)) else mmu_walk (mem s) (page_addr e) v)"
proof -
  have pinv: "pmm_inv s" and he: "held s e" and ne: "free_pages s \<noteq> {}" using sp room by (auto simp: space_inv_held)
  let ?f = "Min (free_pages s)"
  obtain s1 where s1: "pmm_alloc_page s = (page_addr ?f, s1)" "frame_use {} s s1"
    "free_pages s1 = free_pages s - {?f}" "?f \<in> free_pages s" "held s1 ?f" "card (free_pages s) = Suc (card (free_pages s1))"
    by (rule frame_use_alloc [OF pinv ne])
  have f20: "?f < 2 ^ 20" and fe: "?f \<noteq> e" using s1(4,5) he by (auto simp: held_def)
  note sp1 = frame_use_space [OF s1(2) sp Int_empty_left empty_subsetI]
  have pt1: "present (mem s1) e i = present (mem s) e i" if "i < 1024" for i using present_cong [OF sp1(2) [OF that]] .
  have idx: "pdi 0xBFF000 = 2" "drop_bit 12 (0xBFF000 :: u32) = 0xBFF" by (simp_all add: drop_bit_eq_div)
  have np1: "\<not> present (mem s1) e 2" using pt1 [of 2] np by simp
  have ne1: "free_pages s1 \<noteq> {}" using room s1(6) by auto
  let ?t = "Min (free_pages s1)"
  have t: "?t \<in> free_pages s1" using ne1 by (intro Min_in) auto
  obtain s2 where s2: "map_page (page_addr e) 0xBFF000 (page_addr ?f) stack_flags s1 = s2" "frame_use {e} s1 s2" "space_inv s2 e"
    "free_pages s2 = free_pages s1 - {?t}"
    "\<And>v. mmu_walk (mem s2) (page_addr e) v = (if drop_bit 12 v = drop_bit 12 0xBFF000
        then Some ((page_addr ?f AND 0xFFFFF000) OR (v AND 0xFFF)) else mmu_walk (mem s1) (page_addr e) v)"
    "\<And>i. i < 1024 \<Longrightarrow> present (mem s2) e i \<longleftrightarrow> i = 2 \<or> present (mem s1) e i" "table_of (mem s2) e 2 = ?t"
    "\<And>i. i < 1024 \<Longrightarrow> i \<noteq> 2 \<Longrightarrow> entry (mem s2) (page_addr e) i = entry (mem s1) (page_addr e) i"
    by (rule map_page_use [OF sp1(1) disjI2 [OF ne1], where virt = "0xBFF000" and phys = "page_addr ?f" and flags = stack_flags],
        unfold idx(1) if_not_P [OF np1], rule that, assumption+)
  have use: "frame_use {e} s s2" by (rule frame_use_trans [OF frame_use_mono [OF s1(2)] s2(2)]) auto
  have rest: "entry (mem s2) (page_addr e) i = entry (mem s) (page_addr e) i" if "i < 1024" "i \<noteq> 2" for i
    using s2(8) [OF that] sp1(2) [OF that(1)] by simp
  have pr: "present (mem s2) e i \<longleftrightarrow> i = 2 \<or> present (mem s) e i" if "i < 1024" for i using s2(6) [OF that] pt1 [OF that] by simp
  have tf: "table_of (mem s2) e i \<noteq> ?f" if "i < 1024" "present (mem s2) e i" for i
  proof (cases "i = 2")
    case False
    then have "table_of (mem s2) e i = table_of (mem s) e i" "present (mem s) e i"
      using table_of_cong [OF rest [OF that(1)]] pr [OF that(1)] that(2) by simp_all
    then show ?thesis using sp s1(4) that(1) by (auto simp: space_inv_held held_def)
  qed (use s2(7) t s1(3) in auto)
  have out: "?f \<notin> space_frames (mem s2) e"
  proof
    assume "?f \<in> space_frames (mem s2) e"
    then obtain i where "i < 1024" "present (mem s2) e i" "?f = table_of (mem s2) e i"
      using fe unfolding space_frames_def by blast
    then show False using tf [of i] by simp
  qed
  have walk: "mmu_walk (mem s2) (page_addr e) v =
      (if drop_bit 12 v = 0xBFF then Some (page_addr ?f OR (v AND 0xFFF)) else mmu_walk (mem s) (page_addr e) v)" for v
    unfolding s2(5) sp1(4) idx(2) frame_of_mask frame_of_page [OF f20] ..
  have fr: "free_pages s2 = free_pages s - {?f} - {?t}" "?t \<in> free_pages s" "?t \<noteq> ?f" using s2(4) s1(3) t by auto
  show thesis
    by (rule that [OF s1(1) s2(1) s1(2) use s2(3) f20 frame_use_held(1) [OF s2(2) s1(5)] s1(4) fr(2,3,1) out s2(7) pr rest walk])
qed

lemma stack_page:
  fixes s :: "'a paging_state_scheme"
  assumes sp: "space_inv s e" and np: "\<not> present (mem s) e 2" and room: "2 \<le> card (free_pages s)"
  obtains f s1 s2 s' where "pmm_alloc_page s = (page_addr f, s1)" "map_page (page_addr e) 0xBFF000 (page_addr f) stack_flags s1 = s2"
    "frame_use {} s s1"
    "s' = s2\<lparr>mem := memset (mem s2) (page_addr f) 0 PAGE_SIZE\<rparr>" "frame_use {e} s s'"
    "space_inv s' e" "f < 2 ^ 20" "f \<in> free_pages s - free_pages s'" "card (free_pages s) = card (free_pages s') + 2"
    "\<And>x. x \<in> page_span f \<Longrightarrow> mem s' x = 0" "f \<notin> space_frames (mem s') e"
    "\<And>i. i < 1024 \<Longrightarrow> present (mem s') e i \<longleftrightarrow> i = 2 \<or> present (mem s) e i"
    "table_of (mem s') e 2 \<in> free_pages s - free_pages s'"
    "\<And>i. i < 1024 \<Longrightarrow> i \<noteq> 2 \<Longrightarrow> entry (mem s') (page_addr e) i = entry (mem s) (page_addr e) i"
    "\<And>v. mmu_walk (mem s') (page_addr e) v =
       (if drop_bit 12 v = 0xBFF then Some (page_addr f OR (v AND 0xFFF)) else mmu_walk (mem s) (page_addr e) v)"
proof -
  obtain f g s1 s2 where m: "pmm_alloc_page s = (page_addr f, s1)" "map_page (page_addr e) 0xBFF000 (page_addr f) stack_flags s1 = s2"
    "frame_use {} s s1" "frame_use {e} s s2" "space_inv s2 e" "f < 2 ^ 20" "held s2 f" "f \<in> free_pages s" "g \<in> free_pages s" "g \<noteq> f"
    "free_pages s2 = free_pages s - {f} - {g}" "f \<notin> space_frames (mem s2) e" "table_of (mem s2) e 2 = g"
    "\<And>i. i < 1024 \<Longrightarrow> present (mem s2) e i \<longleftrightarrow> i = 2 \<or> present (mem s) e i"
    "\<And>i. i < 1024 \<Longrightarrow> i \<noteq> 2 \<Longrightarrow> entry (mem s2) (page_addr e) i = entry (mem s) (page_addr e) i"
    "\<And>v. mmu_walk (mem s2) (page_addr e) v =
       (if drop_bit 12 v = 0xBFF then Some (page_addr f OR (v AND 0xFFF)) else mmu_walk (mem s) (page_addr e) v)"
    by (rule stack_mapped [OF sp np room], rule that, assumption+)
  let ?s' = "s2\<lparr>mem := memset (mem s2) (page_addr f) 0 PAGE_SIZE\<rparr>"
  note ms = memset_page [OF m(6), where m = "mem s2"]
  have u: "frame_use {f} s2 ?s'" "free_pages ?s' = free_pages s2"
    by (rule frame_use_write [OF frame_useD(2) [OF m(4)] m(7) ms(1)])+
  have use: "frame_use {e} s ?s'" by (rule frame_use_trans [OF m(4) u(1)]) (use m(8,11) in auto)
  have out: "{f} \<inter> space_frames (mem s2) e = {}" "{f} \<subseteq> {..<2 ^ 20}" using m(6,12) by simp_all
  note sp' = frame_use_space [OF u(1) m(5) out]
  have pt': "present (mem ?s') e i = present (mem s2) e i" "table_of (mem ?s') e i = table_of (mem s2) e i" if "i < 1024" for i
    using present_cong [OF sp'(2) [OF that]] table_of_cong [OF sp'(2) [OF that]] by blast+
  have pr: "present (mem ?s') e i \<longleftrightarrow> i = 2 \<or> present (mem s) e i" if "i < 1024" for i
    using pt'(1) [OF that] m(14) [OF that] by simp
  have rest: "entry (mem ?s') (page_addr e) i = entry (mem s) (page_addr e) i" if "i < 1024" "i \<noteq> 2" for i
    using sp'(2) [OF that(1)] m(15) [OF that] by simp
  have walk: "mmu_walk (mem ?s') (page_addr e) v =
      (if drop_bit 12 v = 0xBFF then Some (page_addr f OR (v AND 0xFFF)) else mmu_walk (mem s) (page_addr e) v)" for v
    unfolding sp'(4) m(16) ..
  have card: "card (free_pages s) = card (free_pages ?s') + 2"
    using m(8-10) room unfolding u(2) m(11) by (simp add: card_Diff_singleton)
  have fin: "f \<in> free_pages s - free_pages ?s'" "f \<notin> space_frames (mem ?s') e"
    "table_of (mem ?s') e 2 \<in> free_pages s - free_pages ?s'"
    using m(8,9,11-13) pt'(2) [of 2] unfolding u(2) sp'(3) by auto
  have zero: "mem ?s' x = 0" if "x \<in> page_span f" for x using ms(3) [OF that] by (simp del: of_nat_mult)
  show thesis
    by (rule that [OF m(1-3) refl use sp'(1) m(6) fin(1) card zero fin(2) pr fin(3) rest walk])
qed

lemma fill_space_result:
  fixes s :: "'a proc_state_scheme"
  assumes inv: "space_inv s d" "kernel_page_dir s = page_addr d" and e: "held s e" "e \<notin> space_frames (mem s) d"
    and room: "2 \<le> card (free_pages s)"
    and rd: "\<And>u :: 'a proc_state_scheme. frame_use {e} s u \<Longrightarrow> pfield (mem u) p P_PAGE_DIR = page_addr e"
  obtains s' f where "fill_space p s = s'" "frame_use {e} s s'" "space_inv s' e" "f \<in> free_pages s - free_pages s'"
    "\<And>i. 768 \<le> i \<Longrightarrow> i < 1024 \<Longrightarrow> entry (mem s') (page_addr e) i = entry (mem s) (page_addr d) i"
    "user_frames (mem s') e \<subseteq> free_pages s - free_pages s'"
    "\<And>v. mmu_walk (mem s') (page_addr e) v = new_walk (mem s) d f v"
    "\<And>x. x \<in> page_span f \<Longrightarrow> mem s' x = 0" "card (free_pages s) = card (free_pages s') + 2"
    "\<And>i. i < 768 \<Longrightarrow> present (mem s') e i \<longleftrightarrow> i = 2" "page_frames (mem s') e \<inter> space_frames (mem s') e = {}"
proof -
  have pinv: "pmm_inv s" using inv(1) by (simp add: space_inv_def)
  define s1 where "s1 = s\<lparr>mem := memset (mem s) (page_addr e) 0 PAGE_SIZE\<rparr>"
  obtain s2 where s2: "clone_kernel_space (page_addr e) s1 = s2" "frame_use {e} s s1" "frame_use {e} s s2" "space_inv s2 e"
    "free_pages s2 = free_pages s" "kernel_page_dir s2 = kernel_page_dir s"
    "\<And>i. i < 1024 \<Longrightarrow> entry (mem s2) (page_addr e) i = (if 768 \<le> i then entry (mem s) (page_addr d) i else 0)"
    "\<And>v. mmu_walk (mem s2) (page_addr e) v = (if 768 \<le> pdi v then mmu_walk (mem s) (page_addr d) v else None)"
    by (rule clone_space [OF inv e s1_def], rule that, assumption+)
  have low: "\<not> present (mem s2) e i" if "i < 768" for i using s2(7) [of i] that by (simp add: present_def)
  have np: "\<not> present (mem s2) e 2" by (rule low) simp
  have room2: "2 \<le> card (free_pages s2)" using room s2(5) by simp
  obtain f s3 s4 s5 where f: "pmm_alloc_page s2 = (page_addr f, s3)" "map_page (page_addr e) 0xBFF000 (page_addr f) stack_flags s3 = s4"
    "frame_use {} s2 s3" "s5 = s4\<lparr>mem := memset (mem s4) (page_addr f) 0 PAGE_SIZE\<rparr>" "frame_use {e} s2 s5"
    "space_inv s5 e" "f < 2 ^ 20" "f \<in> free_pages s2 - free_pages s5" "card (free_pages s2) = card (free_pages s5) + 2"
    "\<And>x. x \<in> page_span f \<Longrightarrow> mem s5 x = 0" "f \<notin> space_frames (mem s5) e"
    "\<And>i. i < 1024 \<Longrightarrow> present (mem s5) e i \<longleftrightarrow> i = 2 \<or> present (mem s2) e i"
    "table_of (mem s5) e 2 \<in> free_pages s2 - free_pages s5"
    "\<And>i. i < 1024 \<Longrightarrow> i \<noteq> 2 \<Longrightarrow> entry (mem s5) (page_addr e) i = entry (mem s2) (page_addr e) i"
    "\<And>v. mmu_walk (mem s5) (page_addr e) v =
       (if drop_bit 12 v = 0xBFF then Some (page_addr f OR (v AND 0xFFF)) else mmu_walk (mem s2) (page_addr e) v)"
    by (rule stack_page [OF s2(4) np room2], rule that, assumption+)
  have use: "frame_use {e} s s5" by (rule frame_use_trans [OF s2(3) f(5)]) simp
  have s23: "frame_use {e} s s3" by (rule frame_use_trans [OF s2(3) f(3)]) simp
  have run: "fill_space p s = s5"
    unfolding fill_space_def Let_def rd [OF frame_use_refl [OF pinv]] s1_def [symmetric] rd [OF s2(2)] s2(1) f(1)
    by (simp only: prod.case rd [OF s23] f(2,4))
  have walk: "mmu_walk (mem s5) (page_addr e) v = new_walk (mem s) d f v" for v unfolding f(15) s2(8) ..
  have pr: "present (mem s5) e i \<longleftrightarrow> i = 2" if "i < 768" for i using f(12) [of i] low [OF that] that by auto
  have fnew: "f \<in> free_pages s - free_pages s5" "card (free_pages s) = card (free_pages s5) + 2"
    using f(8,9) unfolding s2(5) by blast+
  have "user_frames (mem s5) e \<subseteq> free_pages s - free_pages s5"
    by (rule new_walk_private [OF walk f(7) fnew(1)]) (use pr f(13) s2(5) in auto)
  moreover have "page_frames (mem s5) e \<inter> space_frames (mem s5) e = {}"
    using new_walk_pages [OF walk f(7)] f(11) by blast
  moreover have "entry (mem s5) (page_addr e) i = entry (mem s) (page_addr d) i" if "768 \<le> i" "i < 1024" for i
    using that f(14) [of i] s2(7) [of i] by simp
  ultimately show thesis
    by - (rule that [OF run use f(6) fnew(1) _ _ walk f(10) fnew(2) pr]; assumption)
qed

section \<open>\<open>create_process\<close>\<close>

text \<open>Writing the new process's own block.\<close>

lemma write_process:
  assumes "heap_inv s bs lost" "b \<in> set bs" "proc_block (bs @ lost) p b" "only_changes (nspan (unat p) 36) (mem s) m'"
  shows "preserves s (bs @ lost) (s\<lparr>mem := m'\<rparr>) (bs @ lost) {} {b}" "heap_inv (s\<lparr>mem := m'\<rparr>) bs lost"
    "free_pages (s\<lparr>mem := m'\<rparr>) = free_pages s"
  by (rule preserves_block [OF assms(1,2) only_changes_mono [OF assms(4) proc_block_span(2) [OF assms(3)]]])+

text \<open>The block of a new process is none of the live ones.\<close>

lemma apart_self: "\<not> apart b b"
  by (simp add: apart_def b_end_def)

text \<open>The block of the structure: a live block that is nobody's.\<close>

lemma process_block:
  assumes inv: "procs_inv s bs lost d ps" and ne: "free_pages s \<noteq> {}"
  obtains p t bs' lost' b where "malloc sizeof_process s = Some (p, t)" "p \<noteq> 0" "p \<notin> set ps" "b \<in> set bs'"
    "proc_block (bs' @ lost') p b" "\<And>c. c \<in> set (bs @ lost) \<Longrightarrow> b_used c \<Longrightarrow> c \<noteq> b"
    "heap_inv t bs' lost'" "preserves s (bs @ lost) t (bs' @ lost') {} {}" "heap_within s (bs @ lost) t (bs' @ lost')"
    "card (free_pages s) \<le> Suc (card (free_pages t))" "free_pages t \<subseteq> free_pages s"
proof -
  have heap: "heap_inv s bs lost" using inv by (simp add: procs_inv_def)
  have sz: "0 < (36 :: u32)" "unat (36 :: u32) \<le> 4084" by simp_all
  obtain p t bs' lost' b where t: "malloc 36 s = Some (p, t)" "p \<noteq> 0" "heap_inv t bs' lost'"
    "preserves s (bs @ lost) t (bs' @ lost') {} {}" "heap_within s (bs @ lost) t (bs' @ lost')"
    "b \<in> set bs'" "b_used b" "unat p = b_addr b + 12" "unat (36 :: u32) \<le> b_size b"
    "\<And>c. c \<in> set (bs @ lost) \<Longrightarrow> b_used c \<Longrightarrow> apart b c" "card (free_pages s) \<le> Suc (card (free_pages t))"
    "free_pages t \<subseteq> free_pages s"
    by (rule malloc_small [OF heap ne sz], rule that, assumption+)
  have "b_end b \<le> 2 ^ 32" using t(3,6) by (auto simp: heap_inv_def packed_def)
  then have blk: "proc_block (bs' @ lost') p b" using t(6-9) by (simp add: proc_block_def)
  note sp = proc_block_span [OF blk]
  have new: "c \<noteq> b" if "c \<in> set (bs @ lost)" "b_used c" for c using t(10) [OF that] apart_self by blast
  have "p \<notin> set ps"
  proof
    assume "p \<in> set ps"
    then obtain c where c: "proc_block (bs @ lost) p c" using inv by (auto simp: procs_inv_def proc_ok_def)
    then have "apart b c" using t(10) by (simp add: proc_block_def)
    then show False using c blk by (auto simp: proc_block_def apart_def b_end_def)
  qed
  then show thesis by (rule that [OF t(1,2) _ t(6) blk new t(3,4,5,11,12)])
qed

text \<open>The structure with its first two fields.\<close>

lemma started_process:
  assumes inv: "procs_inv s bs lost d ps" and ne: "free_pages s \<noteq> {}"
  obtains p t t1 bs' lost' b where "malloc sizeof_process s = Some (p, t)" "start_process p eip t = t1"
    "p \<noteq> 0" "p \<notin> set ps" "b \<in> set bs'" "proc_block (bs' @ lost') p b" "\<And>c. c \<in> set (bs @ lost) \<Longrightarrow> b_used c \<Longrightarrow> c \<noteq> b"
    "heap_inv t1 bs' lost'" "preserves s (bs @ lost) t1 (bs' @ lost') {} {}"
    "card (free_pages s) \<le> Suc (card (free_pages t1))" "free_pages t1 \<subseteq> free_pages s"
    "pfield (mem t1) p P_PID = next_pid s" "pfield (mem t1) p P_EIP = eip" "next_pid t1 = next_pid s + 1"
    "process_list t1 = process_list s" "current_process t1 = current_process s" "kernel_page_dir t1 = kernel_page_dir s"
proof -
  obtain p t bs' lost' b where t: "malloc sizeof_process s = Some (p, t)" "p \<noteq> 0" "p \<notin> set ps" "b \<in> set bs'"
    "proc_block (bs' @ lost') p b" "\<And>c. c \<in> set (bs @ lost) \<Longrightarrow> b_used c \<Longrightarrow> c \<noteq> b"
    "heap_inv t bs' lost'" "preserves s (bs @ lost) t (bs' @ lost') {} {}" "heap_within s (bs @ lost) t (bs' @ lost')"
    "card (free_pages s) \<le> Suc (card (free_pages t))" "free_pages t \<subseteq> free_pages s"
    by (rule process_block [OF inv ne], rule that, assumption+)
  have tf: "next_pid t = next_pid s" "process_list t = process_list s" "current_process t = current_process s"
    "kernel_page_dir t = kernel_page_dir s"
    using t(9) by (auto simp: heap_within_def)
  obtain m1 where m1: "start_process p eip t = t\<lparr>mem := m1, next_pid := next_pid t + 1\<rparr>"
    "m1 = wr32 (wr32 (mem t) (p + 0) (next_pid t)) (p + 4) eip"
    using start_process_eq [of p eip t] by auto
  have o1: "only_changes (nspan (unat p) 36) (mem t) m1"
    unfolding m1(2) by (intro pfield_writes only_changes_refl proc_block_span(1) [OF t(5)]) simp_all
  note w1 = write_process [OF t(7,4,5) o1]
  let ?t1 = "start_process p eip t"
  have h1: "heap_inv ?t1 bs' lost'" "free_pages ?t1 = free_pages t" using w1(2,3) by (simp_all add: m1(1))
  have p1: "preserves t (bs' @ lost') ?t1 (bs' @ lost') {} {b}" using w1(1) by (simp add: m1(1))
  have pr: "preserves s (bs @ lost) ?t1 (bs' @ lost') {} {}"
    by (rule preserves_trans [OF t(8) p1]) (use t(6) in auto)
  have "pfield (mem ?t1) p P_PID = next_pid s" "pfield (mem ?t1) p P_EIP = eip" "next_pid ?t1 = next_pid s + 1"
    "process_list ?t1 = process_list s" "current_process ?t1 = current_process s" "kernel_page_dir ?t1 = kernel_page_dir s"
    by (simp_all add: m1 pfield_simps tf)
  then show thesis
    by - (rule that [OF t(1) refl t(2-6) h1(1) pr t(10,11) [folded h1(2)]]; assumption)
qed

lemma new_process:
  assumes inv: "procs_inv s bs lost d ps" and room: "4 \<le> card (free_pages s)"
  obtains p t t2 bs' lost' b e where "malloc sizeof_process s = Some (p, t)"
    "pmm_alloc_page (start_process p eip t) = (page_addr e, t2)"
    "p \<noteq> 0" "p \<notin> set ps" "b \<in> set bs'" "proc_block (bs' @ lost') p b" "\<And>c. c \<in> set (bs @ lost) \<Longrightarrow> b_used c \<Longrightarrow> c \<noteq> b"
    "heap_inv t2 bs' lost'" "preserves s (bs @ lost) t2 (bs' @ lost') {} {}"
    "owned t2 (bs' @ lost') e" "e \<in> free_pages s" "\<not> owned s (bs @ lost) e" "2 \<le> card (free_pages t2)"
    "free_pages t2 \<subseteq> free_pages s"
    "pfield (mem t2) p P_PID = next_pid s" "pfield (mem t2) p P_EIP = eip" "next_pid t2 = next_pid s + 1"
    "process_list t2 = process_list s" "current_process t2 = current_process s" "kernel_page_dir t2 = kernel_page_dir s"
    "card (free_pages s) \<le> card (free_pages t2) + 2"
proof -
  have ne: "free_pages s \<noteq> {}" using room by auto
  obtain p t t1 bs' lost' b where t: "malloc sizeof_process s = Some (p, t)" "start_process p eip t = t1"
    "p \<noteq> 0" "p \<notin> set ps" "b \<in> set bs'" "proc_block (bs' @ lost') p b" "\<And>c. c \<in> set (bs @ lost) \<Longrightarrow> b_used c \<Longrightarrow> c \<noteq> b"
    "heap_inv t1 bs' lost'" "preserves s (bs @ lost) t1 (bs' @ lost') {} {}"
    "card (free_pages s) \<le> Suc (card (free_pages t1))" "free_pages t1 \<subseteq> free_pages s"
    "pfield (mem t1) p P_PID = next_pid s" "pfield (mem t1) p P_EIP = eip" "next_pid t1 = next_pid s + 1"
    "process_list t1 = process_list s" "current_process t1 = current_process s" "kernel_page_dir t1 = kernel_page_dir s"
    by (rule started_process [OF inv ne], rule that, assumption+)
  note sp = proc_block_span [OF t(6)]
  have ne1: "free_pages t1 \<noteq> {}" using room t(10) by auto
  let ?e = "Min (free_pages t1)"
  have inv1: "pmm_inv t1" using t(8) by (simp add: heap_inv_def)
  obtain t2 where t2: "pmm_alloc_page t1 = (page_addr ?e, t2)" "frame_use {} t1 t2"
    "free_pages t2 = free_pages t1 - {?e}" "?e \<in> free_pages t1" "held t2 ?e" "card (free_pages t1) = Suc (card (free_pages t2))"
    by (rule frame_use_alloc [OF inv1 ne1])
  have u2: "preserves t1 (bs' @ lost') t2 (bs' @ lost') {} {}" "heap_inv t2 bs' lost'"
    by (rule preserves_use [OF t(8) t2(2)]; simp)+
  have pr: "preserves s (bs @ lost) t2 (bs' @ lost') {} {}" by (rule preserves_trans [OF t(9) u2(1)]) auto
  have own: "owned t2 (bs' @ lost') ?e" by (rule fresh_owned [OF t(8) t2(2)]) (use t2(3,4) in simp)
  have "\<not> owned s (bs @ lost) ?e" using preservesD(2) [OF t(9)] owned_not_free [OF inv1] t2(4) by blast
  moreover have keep: "pfield (mem t2) p off = pfield (mem t1) p off" if "field_offset off" for off
    using sp(2) t(6)
    by (intro pfield_cong [OF sp(1) that] preservesD(5) [OF u2(1), of b]) (auto simp: proc_block_def)
  have "pfield (mem t2) p P_PID = next_pid s" "pfield (mem t2) p P_EIP = eip" by (simp_all add: keep t(12,13))
  moreover have "t2 = t1\<lparr>mem := mem t2\<rparr>" by (rule frame_useD(1) [OF t2(2)])
  then have "next_pid t2 = next_pid t1" "process_list t2 = process_list t1" "current_process t2 = current_process t1"
    "kernel_page_dir t2 = kernel_page_dir t1"
    by (metis proc_state.select_convs proc_state.surjective paging_state.select_convs hw.update_convs(1))+
  then have "next_pid t2 = next_pid s + 1" "process_list t2 = process_list s" "current_process t2 = current_process s"
    "kernel_page_dir t2 = kernel_page_dir s"
    by (simp_all add: t(14-17))
  moreover have "?e \<in> free_pages s" "free_pages t2 \<subseteq> free_pages s" using t(11) t2(3,4) by blast+
  moreover have "2 \<le> card (free_pages t2)" "card (free_pages s) \<le> card (free_pages t2) + 2"
    using t(10) t2(6) room by linarith+
  moreover have "pmm_alloc_page (start_process p eip t) = (page_addr ?e, t2)" unfolding t(2) by (rule t2(1))
  ultimately show thesis
    by - (rule that [OF t(1) _ t(3-7) u2(2) pr own]; assumption)
qed

text \<open>A directory filled with fresh frames is an address space of its own.\<close>

lemma own_space_fresh:
  fixes s t :: "'a paging_state_scheme"
  assumes heap: "heap_inv s bs lost" and use: "frame_use {e} s t" and kern: "kernel_ok s (bs @ lost) d"
    and k: "kernel_page_dir t = kernel_page_dir s" and e: "owned s (bs @ lost) e" "e \<notin> space_frames (mem s) d"
    and t: "space_inv t e" "page_frames (mem t) e \<inter> space_frames (mem t) e = {}"
      "user_frames (mem t) e \<subseteq> free_pages s - free_pages t"
      "\<And>i. 768 \<le> i \<Longrightarrow> i < 1024 \<Longrightarrow> entry (mem t) (page_addr e) i = entry (mem s) (page_addr d) i"
  shows "own_space t (bs @ lost) d e" "preserves s (bs @ lost) t (bs @ lost) {e} {}" "heap_inv t bs lost"
    "private_frames (mem t) e \<subseteq> insert e (free_pages s - free_pages t)"
proof -
  have inv: "pmm_inv s" using heap by (simp add: heap_inv_def)
  have P: "preserves s (bs @ lost) t (bs @ lost) {e} {}" "heap_inv t bs lost"
    by (rule preserves_use [OF heap use]; simp add: e)+
  then show "preserves s (bs @ lost) t (bs @ lost) {e} {}" "heap_inv t bs lost" by blast+
  have ek: "{e} \<inter> space_frames (mem s) d = {}" using e(2) by simp
  note K = kernel_ok_keep [OF P(1) kern ek k]
  have kfree: "g \<notin> free_pages s" if "g \<in> space_frames (mem s) d" for g
    using kern that owned_not_free [OF inv] by (auto simp: kernel_ok_def)
  show priv: "private_frames (mem t) e \<subseteq> insert e (free_pages s - free_pages t)"
    using t(3) by (auto simp: private_frames_def)
  show "own_space t (bs @ lost) d e"
    unfolding own_space_def
  proof (intro conjI ballI allI impI)
    fix g assume g: "g \<in> private_frames (mem t) e"
    show "owned t (bs @ lost) g" using g priv preservesD(2) [OF P(1) e(1)] fresh_owned [OF heap use] by blast
    show "g \<notin> space_frames (mem t) d" using g priv kfree e(2) unfolding K(2) by blast
  next
    fix i assume "768 \<le> i" "i < (1024 :: nat)"
    then show "entry (mem t) (page_addr e) i = entry (mem t) (page_addr d) i" using t(4) K(3) by simp
  qed (use t(1,2) in simp_all)
qed

text \<open>The directory fields, and the address space behind them.\<close>

lemma filled_space:
  fixes s t2 :: "'a proc_state_scheme"
  assumes inv: "procs_inv s bs lost d ps" and pres: "preserves s (bs @ lost) t2 (bs' @ lost') {} {}"
    and heap: "heap_inv t2 bs' lost'" and b: "b \<in> set bs'" "proc_block (bs' @ lost') p b"
    and e: "owned t2 (bs' @ lost') e" "\<not> owned s (bs @ lost) e" and room: "2 \<le> card (free_pages t2)"
    and k: "kernel_page_dir t2 = kernel_page_dir s" and sub: "free_pages t2 \<subseteq> free_pages s"
    and new: "\<And>c. c \<in> set (bs @ lost) \<Longrightarrow> b_used c \<Longrightarrow> c \<noteq> b"
    and t3: "t3 = set_pfield p P_PAGE_DIR (page_addr e) (set_pfield p P_PAGE_DIR_PHYS (page_addr e) t2)"
  obtains s4 f where "fill_space p t3 = s4" "s4 = t2\<lparr>mem := mem s4\<rparr>" "heap_inv s4 bs' lost'"
    "preserves s (bs @ lost) s4 (bs' @ lost') {} {}"
    "own_space s4 (bs' @ lost') d e" "f \<in> free_pages s - free_pages s4" "owned s4 (bs' @ lost') f"
    "\<And>g. g \<in> private_frames (mem s4) e \<Longrightarrow> \<not> owned s (bs @ lost) g"
    "\<And>v. mmu_walk (mem s4) (page_addr e) v = new_walk (mem s) d f v" "\<And>x. x \<in> page_span f \<Longrightarrow> mem s4 x = 0"
    "card (free_pages t2) = card (free_pages s4) + 2" "free_pages s4 \<subseteq> free_pages t2"
    "pfield (mem s4) p P_PAGE_DIR = page_addr e" "pfield (mem s4) p P_PAGE_DIR_PHYS = page_addr e"
    "pfield (mem s4) p P_PID = pfield (mem t2) p P_PID" "pfield (mem s4) p P_EIP = pfield (mem t2) p P_EIP"
    "\<And>i. i < 768 \<Longrightarrow> present (mem s4) e i \<longleftrightarrow> i = 2"
proof -
  note sp = proc_block_span [OF b(2)]
  have sinv: "pmm_inv s" and kern: "kernel_ok s (bs @ lost) d" using inv by (auto simp: procs_inv_def heap_inv_def)
  let ?m3 = "wr32 (wr32 (mem t2) (p + 20) (page_addr e)) (p + 16) (page_addr e)"
  have t3m: "t3 = t2\<lparr>mem := ?m3\<rparr>" by (simp add: t3 set_pfield_def)
  have o3: "only_changes (nspan (unat p) 36) (mem t2) ?m3"
    by (intro pfield_writes only_changes_refl sp(1)) simp_all
  note w3 = write_process [OF heap b o3, folded t3m]
  have p3: "preserves s (bs @ lost) t3 (bs' @ lost') {} {}"
    by (rule preserves_trans [OF pres w3(1)]) (use new in auto)
  have k3: "kernel_page_dir t3 = kernel_page_dir s" using k by (simp add: t3m)
  note K3 = kernel_ok_keep [OF p3 kern Int_empty_left k3]
  have inv3: "pmm_inv t3" using w3(2) by (simp add: heap_inv_def)
  have e3: "owned t3 (bs' @ lost') e" by (rule preservesD(2) [OF w3(1) e(1)])
  have ekern: "e \<notin> space_frames (mem t3) d" using e(2) kern unfolding K3(2) kernel_ok_def by blast
  have sd: "space_inv t3 d" "kernel_page_dir t3 = page_addr d" using K3(1) by (auto simp: kernel_ok_def)
  have de: "e' = e \<Longrightarrow> owned t3 (bs' @ lost') e'" for e' using e3 by simp
  have same: "pfield (mem u) p off = pfield ?m3 p off" if "frame_use {e} t3 u" "field_offset off" for u :: "'a proc_state_scheme" and off
  proof (rule pfield_cong [OF sp(1) that(2)])
    fix x assume "x \<in> nspan (unat p) 36"
    then have "mem u x = mem t3 x"
      using sp(2) b(2) by (intro preservesD(5) [OF preserves_use(1) [OF w3(2) that(1)]]) (auto simp: proc_block_def de)
    then show "mem u x = ?m3 x" by (simp add: t3m)
  qed
  have f3: "pfield ?m3 p P_PAGE_DIR = page_addr e" "pfield ?m3 p P_PAGE_DIR_PHYS = page_addr e"
    "pfield ?m3 p P_PID = pfield (mem t2) p P_PID" "pfield ?m3 p P_EIP = pfield (mem t2) p P_EIP"
    by (simp_all add: pfield_simps del: of_nat_mult)
  have rd: "pfield (mem u) p P_PAGE_DIR = page_addr e" if "frame_use {e} t3 u" for u :: "'a proc_state_scheme"
    using same [OF that, of P_PAGE_DIR] f3(1) by simp
  have room3: "2 \<le> card (free_pages t3)" using room w3(3) by simp
  obtain s4 f where s4: "fill_space p t3 = s4" "frame_use {e} t3 s4" "space_inv s4 e" "f \<in> free_pages t3 - free_pages s4"
    "\<And>i. 768 \<le> i \<Longrightarrow> i < 1024 \<Longrightarrow> entry (mem s4) (page_addr e) i = entry (mem t3) (page_addr d) i"
    "user_frames (mem s4) e \<subseteq> free_pages t3 - free_pages s4"
    "\<And>v. mmu_walk (mem s4) (page_addr e) v = new_walk (mem t3) d f v"
    "\<And>x. x \<in> page_span f \<Longrightarrow> mem s4 x = 0" "card (free_pages t3) = card (free_pages s4) + 2"
    "\<And>i. i < 768 \<Longrightarrow> present (mem s4) e i \<longleftrightarrow> i = 2" "page_frames (mem s4) e \<inter> space_frames (mem s4) e = {}"
    by (rule fill_space_result [OF sd owned_held [OF inv3 e3] ekern room3 rd], assumption, rule that, assumption+)
  have s4m: "s4 = t2\<lparr>mem := mem s4\<rparr>"
  proof -
    have "s4 = t3\<lparr>mem := mem s4\<rparr>" by (rule frame_useD(1) [OF s4(2)])
    then show ?thesis unfolding t3m by (metis hw.update_convs(1) hw.surjective)
  qed
  have k4: "kernel_page_dir s4 = kernel_page_dir t3" by (subst s4m) (simp add: t3m)
  note O = own_space_fresh [OF w3(2) s4(2) K3(1) k4 e3 ekern s4(3,11,6,5)]
  have pr4: "preserves s (bs @ lost) s4 (bs' @ lost') {} {}"
    by (rule preserves_trans [OF p3 O(2)]) (use e(2) in auto)
  note O(1)
  moreover have "\<not> owned s (bs @ lost) g" if "g \<in> private_frames (mem s4) e" for g
    using that O(4) e(2) owned_not_free [OF sinv] sub w3(3) by blast
  moreover have "mmu_walk (mem s4) (page_addr e) v = new_walk (mem s) d f v" for v using s4(7) K3(4) by simp
  moreover have "owned s4 (bs' @ lost') f" using fresh_owned [OF w3(2) s4(2)] s4(4) by blast
  moreover note rd [OF s4(2)]
  moreover have "pfield (mem s4) p P_PAGE_DIR_PHYS = page_addr e" "pfield (mem s4) p P_PID = pfield (mem t2) p P_PID"
    "pfield (mem s4) p P_EIP = pfield (mem t2) p P_EIP"
    using same [OF s4(2), of P_PAGE_DIR_PHYS] same [OF s4(2), of P_PID] same [OF s4(2), of P_EIP] f3 by simp_all
  moreover have "f \<in> free_pages s - free_pages s4" "card (free_pages t2) = card (free_pages s4) + 2" "free_pages s4 \<subseteq> free_pages t2"
    using s4(4,9) w3(3) sub frame_useD(3) [OF s4(2)] by auto
  ultimately show thesis
    by - (rule that [OF s4(1) s4m O(3) pr4 _ _ _ _ _ s4(8) _ _ _ _ _ _ s4(10)]; assumption)
qed

text \<open>The last fields: the process enters the list, and its address space stays.\<close>

lemma finish_process_result:
  fixes s :: "'a proc_state_scheme"
  assumes heap: "heap_inv s bs lost" and b: "b \<in> set bs" "proc_block (bs @ lost) p b" and kern: "kernel_ok s (bs @ lost) d"
    and own: "own_space s (bs @ lost) d e"
    and dir: "pfield (mem s) p P_PAGE_DIR = page_addr e" "pfield (mem s) p P_PAGE_DIR_PHYS = page_addr e"
  defines "t \<equiv> finish_process p s"
  shows "heap_inv t bs lost" "free_pages t = free_pages s" "preserves s (bs @ lost) t (bs @ lost) {} {b}"
    "kernel_page_dir t = kernel_page_dir s" "process_list t = p" "current_process t = current_process s" "next_pid t = next_pid s"
    "proc_ok t (bs @ lost) d p" "pd_of (mem t) p = e" "private_frames (mem t) e = private_frames (mem s) e"
    "mmu_walk (mem t) (page_addr e) v = mmu_walk (mem s) (page_addr e) v"
    "i < 1024 \<Longrightarrow> present (mem t) e i = present (mem s) e i"
    "pfield (mem t) p P_ESP = 0xBFFFF0" "pfield (mem t) p P_EBP = 0xBFFFF0" "pfield (mem t) p P_EFLAGS = 0x202"
    "pfield (mem t) p P_STATUS = status_code READY" "pfield (mem t) p P_NEXT = process_list s"
    "pfield (mem t) p P_PID = pfield (mem s) p P_PID" "pfield (mem t) p P_EIP = pfield (mem s) p P_EIP"
proof -
  note sp = proc_block_span [OF b(2)]
  obtain m where m: "t = s\<lparr>mem := m, process_list := p\<rparr>"
    "m = wr32 (wr32 (wr32 (wr32 (wr32 (mem s) (p + 8) 0xBFFFF0) (p + 12) 0xBFFFF0) (p + 28) 0x202) (p + 24) 0)
       (p + 32) (process_list s)"
    using finish_process_eq [of p s] unfolding t_def by blast
  have o: "only_changes (nspan (unat p) 36) (mem s) m"
    unfolding m(2) by (intro pfield_writes only_changes_refl sp(1)) simp_all
  note w = write_process [OF heap b o]
  show "heap_inv t bs lost" "free_pages t = free_pages s" "process_list t = p" "current_process t = current_process s"
    "next_pid t = next_pid s" "kernel_page_dir t = kernel_page_dir s"
    using w(2,3) by (simp_all add: m(1))
  note k = this(6)
  show pres: "preserves s (bs @ lost) t (bs @ lost) {} {b}" using w(1) by (simp add: m(1))
  have tm: "mem t = m" by (simp add: m(1))
  note O = own_space_keep [OF pres kern own Int_empty_left Int_empty_left k]
  have other: "pfield (mem t) p off = pfield (mem s) p off" if "off \<in> {P_PID, P_EIP, P_PAGE_DIR, P_PAGE_DIR_PHYS}" for off
    using that unfolding tm m(2) by (auto simp: pfield_simps)
  have e20: "e < 2 ^ 20" using own by (simp add: own_space_def space_inv_def)
  show pd: "pd_of (mem t) p = e" using other [of P_PAGE_DIR] dir(1) frame_of_page [OF e20] by simp
  show "proc_ok t (bs @ lost) d p"
    using b(2) O(1) other [of P_PAGE_DIR] other [of P_PAGE_DIR_PHYS] dir pd by (auto simp: proc_ok_def)
  show "private_frames (mem t) e = private_frames (mem s) e" "mmu_walk (mem t) (page_addr e) v = mmu_walk (mem s) (page_addr e) v"
    by (rule O)+
  show "present (mem t) e i = present (mem s) e i" if "i < 1024"
  proof (rule present_cong, rule entry_cong [OF e20 that])
    show "mem t x = mem s x" if "x \<in> page_span e" for x using O(4) [OF that] by (simp add: private_frames_def)
  qed
  show "pfield (mem t) p P_ESP = 0xBFFFF0" "pfield (mem t) p P_EBP = 0xBFFFF0" "pfield (mem t) p P_EFLAGS = 0x202"
    "pfield (mem t) p P_STATUS = status_code READY" "pfield (mem t) p P_NEXT = process_list s"
    unfolding tm m(2) status_code_def by (simp_all add: pfield_simps)
  show "pfield (mem t) p P_PID = pfield (mem s) p P_PID" "pfield (mem t) p P_EIP = pfield (mem s) p P_EIP"
    using other [of P_PID] other [of P_EIP] by simp_all
qed

text \<open>What a process is given: its fields, and where its addresses go.\<close>

definition fresh_process :: "'a proc_state_scheme \<Rightarrow> 'a proc_state_scheme \<Rightarrow> nat \<Rightarrow> u32 \<Rightarrow> u32 \<Rightarrow> bool" where
  "fresh_process s s' d eip p \<longleftrightarrow>
     pfield (mem s') p P_PID = next_pid s \<and> pfield (mem s') p P_EIP = eip \<and>
     pfield (mem s') p P_ESP = 0xBFFFF0 \<and> pfield (mem s') p P_EBP = 0xBFFFF0 \<and>
     pfield (mem s') p P_EFLAGS = 0x202 \<and> pfield (mem s') p P_STATUS = status_code READY \<and>
     next_pid s' = next_pid s + 1 \<and> current_process s' = current_process s \<and>
     (\<forall>i < KERNEL_PD_INDEX. present (mem s') (pd_of (mem s') p) i \<longleftrightarrow> i = 2) \<and>
     (\<exists>f \<in> free_pages s - free_pages s'. (\<forall>x \<in> page_span f. mem s' x = 0) \<and>
        (\<forall>v. mmu_walk (mem s') (page_addr (pd_of (mem s') p)) v = new_walk (mem s) d f v))"

lemma create_process_result:
  fixes s :: "'a proc_state_scheme"
  assumes inv: "procs_inv s bs lost d ps" and room: "4 \<le> card (free_pages s)"
  obtains p s' bs' lost' where "create_process eip esp ebp s = Some (p, s')" "p \<noteq> 0" "p \<notin> set ps"
    "procs_inv s' bs' lost' d (p # ps)" "preserves s (bs @ lost) s' (bs' @ lost') {} {}"
    "fresh_process s s' d eip p" "free_pages s' \<subseteq> free_pages s" "card (free_pages s) \<le> card (free_pages s') + 4"
    "\<And>g. g \<in> private_frames (mem s') (pd_of (mem s') p) \<Longrightarrow> \<not> owned s (bs @ lost) g"
    "kernel_page_dir s' = kernel_page_dir s"
proof -
  obtain p t t2 bs' lost' b e where n: "malloc sizeof_process s = Some (p, t)"
    "pmm_alloc_page (start_process p eip t) = (page_addr e, t2)"
    "p \<noteq> 0" "p \<notin> set ps" "b \<in> set bs'" "proc_block (bs' @ lost') p b" "\<And>c. c \<in> set (bs @ lost) \<Longrightarrow> b_used c \<Longrightarrow> c \<noteq> b"
    "heap_inv t2 bs' lost'" "preserves s (bs @ lost) t2 (bs' @ lost') {} {}"
    "owned t2 (bs' @ lost') e" "e \<in> free_pages s" "\<not> owned s (bs @ lost) e" "2 \<le> card (free_pages t2)"
    "free_pages t2 \<subseteq> free_pages s"
    "pfield (mem t2) p P_PID = next_pid s" "pfield (mem t2) p P_EIP = eip" "next_pid t2 = next_pid s + 1"
    "process_list t2 = process_list s" "current_process t2 = current_process s" "kernel_page_dir t2 = kernel_page_dir s"
    "card (free_pages s) \<le> card (free_pages t2) + 2"
    by (rule new_process [OF inv room], rule that, assumption+)
  let ?t3 = "set_pfield p P_PAGE_DIR (page_addr e) (set_pfield p P_PAGE_DIR_PHYS (page_addr e) t2)"
  obtain s4 f where f: "fill_space p ?t3 = s4" "s4 = t2\<lparr>mem := mem s4\<rparr>" "heap_inv s4 bs' lost'"
    "preserves s (bs @ lost) s4 (bs' @ lost') {} {}"
    "own_space s4 (bs' @ lost') d e" "f \<in> free_pages s - free_pages s4" "owned s4 (bs' @ lost') f"
    "\<And>g. g \<in> private_frames (mem s4) e \<Longrightarrow> \<not> owned s (bs @ lost) g"
    "\<And>v. mmu_walk (mem s4) (page_addr e) v = new_walk (mem s) d f v" "\<And>x. x \<in> page_span f \<Longrightarrow> mem s4 x = 0"
    "card (free_pages t2) = card (free_pages s4) + 2" "free_pages s4 \<subseteq> free_pages t2"
    "pfield (mem s4) p P_PAGE_DIR = page_addr e" "pfield (mem s4) p P_PAGE_DIR_PHYS = page_addr e"
    "pfield (mem s4) p P_PID = pfield (mem t2) p P_PID" "pfield (mem s4) p P_EIP = pfield (mem t2) p P_EIP"
    "\<And>i. i < 768 \<Longrightarrow> present (mem s4) e i \<longleftrightarrow> i = 2"
    by (rule filled_space [OF inv n(9,8,5,6,10,12,13,20,14,7) refl], assumption, assumption, rule that, assumption+)
  have f4: "next_pid s4 = next_pid s + 1" "process_list s4 = process_list s" "current_process s4 = current_process s"
    "kernel_page_dir s4 = kernel_page_dir s"
    by (subst f(2), simp add: n(17-20))+
  have kern: "kernel_ok s (bs @ lost) d" using inv by (simp add: procs_inv_def)
  note K4 = kernel_ok_keep [OF f(4) kern Int_empty_left f4(4)]
  let ?s5 = "finish_process p s4"
  note F = finish_process_result [OF f(3) n(5,6) K4(1) f(5,13,14)]
  have pres: "preserves s (bs @ lost) ?s5 (bs' @ lost') {} {}"
    by (rule preserves_trans [OF f(4) F(3)]) (use n(7) in auto)
  have nown: "\<not> owned s (bs @ lost) g" if "g \<in> private_frames (mem ?s5) (pd_of (mem ?s5) p)" for g
    using that f(8) unfolding F(9,10) by blast
  have inv5: "procs_inv ?s5 bs' lost' d (p # ps)"
  proof (rule procs_inv_add [OF inv pres F(1) _ n(4,3) F(8) nown])
    show "kernel_page_dir ?s5 = kernel_page_dir s" "process_list ?s5 = p" "current_process ?s5 = current_process s"
      "pfield (mem ?s5) p P_NEXT = process_list s"
      using F(4-6,17) f4 by simp_all
  qed
  have zero: "mem ?s5 x = 0" if "x \<in> page_span f" for x
    using preservesD(3) [OF F(3) f(7) _ that] f(10) [OF that] by simp
  have walk: "mmu_walk (mem ?s5) (page_addr e) v = new_walk (mem s) d f v" for v by (simp only: F(11) f(9))
  have tabs: "present (mem ?s5) e i \<longleftrightarrow> i = 2" if "i < 768" for i using f(17) [OF that] F(12) [of i] that by simp
  have "pfield (mem ?s5) p P_PID = next_pid s" "pfield (mem ?s5) p P_EIP = eip" using F(18,19) f(15,16) n(15,16) by simp_all
  moreover have ff: "f \<in> free_pages s - free_pages ?s5" using f(6) F(2) by simp
  ultimately have new: "fresh_process s ?s5 d eip p"
    using zero walk tabs F(6,7,13-16) f4 unfolding fresh_process_def F(9) by auto
  have run: "create_process eip esp ebp s = Some (p, ?s5)"
  proof -
    have "pfield (mem (set_pfield p P_PAGE_DIR_PHYS (page_addr e) t2)) p P_PAGE_DIR_PHYS = page_addr e"
      by (simp add: pfield_def set_pfield_def)
    then show ?thesis unfolding create_process_parts n(1) using n(2) f(1) by (simp add: Let_def del: of_nat_mult)
  qed
  have c: "free_pages ?s5 \<subseteq> free_pages s" "card (free_pages s) \<le> card (free_pages ?s5) + 4"
    using n(14,21) f(11,12) F(2) by auto
  show thesis
    by (rule that [OF run n(3,4) inv5 pres new c nown]) (simp_all add: F(4) f4(4))
qed

section \<open>Before the first process\<close>

text \<open>The frames of the kernel's directory are no memory of a heap set up after it.\<close>

lemma heap_init_kernel:
  fixes s :: "'a proc_state_scheme"
  assumes sp: "space_inv s d" and k: "kernel_page_dir s = page_addr d" and z: "0 \<notin> free_pages s" and ne: "free_pages s \<noteq> {}"
  shows "kernel_ok (heap_init s) ([page_block (Min (free_pages s))] @ []) d"
    "mmu_walk (mem (heap_init s)) (page_addr d) v = mmu_walk (mem s) (page_addr d) v"
proof -
  let ?i = "Min (free_pages s)"
  have pinv: "pmm_inv s" using sp by (simp add: space_inv_def)
  note H = heap_init_inv [OF pinv z ne]
  obtain m p where m: "heap_init s = s\<lparr>mem := m, heap_start := p, heap_end := p, heap_limit := p + 4096\<rparr>"
    "only_changes (bitmap_region s \<union> page_span ?i) (mem s) m"
    using heap_init_writes [OF pinv z ne] by blast
  have i: "?i \<in> free_pages s" using ne by (intro Min_in) auto
  then have i20: "?i < 2 ^ 20" by (rule free_pages_bound [OF pinv])
  have inv': "pmm_inv (heap_init s)" using H(1) by (simp add: heap_inv_def)
  have bm: "bitmap_region (heap_init s) = bitmap_region s" by (simp add: m(1))
  have apart: "page_span g \<inter> page_span ?i = {}" if "held s g" for g
    using that i i20 by (intro page_span_disjoint) (auto simp: held_def)
  have own: "owned (heap_init s) ([page_block ?i] @ []) g" if "g \<in> space_frames (mem s) d" for g
    using space_frames_held [OF sp that] apart [OF space_frames_held [OF sp that]]
    unfolding owned_iff [OF inv'] by (simp add: held_def H(2) bm flip: page_nspan [OF i20])
  have same: "mem (heap_init s) x = mem s x" if "g \<in> space_frames (mem s) d" "x \<in> page_span g" for g x
  proof -
    have "x \<notin> bitmap_region s \<union> page_span ?i"
      using space_frames_held [OF sp that(1)] apart [OF space_frames_held [OF sp that(1)]] that(2) by (auto simp: held_def)
    then show ?thesis using only_changesD [OF m(2)] by (simp add: m(1))
  qed
  have "held (heap_init s) g" if "g \<in> space_frames (mem s) d" for g by (rule owned_held [OF inv' own [OF that]])
  from space_keep [OF sp inv' this same]
  show "mmu_walk (mem (heap_init s)) (page_addr d) v = mmu_walk (mem s) (page_addr d) v"
    and "kernel_ok (heap_init s) ([page_block ?i] @ []) d"
    using own k by (auto simp: kernel_ok_def m(1))
qed

lemma procs_inv_start:
  fixes s :: "'a proc_state_scheme"
  assumes "space_inv s d" "kernel_page_dir s = page_addr d" "0 \<notin> free_pages s" "free_pages s \<noteq> {}"
    and "process_list s = 0" "current_process s = 0"
  shows "procs_inv (heap_init s) [page_block (Min (free_pages s))] [] d []"
proof -
  have pinv: "pmm_inv s" using assms(1) by (simp add: space_inv_def)
  obtain m p where "heap_init s = s\<lparr>mem := m, heap_start := p, heap_end := p, heap_limit := p + 4096\<rparr>"
    using heap_init_writes [OF pinv assms(3,4)] by blast
  then show ?thesis
    using heap_init_inv(1) [OF pinv assms(3,4)] heap_init_kernel(1) [OF assms(1-4)] assms(5,6)
    by (simp add: procs_inv_def)
qed

end
