(* ===== verification/ProcFork.thy ===== *)
theory ProcFork
  imports ProcUse CopySpace
begin

text \<open>
  The operations on processes: \<open>fork\<close>, page faults and the scheduler keep the
  invariant of the process list.  The properties are the functional behaviour of
  creating and of forking a process, and what a new process cannot reach.
\<close>

section \<open>\<open>fork\<close>\<close>

text \<open>The copied half: every address of the parent leads the child to a fresh copy of the byte.\<close>

definition half_copied :: "'a pmm_state_scheme \<Rightarrow> 'a pmm_state_scheme \<Rightarrow> nat \<Rightarrow> nat \<Rightarrow> u32 \<Rightarrow> bool" where
  "half_copied s s' P Q v \<longleftrightarrow> (case mmu_walk (mem s) (page_addr P) v of None \<Rightarrow> mmu_walk (mem s') (page_addr Q) v = None
     | Some x \<Rightarrow> \<exists>y. mmu_walk (mem s') (page_addr Q) v = Some y \<and> mem s' y = mem s x \<and>
         frame_of y \<in> free_pages s - free_pages s')"

lemma copy_user_frames:
  assumes Q: "space_inv s Q" "pmm_inv s" and use: "frame_use {Q} s s'"
    and copied: "\<And>k. k < 768 \<Longrightarrow> if present (mem s) P k then pde_copied s s' P Q k
       else entry (mem s') (page_addr Q) k = entry (mem s) (page_addr Q) k"
  shows "user_frames (mem s') Q \<subseteq> user_frames (mem s) Q \<union> (free_pages s - free_pages s')"
proof
  have Q20: "{Q} \<subseteq> {..<2 ^ 20}" using Q(1) by (simp add: space_inv_def)
  let ?F = "free_pages s - free_pages s'"
  have old: "table_of (mem s') Q i = table_of (mem s) Q i \<and> present (mem s) Q i \<and>
      (\<forall>j < 1024. pte_at (mem s') Q i j = pte_at (mem s) Q i j)"
    if "i < 768" "\<not> present (mem s) P i" "present (mem s') Q i" for i
  proof -
    have e: "entry (mem s') (page_addr Q) i = entry (mem s) (page_addr Q) i" using copied [OF that(1)] that(2) by simp
    have s: "table_of (mem s') Q i = table_of (mem s) Q i" "present (mem s) Q i"
      using table_of_cong [OF e] present_cong [OF e] that(3) by simp_all
    have t: "held s (table_of (mem s) Q i)" "table_of (mem s) Q i \<noteq> Q"
      using Q(1) s(2) that(1) by (auto simp: space_inv_held)
    then show ?thesis using frame_use_keeps(2) [OF use t(1) _ Q20 Q(2)] s by (simp add: pte_at_def del: of_nat_mult)
  qed
  have new: "table_of (mem s') Q i \<in> ?F \<and> (\<forall>j < 1024. pte_present (pte_at (mem s') Q i j) \<longrightarrow> frame_of (pte_at (mem s') Q i j) \<in> ?F)"
    if i: "i < 768" "present (mem s) P i" for i
  proof -
    have c: "pde_copied s s' P Q i" using copied [OF i(1)] i(2) by simp
    have "frame_of (pte_at (mem s') Q i j) \<in> ?F" if j: "j < 1024" "pte_present (pte_at (mem s') Q i j)" for j
    proof -
      have "entry_copied s s' (pte_at (mem s) P i j) (pte_at (mem s') Q i j)"
        using c j by (auto simp: pde_copied_def table_copied_def split: if_splits)
      then obtain g where g: "g \<in> ?F" "pte_at (mem s') Q i j = user_entry g" by (auto simp: entry_copied_def)
      have "g < 2 ^ 20" using g(1) free_pages_bound [OF Q(2)] by blast
      then show ?thesis using g(1) pde_fields(2) [of g] by (simp add: g(2))
    qed
    then show ?thesis using c by (simp add: pde_copied_def)
  qed
  fix g assume "g \<in> user_frames (mem s') Q"
  then consider i where "i < 768" "present (mem s') Q i" "g = table_of (mem s') Q i"
    | i j where "i < 768" "j < 1024" "present (mem s') Q i" "pte_present (pte_at (mem s') Q i j)" "g = frame_of (pte_at (mem s') Q i j)"
    unfolding user_frames_defs by blast
  then show "g \<in> user_frames (mem s) Q \<union> ?F"
  proof cases
    case 1
    then show ?thesis using old [of i] new [of i] by (cases "present (mem s) P i") (auto simp: user_frames_defs)
  next
    case 2
    then show ?thesis
      using old [of i] new [of i] user_frames_page [of i j "mem s" Q] by (cases "present (mem s) P i") auto
  qed
qed

text \<open>The pages of a process, as the copy needs them; an address whose directory entry stays.\<close>

lemma own_user_pages:
  assumes own: "own_space s cs d P" and inv: "pmm_inv s" and Q: "Q \<notin> private_frames (mem s) P" and i: "i < 768"
  shows "user_pages s P Q i"
  unfolding user_pages_def
proof (intro impI conjI allI)
  have held: "held s g" if "g \<in> private_frames (mem s) P" for g
    using own that owned_held [OF inv] by (auto simp: own_space_def)
  assume p: "present (mem s) P i"
  then have "table_of (mem s) P i \<in> private_frames (mem s) P" using i by (auto simp: private_frames_def user_frames_defs)
  then show "held s (table_of (mem s) P i)" "table_of (mem s) P i \<noteq> Q" using held Q by auto
  fix j assume j: "j < (1024 :: nat)" "pte_present (pte_at (mem s) P i j)"
  have "frame_of (pte_at (mem s) P i j) \<in> private_frames (mem s) P"
    using user_frames_page [OF i j(1) p j(2)] by (simp add: private_frames_def)
  then show "held s (frame_of (pte_at (mem s) P i j))" "frame_of (pte_at (mem s) P i j) \<noteq> Q" using held Q by auto
qed

lemma walk_same_entry:
  assumes Q: "space_inv s Q" and use: "frame_use {Q} s s'"
    and e: "entry (mem s') (page_addr Q) (pdi v) = entry (mem s) (page_addr Q) (pdi v)"
  shows "mmu_walk (mem s') (page_addr Q) v = mmu_walk (mem s) (page_addr Q) v"
proof (rule mmu_walk_cong [OF e])
  assume p: "present (mem s) Q (pdi v)"
  then have "held s (table_of (mem s) Q (pdi v))" "table_of (mem s) Q (pdi v) \<noteq> Q" "pmm_inv s"
    using Q pdi_bound unfolding space_inv_held by blast+
  then show "entry (mem s') (page_addr (table_of (mem s) Q (pdi v))) (pti v) = entry (mem s) (page_addr (table_of (mem s) Q (pdi v))) (pti v)"
    using Q by (intro frame_use_keeps(2) [OF use _ _ _ _ pti_bound]) (auto simp: space_inv_def)
qed

lemma fork_copy:
  assumes inv: "procs_inv s bs lost d ps" and pc: "parent \<in> set ps" "child \<in> set ps" "parent \<noteq> child"
    and room: "space_cost (mem s) (pd_of (mem s) parent) 768 \<le> card (free_pages s)"
  defines "P \<equiv> pd_of (mem s) parent" and "Q \<equiv> pd_of (mem s) child"
  obtains s' where "copy_addr_space (page_addr P) (page_addr Q) s = s'" "frame_use {Q} s s'"
    "procs_inv s' bs lost d ps" "preserves s (bs @ lost) s' (bs @ lost) {Q} {}"
    "\<And>q off. q \<in> set ps \<Longrightarrow> field_offset off \<Longrightarrow> pfield (mem s') q off = pfield (mem s) q off"
    "card (free_pages s) = card (free_pages s') + space_cost (mem s) P 768"
    "\<And>v. pdi v < 768 \<Longrightarrow> present (mem s) P (pdi v) \<Longrightarrow> half_copied s s' P Q v"
    "\<And>v. \<not> (pdi v < 768 \<and> present (mem s) P (pdi v)) \<Longrightarrow> mmu_walk (mem s') (page_addr Q) v = mmu_walk (mem s) (page_addr Q) v"
    "\<And>v. mmu_walk (mem s') (page_addr d) v = mmu_walk (mem s) (page_addr d) v"
    "\<And>q v. q \<in> set ps \<Longrightarrow> q \<noteq> child \<Longrightarrow> mmu_walk (mem s') (page_addr (pd_of (mem s') q)) v = mmu_walk (mem s) (page_addr (pd_of (mem s) q)) v"
proof -
  have ok: "proc_ok s (bs @ lost) d q" if "q \<in> set ps" for q using inv that by (simp add: procs_inv_def)
  have pinv: "pmm_inv s" using inv by (simp add: procs_inv_def heap_inv_def)
  have iso: "private_frames (mem s) P \<inter> private_frames (mem s) Q = {}" using inv pc by (simp add: procs_inv_def P_def Q_def)
  have spQ: "space_inv s Q" using ok [OF pc(2)] by (simp add: proc_ok_def own_space_def Q_def)
  have ownP: "own_space s (bs @ lost) d P" using ok [OF pc(1)] by (simp add: proc_ok_def P_def)
  have apQ: "pages_apart s Q"
    using ok [OF pc(2)] own_space_pages [OF _ pinv] unfolding proc_ok_def Q_def by blast
  have QP: "Q \<notin> private_frames (mem s) P" using iso by (auto simp: private_frames_def)
  have held: "held s g" if "g \<in> private_frames (mem s) P" for g
    using ownP that owned_held [OF pinv] by (auto simp: own_space_def)
  have hP: "held s P" "P \<noteq> Q" using held [of P] QP by (auto simp: private_frames_def)
  note pages = own_user_pages [OF ownP pinv QP]
  have room': "space_cost (mem s) P 768 \<le> card (free_pages s)" using room by (simp add: P_def)
  obtain s' where s': "fold (copy_pde (page_addr P) (page_addr Q)) [0..<768] s = s'" "frame_use {Q} s s'" "space_inv s' Q"
    "card (free_pages s) = card (free_pages s') + space_cost (mem s) P 768"
    "\<forall>k < 1024. if k < 768 \<and> present (mem s) P k then pde_copied s s' P Q k
       else entry (mem s') (page_addr Q) k = entry (mem s) (page_addr Q) k" "pages_apart s' Q"
    using copy_space_result [OF spQ apQ hP pages _ room'] by auto
  have sub: "user_frames (mem s') Q \<subseteq> user_frames (mem s) Q \<union> (free_pages s - free_pages s')"
    by (rule copy_user_frames [OF spQ pinv s'(2), where P = P]) (use s'(5) in \<open>simp del: of_nat_mult\<close>)
  have half: "entry (mem s') (page_addr Q) i = entry (mem s) (page_addr Q) i" if "768 \<le> i" "i < 1024" for i
    using s'(5) that by (metis not_less)
  have "s' = s\<lparr>mem := mem s'\<rparr>" by (rule frame_useD(1) [OF s'(2)])
  then have f: "kernel_page_dir s' = kernel_page_dir s" "process_list s' = process_list s" "current_process s' = current_process s"
    by (metis proc_state.select_convs(1,2) proc_state.surjective paging_state.select_convs(2) hw.update_convs(1))+
  have D: "{Q} \<subseteq> private_frames (mem s) (pd_of (mem s) child)" by (simp add: private_frames_def Q_def)
  note C = procs_inv_change [OF inv pc(2) s'(2) D s'(3,6) [unfolded Q_def] half [unfolded Q_def] sub [unfolded Q_def] f]
  have rest: "mmu_walk (mem s') (page_addr Q) v = mmu_walk (mem s) (page_addr Q) v"
    if v: "\<not> (pdi v < 768 \<and> present (mem s) P (pdi v))" for v
    by (rule walk_same_entry [OF spQ s'(2)]) (use s'(5) pdi_bound [of v] v in metis)
  have copied: "half_copied s s' P Q v" if "pdi v < 768" "present (mem s) P (pdi v)" for v
  proof -
    have "pde_copied s s' P Q (pdi v)" using s'(5) pdi_bound [of v] that by metis
    then show ?thesis unfolding half_copied_def by (rule walk_copied [OF _ that(2) pinv])
  qed
  have run: "copy_addr_space (page_addr P) (page_addr Q) s = s'" using s'(1) by (simp only: copy_addr_space_def)
  show thesis
    by (rule that [OF run s'(2) C(1) C(2) [folded Q_def] C(3) s'(4) copied rest C(4) C(5)]; assumption)
qed

lemma space_cost_cong:
  assumes "P < 2 ^ 20" "n \<le> 1024" "\<And>g x. g \<in> space_frames m P \<Longrightarrow> x \<in> page_span g \<Longrightarrow> m' x = m x"
  shows "space_cost m' P n = space_cost m P n"
  unfolding space_cost_def
proof (rule sum.cong [OF refl])
  fix i assume "i \<in> {..<n}"
  then have i: "i < 1024" using assms(2) by simp
  have e: "entry m' (page_addr P) i = entry m (page_addr P) i"
    by (rule entry_cong [OF assms(1) i assms(3)]) (auto simp: space_frames_def)
  have "pte_at m' P i j = pte_at m P i j" if "present m P i" "j < 1024" for j
    unfolding pte_at_def table_of_cong [OF e]
    by (rule entry_cong [OF table_bound that(2) assms(3)]) (use that i in \<open>auto simp: space_frames_def\<close>)
  then have "present m P i \<Longrightarrow> {j. j < 1024 \<and> pte_present (pte_at m' P i j)} = {j. j < 1024 \<and> pte_present (pte_at m P i j)}"
    by auto
  then show "table_cost m' P i = table_cost m P i" unfolding table_cost_def present_cong [OF e] by simp
qed

text \<open>A process whose frames a step preserves costs the same to copy, and reads the same.\<close>

lemma space_preserved:
  assumes pres: "preserves s cs s1 cs1 {} {}" and kern: "kernel_ok s cs d" and ok: "proc_ok s cs d q"
    and k: "kernel_page_dir s1 = kernel_page_dir s"
  defines "P \<equiv> pd_of (mem s) q"
  shows "pd_of (mem s1) q = P" "space_cost (mem s1) P 768 = space_cost (mem s) P 768"
    "i < 1024 \<Longrightarrow> present (mem s1) P i = present (mem s) P i"
    "mmu_walk (mem s1) (page_addr P) v = mmu_walk (mem s) (page_addr P) v"
    "mmu_walk (mem s) (page_addr P) v = Some x \<Longrightarrow> pdi v < 768 \<Longrightarrow> mem s1 x = mem s x"
proof -
  have own: "own_space s cs d P" using ok by (simp add: proc_ok_def P_def)
  have own_g: "owned s cs g" if "g \<in> space_frames (mem s) P \<union> private_frames (mem s) P" for g
    using that own_space_frames [OF own] own kern by (auto simp: own_space_def kernel_ok_def)
  have same: "mem s1 x = mem s x" if "g \<in> space_frames (mem s) P \<union> private_frames (mem s) P" "x \<in> page_span g" for g x
    using own_g [OF that(1)] preservesD(3) [OF pres] that(2) by auto
  note keep = proc_ok_keep [OF pres kern ok k Int_empty_left Int_empty_left]
  have "pfield (mem s1) q P_PAGE_DIR = pfield (mem s) q P_PAGE_DIR" by (rule keep(2)) simp_all
  then show pd: "pd_of (mem s1) q = P" by (simp add: P_def)
  show "space_cost (mem s1) P 768 = space_cost (mem s) P 768"
    using own same by (intro space_cost_cong) (auto simp: own_space_def space_inv_def)
  show "present (mem s1) P i = present (mem s) P i" if "i < 1024"
    by (rule present_cong, rule entry_cong [OF _ that same [of P]]) (simp_all add: P_def space_frames_def frame_of_bound [simplified])
  show "mmu_walk (mem s1) (page_addr P) v = mmu_walk (mem s) (page_addr P) v" using keep(4) [of v] pd by (simp add: P_def)
  assume "mmu_walk (mem s) (page_addr P) v = Some x" "pdi v < 768"
  then have "frame_of x \<in> private_frames (mem s) P" using walk_user_frame(2) by (auto simp: private_frames_def)
  then show "mem s1 x = mem s x" using same [OF _ in_frame] by blast
qed

lemma half_copied_from:
  assumes "half_copied s1 s' P Q v" "mmu_walk (mem s1) (page_addr P) v = mmu_walk (mem s) (page_addr P) v"
    and "\<And>x. mmu_walk (mem s) (page_addr P) v = Some x \<Longrightarrow> mem s1 x = mem s x" "free_pages s1 \<subseteq> free_pages s"
  shows "half_copied s s' P Q v"
  using assms unfolding half_copied_def by (auto split: option.splits)

text \<open>The translation of the child of a fork.\<close>

definition fork_space :: "'a proc_state_scheme \<Rightarrow> 'a proc_state_scheme \<Rightarrow> nat \<Rightarrow> nat \<Rightarrow> nat \<Rightarrow> bool" where
  "fork_space s s' d P Q \<longleftrightarrow>
     (\<forall>v. pdi v < KERNEL_PD_INDEX \<longrightarrow> present (mem s) P (pdi v) \<longrightarrow> half_copied s s' P Q v) \<and>
     (\<forall>v. KERNEL_PD_INDEX \<le> pdi v \<longrightarrow> mmu_walk (mem s') (page_addr Q) v = mmu_walk (mem s) (page_addr d) v)"

lemma stack_index:
  assumes "drop_bit 12 v = (0xBFF :: u32)"
  shows "pdi v = 2"
proof -
  have "drop_bit 12 v = drop_bit 12 (0xBFF000 :: u32)" using assms by (simp add: drop_bit_eq_div)
  then have "pdi v = pdi 0xBFF000" using page_index by blast
  then show ?thesis by (simp add: drop_bit_eq_div)
qed

lemma fork_result:
  fixes s :: "'a proc_state_scheme"
  assumes inv: "procs_inv s bs lost d ps" and cur: "current_process s \<noteq> 0"
    and room: "4 + space_cost (mem s) (pd_of (mem s) (current_process s)) 768 \<le> card (free_pages s)"
  obtains c s' bs' lost' where "k_fork s = Some (sint (next_pid s), s')" "c \<noteq> 0" "c \<notin> set ps"
    "procs_inv s' bs' lost' d (c # ps)" "preserves s (bs @ lost) s' (bs' @ lost') {} {}"
    "pfield (mem s') c P_PID = next_pid s" "pfield (mem s') c P_EIP = pfield (mem s) (current_process s) P_EIP"
    "fork_space s s' d (pd_of (mem s) (current_process s)) (pd_of (mem s') c)" "current_process s' = current_process s"
proof -
  let ?p = "current_process s"
  let ?P = "pd_of (mem s) ?p"
  have p: "?p \<in> set ps" using inv cur by (simp add: procs_inv_def)
  have room4: "4 \<le> card (free_pages s)" using room by simp
  let ?eip = "pfield (mem s) ?p P_EIP"
  obtain c s1 bs' lost' where c: "create_process ?eip (pfield (mem s) ?p P_ESP) (pfield (mem s) ?p P_EBP) s = Some (c, s1)"
    "c \<noteq> 0" "c \<notin> set ps" "procs_inv s1 bs' lost' d (c # ps)" "preserves s (bs @ lost) s1 (bs' @ lost') {} {}"
    "fresh_process s s1 d ?eip c" "free_pages s1 \<subseteq> free_pages s" "card (free_pages s) \<le> card (free_pages s1) + 4"
    "\<And>g. g \<in> private_frames (mem s1) (pd_of (mem s1) c) \<Longrightarrow> \<not> owned s (bs @ lost) g"
    "kernel_page_dir s1 = kernel_page_dir s"
    by (rule create_process_result [OF inv room4], rule that, assumption+)
  have kern: "kernel_ok s (bs @ lost) d" and ok: "proc_ok s (bs @ lost) d ?p" using inv p by (auto simp: procs_inv_def)
  note SP = space_preserved [OF c(5) kern ok c(10)]
  have ne: "?p \<noteq> c" using c(3) p by blast
  have room1: "space_cost (mem s1) (pd_of (mem s1) ?p) 768 \<le> card (free_pages s1)"
    unfolding SP(1,2) using room c(8) by simp
  let ?Q = "pd_of (mem s1) c"
  have in_ps: "?p \<in> set (c # ps)" "c \<in> set (c # ps)" using p by auto
  obtain s' where s': "copy_addr_space (page_addr ?P) (page_addr ?Q) s1 = s'" "frame_use {?Q} s1 s'"
    "procs_inv s' bs' lost' d (c # ps)" "preserves s1 (bs' @ lost') s' (bs' @ lost') {?Q} {}"
    "\<And>q off. q \<in> set (c # ps) \<Longrightarrow> field_offset off \<Longrightarrow> pfield (mem s') q off = pfield (mem s1) q off"
    "\<And>v. pdi v < 768 \<Longrightarrow> present (mem s1) ?P (pdi v) \<Longrightarrow> half_copied s1 s' ?P ?Q v"
    "\<And>v. \<not> (pdi v < 768 \<and> present (mem s1) ?P (pdi v)) \<Longrightarrow> mmu_walk (mem s') (page_addr ?Q) v = mmu_walk (mem s1) (page_addr ?Q) v"
    using fork_copy [OF c(4) in_ps ne room1, unfolded SP(1)] by metis
  have "?Q \<in> private_frames (mem s1) ?Q" by (simp add: private_frames_def)
  then have notQ: "\<not> owned s (bs @ lost) ?Q" by (rule c(9))
  have pres: "preserves s (bs @ lost) s' (bs' @ lost') {} {}"
    by (rule preserves_trans [OF c(5) s'(4)]) (use notQ in auto)
  have dirs: "pfield (mem s1) ?p P_PAGE_DIR = page_addr ?P" "pfield (mem s1) c P_PAGE_DIR = page_addr ?Q"
    using c(4) p SP(1) by (auto simp: procs_inv_def proc_ok_def)
  have s'm: "s' = s1\<lparr>mem := mem s'\<rparr>" by (rule frame_useD(1) [OF s'(2)])
  have cp: "current_process s1 = ?p" "pfield (mem s1) c P_PID = next_pid s" "pfield (mem s1) c P_EIP = ?eip"
    using c(6) by (auto simp: fresh_process_def)
  have cs': "current_process s' = ?p" by (subst s'm) (simp add: cp(1))
  have fields: "pfield (mem s') c P_PID = next_pid s" "pfield (mem s') c P_EIP = ?eip" "pd_of (mem s') c = ?Q"
    using s'(5) [of c] cp by simp_all
  have run: "k_fork s = Some (sint (next_pid s), s')"
  proof -
    have "copy_addr_space (pfield (mem s1) ?p P_PAGE_DIR) (pfield (mem s1) c P_PAGE_DIR) s1 = s'"
      by (subst dirs(1), subst dirs(2)) (rule s'(1))
    then show ?thesis using cur c(1,2) cs' fields(1) by (simp add: k_fork_def Let_def)
  qed
  have "half_copied s s' ?P ?Q v" if v: "pdi v < 768" "present (mem s) ?P (pdi v)" for v
    by (rule half_copied_from [OF s'(6) [OF v(1)] SP(4)]) (use v SP(3) [OF pdi_bound] SP(5) c(7) in auto)
  moreover have "mmu_walk (mem s') (page_addr ?Q) v = mmu_walk (mem s) (page_addr d) v" if "768 \<le> pdi v" for v
  proof -
    have "drop_bit 12 v \<noteq> 0xBFF" using that stack_index by fastforce
    then have "mmu_walk (mem s1) (page_addr ?Q) v = mmu_walk (mem s) (page_addr d) v"
      using c(6) that by (auto simp: fresh_process_def simp del: of_nat_mult)
    then show ?thesis using s'(7) [of v] that by simp
  qed
  ultimately have "fork_space s s' d ?P (pd_of (mem s') c)" unfolding fork_space_def fields(3) by blast
  then show thesis by (rule that [OF run c(2,3) s'(3) pres fields(1,2) _ cs'])
qed

section \<open>Page faults\<close>

lemma fault_page: "drop_bit 12 (addr AND 0xFFFFF000) = drop_bit 12 (addr :: u32)" "pdi (addr AND 0xFFFFF000) = pdi addr"
proof -
  show 1: "drop_bit 12 (addr AND 0xFFFFF000) = drop_bit 12 addr"
    unfolding page_masks by (rule bit_word_eqI) (auto simp: bit_simps dest: bit_imp_le_length)
  then show "pdi (addr AND 0xFFFFF000) = pdi addr" using page_index by blast
qed

text \<open>Mapping the faulting page, in the directory the fault happened in.\<close>

lemma fault_space:
  fixes s :: "'a paging_state_scheme"
  assumes sp: "space_inv s Q" "pages_apart s Q" and user: "pdi addr < 768" and room: "2 \<le> card (free_pages s)"
  obtains s2 s' f D where "pmm_alloc_page s = (page_addr f, s2)" "frame_use {} s s2"
    "map_page (page_addr Q) (addr AND 0xFFFFF000) (page_addr f) (PAGE_RW OR PAGE_USER) s2 = s'"
    "frame_use D s s'" "D \<subseteq> private_frames (mem s) Q" "space_inv s' Q" "pages_apart s' Q" "f \<in> free_pages s - free_pages s'"
    "\<And>i. 768 \<le> i \<Longrightarrow> i < 1024 \<Longrightarrow> entry (mem s') (page_addr Q) i = entry (mem s) (page_addr Q) i"
    "user_frames (mem s') Q \<subseteq> user_frames (mem s) Q \<union> (free_pages s - free_pages s')"
    "\<And>v. mmu_walk (mem s') (page_addr Q) v =
       (if drop_bit 12 v = drop_bit 12 addr then Some (page_addr f OR (v AND 0xFFF)) else mmu_walk (mem s) (page_addr Q) v)"
proof -
  have pinv: "pmm_inv s" and ne: "free_pages s \<noteq> {}" using sp(1) room by (auto simp: space_inv_def)
  let ?f = "Min (free_pages s)"
  obtain s2 where s2: "pmm_alloc_page s = (page_addr ?f, s2)" "frame_use {} s s2"
    "free_pages s2 = free_pages s - {?f}" "?f \<in> free_pages s" "held s2 ?f" "card (free_pages s) = Suc (card (free_pages s2))"
    by (rule frame_use_alloc [OF pinv ne])
  have f20: "?f < 2 ^ 20" using s2(5) by (simp add: held_def)
  note K = frame_use_space [OF s2(2) sp(1) Int_empty_left empty_subsetI]
  have pt: "present (mem s2) Q i = present (mem s) Q i" "table_of (mem s2) Q i = table_of (mem s) Q i" if "i < 1024" for i
    using present_cong [OF K(2) [OF that]] table_of_cong [OF K(2) [OF that]] by simp_all
  let ?a = "addr AND 0xFFFFF000" and ?fl = "PAGE_RW OR PAGE_USER"
  let ?T = "if present (mem s2) Q (pdi ?a) then {table_of (mem s2) Q (pdi ?a)} else {}"
  have "free_pages s2 \<noteq> {}" using room s2(6) by auto
  then have some: "present (mem s2) Q (pdi ?a) \<or> free_pages s2 \<noteq> {}" and min2: "Min (free_pages s2) \<in> free_pages s2" by simp_all
  obtain s' where s': "map_page (page_addr Q) ?a (page_addr ?f) ?fl s2 = s'" "frame_use (insert Q ?T) s2 s'" "space_inv s' Q"
    "free_pages s' = (if present (mem s2) Q (pdi ?a) then free_pages s2 else free_pages s2 - {Min (free_pages s2)})"
    "\<And>v. mmu_walk (mem s') (page_addr Q) v = (if drop_bit 12 v = drop_bit 12 ?a
       then Some ((page_addr ?f AND 0xFFFFF000) OR (v AND 0xFFF)) else mmu_walk (mem s2) (page_addr Q) v)"
    "\<And>i. i < 1024 \<Longrightarrow> present (mem s') Q i \<longleftrightarrow> i = pdi ?a \<or> present (mem s2) Q i"
    "table_of (mem s') Q (pdi ?a) = (if present (mem s2) Q (pdi ?a) then table_of (mem s2) Q (pdi ?a) else Min (free_pages s2))"
    "\<And>i. i < 1024 \<Longrightarrow> i \<noteq> pdi ?a \<Longrightarrow> entry (mem s') (page_addr Q) i = entry (mem s2) (page_addr Q) i"
    by (rule map_page_use [OF K(1) some, of "page_addr ?f" ?fl], rule that, assumption+)
  let ?M = "if present (mem s2) Q (pdi ?a) then {} else {Min (free_pages s2)}"
  have D: "insert Q ?T \<subseteq> private_frames (mem s) Q"
  proof -
    have "table_of (mem s) Q (pdi addr) \<in> user_frames (mem s) Q" if "present (mem s) Q (pdi addr)"
      unfolding user_frames_def using user that by blast
    then show ?thesis unfolding fault_page(2) pt [OF pdi_bound] by (simp add: private_frames_def)
  qed
  have use: "frame_use (insert Q ?T) s s'" by (rule frame_use_trans [OF frame_use_mono [OF s2(2)] s'(2)]) auto
  have walk: "mmu_walk (mem s') (page_addr Q) v =
       (if drop_bit 12 v = drop_bit 12 addr then Some (page_addr ?f OR (v AND 0xFFF)) else mmu_walk (mem s) (page_addr Q) v)" for v
    unfolding s'(5) K(4) fault_page unfolding frame_of_mask frame_of_page [OF f20] ..
  have tab: "present (mem s') Q i \<Longrightarrow> (present (mem s) Q i \<and> table_of (mem s') Q i = table_of (mem s) Q i) \<or> table_of (mem s') Q i \<in> ?M"
    if i: "i < 1024" for i
    using s'(6) [OF i] s'(7) table_of_cong [OF s'(8) [OF i]] pt [OF i] by (cases "i = pdi ?a") auto
  have pages: "page_frames (mem s') Q \<subseteq> page_frames (mem s) Q \<union> {?f}"
    unfolding page_frames_walk walk using page_offset(3) [OF f20] by (auto simp del: of_nat_mult split: if_splits)
  have frames: "space_frames (mem s') Q \<subseteq> space_frames (mem s) Q \<union> ?M"
    using tab unfolding space_frames_def by blast
  have new: "{?f} \<union> ?M \<subseteq> free_pages s - free_pages s'" "{?f} \<inter> ?M = {}"
    using s2(3,4) s'(4) min2 by (auto split: if_splits)
  have "table_of (mem s') Q i \<in> user_frames (mem s) Q \<union> ?M" if "i < 768" "present (mem s') Q i" for i
    using tab [of i] that unfolding user_frames_def by auto
  then have "{table_of (mem s') Q i | i. i < 768 \<and> present (mem s') Q i} \<subseteq> user_frames (mem s) Q \<union> ?M" by blast
  moreover have "page_frames (mem s) Q \<subseteq> user_frames (mem s) Q" by (simp add: user_frames_def)
  ultimately have "user_frames (mem s') Q \<subseteq> user_frames (mem s) Q \<union> ({?f} \<union> ?M)"
    using pages unfolding user_frames_def [of "mem s'"] by blast
  then have priv: "user_frames (mem s') Q \<subseteq> user_frames (mem s) Q \<union> (free_pages s - free_pages s')" using new(1) by blast
  have half: "entry (mem s') (page_addr Q) i = entry (mem s) (page_addr Q) i" if "768 \<le> i" "i < 1024" for i
    using s'(8) [OF that(2), unfolded fault_page(2)] K(2) [OF that(2)] that(1) user by simp
  have "?f \<in> free_pages s - free_pages s'" using new(1) by blast
  then show thesis
    by (rule that [OF s2(1,2) s'(1) use D s'(3) pages_apart_grow [OF sp(2,1) use pages frames new] _ half priv walk])
qed

lemma fault_result:
  fixes s :: "'a proc_state_scheme"
  assumes inv: "procs_inv s bs lost d ps" and cur: "current_process s \<noteq> 0" and err: "err AND 1 = 0"
    and user: "pdi addr < 768" and room: "2 \<le> card (free_pages s)"
  defines "Q \<equiv> pd_of (mem s) (current_process s)"
  obtains s' f where "page_fault_handler err addr s = s'" "procs_inv s' bs lost d ps" "f \<in> free_pages s - free_pages s'"
    "\<And>v. mmu_walk (mem s') (page_addr Q) v =
       (if drop_bit 12 v = drop_bit 12 addr then Some (page_addr f OR (v AND 0xFFF)) else mmu_walk (mem s) (page_addr Q) v)"
    "\<And>q v. q \<in> set ps \<Longrightarrow> q \<noteq> current_process s \<Longrightarrow>
       mmu_walk (mem s') (page_addr (pd_of (mem s') q)) v = mmu_walk (mem s) (page_addr (pd_of (mem s) q)) v"
    "\<And>q off. q \<in> set ps \<Longrightarrow> field_offset off \<Longrightarrow> pfield (mem s') q off = pfield (mem s) q off"
    "current_process s' = current_process s"
    "preserves s (bs @ lost) s' (bs @ lost) (private_frames (mem s) Q) {}" "kernel_page_dir s' = kernel_page_dir s"
proof -
  let ?p = "current_process s"
  have p: "?p \<in> set ps" using inv cur by (simp add: procs_inv_def)
  have ok: "proc_ok s (bs @ lost) d ?p" and heap: "heap_inv s bs lost" using inv p by (auto simp: procs_inv_def)
  have pinv: "pmm_inv s" and z: "0 \<notin> free_pages s" using heap by (auto simp: heap_inv_def)
  have own: "own_space s (bs @ lost) d Q" and dir: "pfield (mem s) ?p P_PAGE_DIR = page_addr Q"
    using ok by (auto simp: proc_ok_def Q_def)
  have sp: "space_inv s Q" "pages_apart s Q" using own own_space_pages [OF own pinv] by (auto simp: own_space_def)
  obtain s2 s' f D where F: "pmm_alloc_page s = (page_addr f, s2)" "frame_use {} s s2"
    "map_page (page_addr Q) (addr AND 0xFFFFF000) (page_addr f) (PAGE_RW OR PAGE_USER) s2 = s'"
    "frame_use D s s'" "D \<subseteq> private_frames (mem s) Q" "space_inv s' Q" "pages_apart s' Q" "f \<in> free_pages s - free_pages s'"
    "\<And>i. 768 \<le> i \<Longrightarrow> i < 1024 \<Longrightarrow> entry (mem s') (page_addr Q) i = entry (mem s) (page_addr Q) i"
    "user_frames (mem s') Q \<subseteq> user_frames (mem s) Q \<union> (free_pages s - free_pages s')"
    "\<And>v. mmu_walk (mem s') (page_addr Q) v =
       (if drop_bit 12 v = drop_bit 12 addr then Some (page_addr f OR (v AND 0xFFF)) else mmu_walk (mem s) (page_addr Q) v)"
    by (rule fault_space [OF sp user room], rule that, assumption+)
  have "s' = s\<lparr>mem := mem s'\<rparr>" by (rule frame_useD(1) [OF F(4)])
  then have f: "kernel_page_dir s' = kernel_page_dir s" "process_list s' = process_list s" "current_process s' = current_process s"
    by (metis proc_state.select_convs(1,2) proc_state.surjective paging_state.select_convs(2) hw.update_convs(1))+
  note C = procs_inv_change [OF inv p F(4) F(5,6,7,9,10) [unfolded Q_def] f]
  obtain b where b: "proc_block (bs @ lost) ?p b" using ok by (auto simp: proc_ok_def)
  have "pfield (mem s2) ?p P_PAGE_DIR = pfield (mem s) ?p P_PAGE_DIR"
    using b proc_block_span(2) [OF b]
    by (intro pfield_cong [OF proc_block_span(1) [OF b]] preservesD(5) [OF preserves_use(1) [OF heap F(2)], of b])
      (auto simp: proc_block_def)
  moreover have "current_process s2 = ?p" by (subst frame_useD(1) [OF F(2)]) simp
  moreover have "page_addr f \<noteq> 0"
  proof -
    have "f < 2 ^ 20" "f \<noteq> 0" using F(8) free_pages_bound [OF pinv, of f] z by (auto intro: ccontr)
    then have "unat (page_addr f) \<noteq> 0" unfolding unat_page_addr [OF \<open>f < 2 ^ 20\<close>] by simp
    then show ?thesis by auto
  qed
  ultimately have run: "page_fault_handler err addr s = s'"
    using err dir F(1,3) unfolding page_fault_handler_def Let_def by (simp del: of_nat_mult)
  have pres: "preserves s (bs @ lost) s' (bs @ lost) (private_frames (mem s) Q) {}"
    using C(2) F(5) unfolding preserves_def by blast
  show thesis by (rule that [OF run C(1) F(8,11) C(5) C(3) f(3) pres f(1)])
qed

section \<open>Scheduling\<close>

lemma schedule_frame: "\<exists>x c. schedule s = s\<lparr>current_process := x, cr3 := c\<rparr>"
proof -
  have set: "\<exists>x c. s\<lparr>current_process := p\<rparr> = s\<lparr>current_process := x, cr3 := c\<rparr>" for p
    by (intro exI [of _ p] exI [of _ "cr3 s"]) simp
  show ?thesis
  proof (cases "process_list s = 0")
    case True
    then have "schedule s = s\<lparr>current_process := current_process s, cr3 := cr3 s\<rparr>" by (simp add: schedule_def)
    then show ?thesis by blast
  next
    case False
    then show ?thesis using set by (auto simp: schedule_def switch_to_process_def Let_def)
  qed
qed

lemma proc_ok_frame [simp]:
  "kernel_ok (s\<lparr>current_process := p\<rparr>) cs d = kernel_ok s cs d" "kernel_ok (s\<lparr>cr3 := n\<rparr>) cs d = kernel_ok s cs d"
  "proc_ok (s\<lparr>current_process := p\<rparr>) cs d q = proc_ok s cs d q" "proc_ok (s\<lparr>cr3 := n\<rparr>) cs d q = proc_ok s cs d q"
  for s :: "'a proc_state_scheme"
  by (simp_all add: kernel_ok_def proc_ok_def own_space_def)

lemma sched_inv_of_procs:
  assumes "procs_inv s bs lost d ps" "ps \<noteq> []"
  obtains i where "sched_inv s ps i"
proof (cases "current_process s = 0")
  case True
  then have "sched_inv s ps 0" using assms by (simp add: sched_inv_def procs_inv_def)
  then show thesis by (rule that)
next
  case False
  then have "current_process s \<in> set ps" using assms(1) by (simp add: procs_inv_def)
  then obtain j where j: "j < length ps" "ps ! j = current_process s" by (auto simp: in_set_conv_nth)
  have path: "proc_path (mem s) (process_list s) ps" using assms(1) by (simp add: procs_inv_def)
  show thesis
  proof (cases "Suc j = length ps")
    case True
    then have "current_process s = last ps" using j assms(2) by (metis diff_Suc_1 last_conv_nth)
    then have "sched_inv s ps 0" using assms(2) path by (simp add: sched_inv_def)
    then show thesis by (rule that)
  next
    case False
    then have "sched_inv s ps (Suc j)" using j path assms(2) by (simp add: sched_inv_def)
    then show thesis by (rule that)
  qed
qed

lemma schedule_procs:
  assumes inv: "procs_inv s bs lost d ps"
  shows "procs_inv (schedule s) bs lost d ps" "mem (schedule s) = mem s" "free_pages (schedule s) = free_pages s"
    "ps \<noteq> [] \<Longrightarrow> current_process (schedule s) \<noteq> 0"
    "ps \<noteq> [] \<Longrightarrow> cr3 (schedule s) = pfield (mem s) (current_process (schedule s)) P_PAGE_DIR_PHYS"
proof -
  obtain x c where f: "schedule s = s\<lparr>current_process := x, cr3 := c\<rparr>" using schedule_frame by blast
  show "mem (schedule s) = mem s" "free_pages (schedule s) = free_pages s" by (simp_all add: f)
  have path: "proc_path (mem s) (process_list s) ps" using inv by (simp add: procs_inv_def)
  have run: "\<exists>i < length ps. runs (schedule s) (ps ! i)" if ne: "ps \<noteq> []"
  proof -
    obtain i where i: "sched_inv s ps i" using sched_inv_of_procs [OF inv ne] .
    then show ?thesis using schedule_step(1) [OF i] by (auto simp: sched_inv_def)
  qed
  have "current_process (schedule s) \<in> set ps" if "ps \<noteq> []" using run [OF that] by (auto simp: runs_def)
  moreover have "schedule s = s" if "ps = []" using path that by (simp add: schedule_def)
  ultimately show "procs_inv (schedule s) bs lost d ps"
    using inv by (cases "ps = []") (simp_all add: procs_inv_def f)
  have nz: "q \<in> set ps \<Longrightarrow> q \<noteq> 0" for q
    using proc_path_nth [OF path] by (auto simp: in_set_conv_nth)
  show "ps \<noteq> [] \<Longrightarrow> current_process (schedule s) \<noteq> 0"
    "ps \<noteq> [] \<Longrightarrow> cr3 (schedule s) = pfield (mem s) (current_process (schedule s)) P_PAGE_DIR_PHYS"
    using run nz by (auto simp: runs_def f)
qed

definition fork_frames :: "'a proc_state_scheme \<Rightarrow> nat" where
  "fork_frames s = 4 + space_cost (mem s) (pd_of (mem s) (current_process s)) KERNEL_PD_INDEX"

section \<open>What the processor translates\<close>

text \<open>The address space the processor uses when process \<open>q\<close> runs.\<close>

definition proc_walk :: "'a proc_state_scheme \<Rightarrow> u32 \<Rightarrow> u32 \<Rightarrow> u32 option" where
  "proc_walk s q v = mmu_walk (mem s) (pfield (mem s) q P_PAGE_DIR_PHYS) v"

lemma proc_walk_dir:
  assumes "proc_ok s cs d q"
  shows "proc_walk s q v = mmu_walk (mem s) (page_addr (pd_of (mem s) q)) v"
  using assms unfolding proc_walk_def proc_ok_def by metis

lemma low_half: "v < 0xC0000000 \<longleftrightarrow> pdi v < 768"
proof -
  have "unat v div 4194304 < 768 \<longleftrightarrow> unat v < 768 * 4194304" by (rule div_less_iff_less_mult) simp
  then show ?thesis unfolding pdi_div by (simp add: word_less_nat_alt)
qed

lemma own_space_kernel:
  assumes own: "own_space s cs d P" and v: "768 \<le> pdi v"
  shows "mmu_walk (mem s) (page_addr P) v = mmu_walk (mem s) (page_addr d) v"
proof -
  have "entry (mem s) (page_addr P) (pdi v) = entry (mem s) (page_addr d) (pdi v)"
    using own v pdi_bound by (simp add: own_space_def)
  then show ?thesis by (simp add: mmu_walk_def del: of_nat_mult)
qed

text \<open>A fault in the terms of the processor's translation.\<close>

lemma fault_walk:
  fixes s :: "'a proc_state_scheme"
  assumes "procs_inv s bs lost d ps" "current_process s \<noteq> 0" "err AND 1 = 0" "addr < 0xC0000000"
    and "2 \<le> card (free_pages s)"
  obtains s' f where "page_fault_handler err addr s = s'" "procs_inv s' bs lost d ps" "f \<in> free_pages s - free_pages s'"
    "\<And>v. proc_walk s' (current_process s) v =
       (if drop_bit 12 v = drop_bit 12 addr then Some (page_addr f OR (v AND 0xFFF)) else proc_walk s (current_process s) v)"
    "\<And>q v. q \<in> set ps \<Longrightarrow> q \<noteq> current_process s \<Longrightarrow> proc_walk s' q v = proc_walk s q v"
    "preserves s (bs @ lost) s' (bs @ lost) (private_frames (mem s) (pd_of (mem s) (current_process s))) {}"
    "kernel_page_dir s' = kernel_page_dir s"
proof -
  let ?p = "current_process s"
  have user: "pdi addr < 768" using assms(4) low_half by blast
  obtain s' f where s': "page_fault_handler err addr s = s'" "procs_inv s' bs lost d ps" "f \<in> free_pages s - free_pages s'"
    "\<And>v. mmu_walk (mem s') (page_addr (pd_of (mem s) ?p)) v =
       (if drop_bit 12 v = drop_bit 12 addr then Some (page_addr f OR (v AND 0xFFF))
        else mmu_walk (mem s) (page_addr (pd_of (mem s) ?p)) v)"
    "\<And>q v. q \<in> set ps \<Longrightarrow> q \<noteq> ?p \<Longrightarrow>
       mmu_walk (mem s') (page_addr (pd_of (mem s') q)) v = mmu_walk (mem s) (page_addr (pd_of (mem s) q)) v"
    "\<And>q off. q \<in> set ps \<Longrightarrow> field_offset off \<Longrightarrow> pfield (mem s') q off = pfield (mem s) q off"
    "preserves s (bs @ lost) s' (bs @ lost) (private_frames (mem s) (pd_of (mem s) ?p)) {}" "kernel_page_dir s' = kernel_page_dir s"
    by (rule fault_result [OF assms(1-3) user assms(5)], rule that, assumption+)
  have p: "?p \<in> set ps" using assms(1,2) by (simp add: procs_inv_def)
  have ok: "proc_ok s (bs @ lost) d q" "proc_ok s' (bs @ lost) d q" if "q \<in> set ps" for q
    using assms(1) s'(2) that by (auto simp: procs_inv_def)
  note w = proc_walk_dir [OF ok(1)] proc_walk_dir [OF ok(2)]
  have pd: "pd_of (mem s') ?p = pd_of (mem s) ?p" using s'(6) [OF p, of P_PAGE_DIR] by simp
  have mine: "proc_walk s' ?p v =
      (if drop_bit 12 v = drop_bit 12 addr then Some (page_addr f OR (v AND 0xFFF)) else proc_walk s ?p v)" for v
    unfolding w(2) [OF p] pd s'(4) w(1) [OF p] ..
  have others: "proc_walk s' q v = proc_walk s q v" if "q \<in> set ps" "q \<noteq> ?p" for q v
    unfolding w(1) [OF that(1)] w(2) [OF that(1)] by (rule s'(5) [OF that])
  show thesis by (rule that [OF s'(1-3) mine others s'(7,8)])
qed

section \<open>A machine ready for processes\<close>

text \<open>The 128 MiB machine with paging on and its heap set up, and no process yet.\<close>

definition before_procs :: proc_state where
  "before_procs = proc0 (pci0 (gd0 paged))"

definition booted_procs :: proc_state where
  "booted_procs = heap_init before_procs"

abbreviation booted_block :: hblk where
  "booted_block \<equiv> page_block (Min (free_pages before_procs))"

lemma before_procs_ok:
  "space_inv before_procs 0" "kernel_page_dir before_procs = page_addr 0" "0 \<notin> free_pages before_procs"
  "100 \<le> card (free_pages before_procs)" "process_list before_procs = 0" "current_process before_procs = 0"
  "mmu_walk (mem before_procs) 0 v = (if unat v < 0x800000 then Some v else None)"
proof -
  have f: "mem before_procs = mem paged" "pmm_bitmap before_procs = pmm_bitmap paged"
    "pmm_bitmap_size before_procs = pmm_bitmap_size paged" "total_pages before_procs = total_pages paged"
    "kernel_page_dir before_procs = kernel_page_dir paged" "process_list before_procs = 0" "current_process before_procs = 0"
    by (simp_all add: before_procs_def proc0_def pci0_def gd0_def proc_state.defs pci_state.defs gd_state.defs paging_state.defs)
  then have fr: "free_pages before_procs = free_pages paged" "bitmap_region before_procs = bitmap_region paged"
    by (simp_all add: free_pages_def bitmap_region_def)
  have "pmm_inv before_procs = pmm_inv paged" by (simp add: pmm_inv_def fr f)
  then show "space_inv before_procs 0" using paged_ok(1) by (simp add: space_inv_def fr f)
  show "kernel_page_dir before_procs = page_addr 0" "process_list before_procs = 0" "current_process before_procs = 0"
    using paged_ok(2) f by simp_all
  show "0 \<notin> free_pages before_procs" using paged_ok(5) fr by auto
  show "100 \<le> card (free_pages before_procs)" using paged_free fr by simp
  show "mmu_walk (mem before_procs) 0 v = (if unat v < 0x800000 then Some v else None)" using paged_ok(3) f by simp
qed

lemma booted_procs_inv:
  "procs_inv booted_procs [booted_block] [] 0 []" "99 \<le> card (free_pages booted_procs)"
proof -
  have ne: "free_pages before_procs \<noteq> {}" using before_procs_ok(4) by auto
  show "procs_inv booted_procs [booted_block] [] 0 []"
    unfolding booted_procs_def by (rule procs_inv_start [OF before_procs_ok(1-3) ne before_procs_ok(5,6)])
  have pinv: "pmm_inv before_procs" using before_procs_ok(1) by (simp add: space_inv_def)
  have "Min (free_pages before_procs) \<in> free_pages before_procs" using ne by (intro Min_in) auto
  then show "99 \<le> card (free_pages booted_procs)"
    using before_procs_ok(4) unfolding booted_procs_def heap_init_inv(2) [OF pinv before_procs_ok(3) ne] by simp
qed

text \<open>A fork right after the first process has been created and scheduled needs six frames.\<close>

lemma fresh_cost:
  assumes "fresh_process s s' d eip p" "proc_ok s' cs d p"
  shows "space_cost (mem s') (pd_of (mem s') p) 768 = 2"
proof -
  let ?Q = "pd_of (mem s') p"
  have pr: "present (mem s') ?Q i \<longleftrightarrow> i = 2" if "i < 768" for i using assms(1) that by (simp add: fresh_process_def)
  obtain f where w: "mmu_walk (mem s') (page_addr ?Q) v = new_walk (mem s) d f v" for v
    using assms(1) by (auto simp: fresh_process_def)
  have "pte_present (pte_at (mem s') ?Q 2 j) \<longleftrightarrow> j = 1023" if j: "j < 1024" for j
  proof -
    have p: "pdi (page_at 2 j) = 2" "pti (page_at 2 j) = j" "unat (page_at 2 j) = 2 * 4194304 + j * 4096"
      using page_at [of 2 j] j by simp_all
    have "drop_bit 12 (page_at 2 j) = 0xBFF \<longleftrightarrow> drop_bit 12 (page_at 2 j) = drop_bit 12 (0xBFF000 :: u32)"
      by (simp add: drop_bit_eq_div)
    also have "\<dots> \<longleftrightarrow> unat (page_at 2 j) div 4096 = unat (0xBFF000 :: u32) div 4096" by (rule drop12_unat)
    also have "\<dots> \<longleftrightarrow> j = 1023" unfolding p(3) by simp
    finally have "mmu_walk (mem s') (page_addr ?Q) (page_at 2 j) \<noteq> None \<longleftrightarrow> j = 1023" unfolding w p(1) by simp
    then show ?thesis using pr [of 2] p(1,2) by (simp add: mmu_walk_pte del: of_nat_mult split: if_splits)
  qed
  then have "{j. j < 1024 \<and> pte_present (pte_at (mem s') ?Q 2 j)} = {1023}" by auto
  then have "table_cost (mem s') ?Q i = (if i = 2 then 2 else 0)" if "i < 768" for i
    using pr [OF that] by (simp add: table_cost_def)
  then have "space_cost (mem s') ?Q 768 = (\<Sum>i<(768 :: nat). if i = 2 then 2 else 0)"
    unfolding space_cost_def by (intro sum.cong) auto
  then show ?thesis by simp
qed

text \<open>The first process, running.\<close>

lemma first_process:
  obtains p s1 bs lost where "create_process eip esp ebp booted_procs = Some (p, s1)"
    "procs_inv (schedule s1) bs lost 0 [p]" "current_process (schedule s1) = p" "p \<noteq> 0"
    "fresh_process booted_procs s1 0 eip p" "fork_frames (schedule s1) = 6" "95 \<le> card (free_pages (schedule s1))"
    "mem (schedule s1) = mem s1"
proof -
  have four: "4 \<le> card (free_pages booted_procs)" using booted_procs_inv(2) by simp
  obtain p s1 bs lost where c: "create_process eip esp ebp booted_procs = Some (p, s1)" "p \<noteq> 0" "procs_inv s1 bs lost 0 [p]"
    "fresh_process booted_procs s1 0 eip p" "card (free_pages booted_procs) \<le> card (free_pages s1) + 4"
    using create_process_result [OF booted_procs_inv(1) four, of eip esp ebp] by metis
  note S = schedule_procs [OF c(3)]
  have cp: "current_process (schedule s1) = p" using S(1,4) by (simp add: procs_inv_def)
  have "proc_ok s1 (bs @ lost) 0 p" using c(3) by (simp add: procs_inv_def)
  then have "fork_frames (schedule s1) = 6" using fresh_cost [OF c(4)] by (simp add: fork_frames_def S(2) cp)
  moreover have "95 \<le> card (free_pages (schedule s1))" using c(5) booted_procs_inv(2) S(3) by simp
  ultimately show thesis using that c(1,2,4) S(1,2) cp by blast
qed

section \<open>Properties\<close>

text \<open>
  C9 (creating a process): given four free frames, \<open>create_process\<close> succeeds and
  enters at the head of the list a READY process with the next process number, the
  instruction pointer asked for and a stack pointer sixteen bytes below the end of its
  stack page.  Its own directory maps that page, at 0xBFF000, to a zeroed fresh frame,
  the addresses from 0xC0000000 on as the kernel's directory does, and nothing else.
  The process list stays well formed, and no frame anybody owned and no live heap block
  is written.
\<close>

theorem create_process_builds:
  assumes "procs_inv s bs lost d ps" "4 \<le> card (free_pages s)"
  shows "\<exists>p s' bs' lost'. create_process eip esp ebp s = Some (p, s') \<and> p \<notin> set ps \<and> fresh_process s s' d eip p \<and>
    procs_inv s' bs' lost' d (p # ps) \<and> preserves s (bs @ lost) s' (bs' @ lost') {} {}"
proof -
  obtain p s' bs' lost' where "create_process eip esp ebp s = Some (p, s')" "p \<notin> set ps"
    "procs_inv s' bs' lost' d (p # ps)" "preserves s (bs @ lost) s' (bs' @ lost') {} {}" "fresh_process s s' d eip p"
    by (rule create_process_result [OF assms]) blast
  then show ?thesis by blast
qed

theorem create_process_builds_witness:
  "\<exists>p s'. create_process 0x401000 0 0 booted_procs = Some (p, s') \<and> pfield (mem s') p P_ESP = 0xBFFFF0 \<and>
    pfield (mem s') p P_EIP = 0x401000"
proof -
  have "4 \<le> card (free_pages booted_procs)" using booted_procs_inv(2) by simp
  from create_process_builds [OF booted_procs_inv(1) this, of "0x401000" 0 0] show ?thesis
    by (auto simp: fresh_process_def)
qed

text \<open>
  C4 (forking): for a running process and enough free frames, \<open>fork\<close> returns the
  child's process number.  The child continues at the parent's saved instruction
  pointer; wherever the parent has a page table below 0xC0000000, the child translates
  exactly the addresses the parent does, each to a fresh frame that holds the same byte;
  above, it sees what the kernel's directory maps.  The parent's memory and everything
  else anybody owns keep their contents.
\<close>

theorem fork_copies_parent:
  assumes "procs_inv s bs lost d ps" "current_process s \<noteq> 0" "fork_frames s \<le> card (free_pages s)"
  shows "\<exists>c s' bs' lost'. k_fork s = Some (sint (next_pid s), s') \<and> c \<notin> set ps \<and> procs_inv s' bs' lost' d (c # ps) \<and>
    pfield (mem s') c P_PID = next_pid s \<and> pfield (mem s') c P_EIP = pfield (mem s) (current_process s) P_EIP \<and>
    fork_space s s' d (pd_of (mem s) (current_process s)) (pd_of (mem s') c) \<and>
    preserves s (bs @ lost) s' (bs' @ lost') {} {}"
proof -
  obtain c s' bs' lost' where "k_fork s = Some (sint (next_pid s), s')" "c \<notin> set ps"
    "procs_inv s' bs' lost' d (c # ps)" "preserves s (bs @ lost) s' (bs' @ lost') {} {}"
    "pfield (mem s') c P_PID = next_pid s" "pfield (mem s') c P_EIP = pfield (mem s) (current_process s) P_EIP"
    "fork_space s s' d (pd_of (mem s) (current_process s)) (pd_of (mem s') c)"
    by (rule fork_result [OF assms [unfolded fork_frames_def]]) blast
  then show ?thesis by blast
qed

theorem fork_copies_parent_witness:
  "\<exists>p s1 c s2. create_process 0x401000 0 0 booted_procs = Some (p, s1) \<and> k_fork (schedule s1) = Some (2, s2) \<and>
    pfield (mem s2) c P_PID = 2 \<and> pfield (mem s2) c P_EIP = 0x401000"
proof -
  obtain p s1 bs lost where p: "create_process 0x401000 0 0 booted_procs = Some (p, s1)"
    "procs_inv (schedule s1) bs lost 0 [p]" "current_process (schedule s1) = p" "p \<noteq> 0"
    "fresh_process booted_procs s1 0 0x401000 p" "fork_frames (schedule s1) = 6" "95 \<le> card (free_pages (schedule s1))"
    "mem (schedule s1) = mem s1"
    by (rule first_process)
  obtain x c where sch: "schedule s1 = s1\<lparr>current_process := x, cr3 := c\<rparr>" using schedule_frame by blast
  have "next_pid booted_procs = 1"
    by (simp add: booted_procs_def heap_init_def before_procs_def proc0_def proc_state.defs pci_state.defs Let_def pmm_alloc_page_spec)
  then have pid: "next_pid (schedule s1) = 2" using p(5) by (simp add: sch fresh_process_def)
  have "current_process (schedule s1) \<noteq> 0" "fork_frames (schedule s1) \<le> card (free_pages (schedule s1))"
    using p(3,4,6,7) by simp_all
  from fork_copies_parent [OF p(2) this] pid p(1,3,5,8) show ?thesis by (auto simp: fresh_process_def)
qed



end
