(* ===== verification/Faults.thy ===== *)
theory Faults
  imports Stubs ProcFork
begin

text \<open>
  A page fault from the processor to the page tables and back: the gate, the stub of
  \<open>asm/irq_stub.asm\<close>, the handler of \<open>memory/pf.c\<close> and the return to the faulting
  instruction.  The stub's stack is kernel memory that belongs to no process and to no
  heap block; writing it keeps the invariant of the process list.
\<close>

section \<open>Memory of the kernel's own\<close>

text \<open>A frame that is allocated, and is no part of the heap or of any address space.\<close>

definition kernel_frame :: "'a proc_state_scheme \<Rightarrow> hblk list \<Rightarrow> nat \<Rightarrow> u32 list \<Rightarrow> nat \<Rightarrow> bool" where
  "kernel_frame s cs d ps g \<longleftrightarrow> owned s cs g \<and> g \<notin> space_frames (mem s) d \<and>
     (\<forall>q \<in> set ps. g \<notin> private_frames (mem s) (pd_of (mem s) q))"

text \<open>The fields the invariant does not depend on.\<close>

lemma procs_inv_frame [simp]:
  "procs_inv (s\<lparr>interrupts_on := b\<rparr>) bs lost d ps = procs_inv s bs lost d ps"
  "procs_inv (s\<lparr>idt := i\<rparr>) bs lost d ps = procs_inv s bs lost d ps"
  "free_pages (s\<lparr>interrupts_on := b\<rparr>) = free_pages s" "free_pages (s\<lparr>idt := i\<rparr>) = free_pages s"
  "proc_walk (s\<lparr>interrupts_on := b\<rparr>) q v = proc_walk s q v" "proc_walk (s\<lparr>idt := i\<rparr>) q v = proc_walk s q v"
  "owned (s\<lparr>interrupts_on := b\<rparr>) cs g = owned s cs g" "owned (s\<lparr>idt := i\<rparr>) cs g = owned s cs g"
  for s :: "'a proc_state_scheme"
  by (simp_all add: procs_inv_def kernel_ok_def proc_ok_def own_space_def space_inv_def owned_def heap_area_def
      heap_inv_def pmm_inv_def free_pages_def bitmap_region_def proc_walk_def)

text \<open>A step that takes frames, and writes those and frames of the kernel's own.\<close>

lemma procs_inv_use:
  fixes s :: "'a proc_state_scheme"
  assumes inv: "procs_inv s bs lost d ps" and use: "frame_use D s s'"
    and D: "\<And>g. g \<in> D \<Longrightarrow> kernel_frame s (bs @ lost) d ps g"
  shows "procs_inv s' bs lost d ps" "current_process s' = current_process s"
    "owned s (bs @ lost) g \<Longrightarrow> owned s' (bs @ lost) g" "space_frames (mem s') d = space_frames (mem s) d"
    "q \<in> set ps \<Longrightarrow> private_frames (mem s') (pd_of (mem s') q) = private_frames (mem s) (pd_of (mem s) q)"
    "q \<in> set ps \<Longrightarrow> proc_walk s' q v = proc_walk s q v"
proof -
  let ?cs = "bs @ lost"
  have heap: "heap_inv s bs lost" and kern: "kernel_ok s ?cs d" using inv by (simp_all add: procs_inv_def)
  have own: "owned s ?cs g" if "g \<in> D" for g using D [OF that] by (simp add: kernel_frame_def)
  have pres: "preserves s ?cs s' ?cs D {}" "heap_inv s' bs lost" by (rule preserves_use [OF heap use own], assumption)+
  show "owned s ?cs g \<Longrightarrow> owned s' ?cs g" for g by (rule preservesD(2) [OF pres(1)])
  have ok: "proc_ok s ?cs d q" if "q \<in> set ps" for q using inv that by (simp add: procs_inv_def)
  have "s' = s\<lparr>mem := mem s'\<rparr>" by (rule frame_useD(1) [OF use])
  then have k: "kernel_page_dir s' = kernel_page_dir s" "process_list s' = process_list s" "current_process s' = current_process s"
    by (metis proc_state.select_convs(1,2) proc_state.surjective paging_state.select_convs(2) hw.update_convs(1))+
  then show "current_process s' = current_process s" by blast
  have Dk: "D \<inter> space_frames (mem s) d = {}" using D by (auto simp: kernel_frame_def)
  have Dq: "D \<inter> private_frames (mem s) (pd_of (mem s) q) = {}" if "q \<in> set ps" for q
    using D that by (auto simp: kernel_frame_def)
  note K = proc_ok_keep [OF pres(1) kern ok k(1) Dk Dq]
  show "space_frames (mem s') d = space_frames (mem s) d" by (rule kernel_ok_keep(2) [OF pres(1) kern Dk k(1)])
  have pf: "pfield (mem s') q off = pfield (mem s) q off" if "q \<in> set ps" "field_offset off" for q off
    using K(2) [OF that(1,1) _ that(2)] by simp
  have priv: "private_frames (mem s') (pd_of (mem s') q) = private_frames (mem s) (pd_of (mem s) q)" if "q \<in> set ps" for q
    using K(3) [OF that that] by simp
  then show "q \<in> set ps \<Longrightarrow> private_frames (mem s') (pd_of (mem s') q) = private_frames (mem s) (pd_of (mem s) q)" .
  have ok': "proc_ok s' ?cs d q" if "q \<in> set ps" for q by (rule K(1) [OF that that]) simp
  show "proc_walk s' q v = proc_walk s q v" if "q \<in> set ps" for q
    unfolding proc_walk_dir [OF ok [OF that]] proc_walk_dir [OF ok' [OF that]] by (rule K(4) [OF that that]) simp
  have "proc_path (mem s') (process_list s) ps"
    by (rule proc_path_cong [OF _ pf]) (use inv in \<open>simp_all add: procs_inv_def\<close>)
  moreover have "kernel_ok s' ?cs d" by (rule kernel_ok_keep(1) [OF pres(1) kern Dk k(1)])
  ultimately show "procs_inv s' bs lost d ps"
    using inv pres(2) ok' priv k(2,3) unfolding procs_inv_def by simp
qed

text \<open>Memory of the kernel's own may be written, and a fresh frame can become such.\<close>

lemma kernel_write_use:
  assumes inv: "procs_inv s bs lost d ps" and o: "only_changes A (mem s) m"
    and A: "\<And>x. x \<in> A \<Longrightarrow> kernel_frame s (bs @ lost) d ps (frame_of x)"
  shows "frame_use (frame_of ` A) s (s\<lparr>mem := m\<rparr>)" "free_pages (s\<lparr>mem := m\<rparr>) = free_pages s"
proof -
  let ?D = "frame_of ` A"
  have pinv: "pmm_inv s" using inv by (simp add: procs_inv_def heap_inv_def)
  have cover: "A \<subseteq> \<Union> (page_span ` ?D)" using in_frame by blast
  have "page_span g \<inter> bitmap_region s = {}" if "g \<in> ?D" for g
    using owned_held [OF pinv, of "bs @ lost" g] A that by (auto simp: kernel_frame_def held_def)
  then have "A \<inter> bitmap_region s = {}" using cover by blast
  note keep = kernel_pages.write_keeps [OF pinv o this]
  then show fr: "free_pages (s\<lparr>mem := m\<rparr>) = free_pages s" by simp
  have "only_changes (bitmap_region s \<union> \<Union> (page_span ` (?D \<union> (free_pages s - free_pages (s\<lparr>mem := m\<rparr>))))) (mem s) m"
    by (rule only_changes_mono [OF o]) (use cover in blast)
  then show "frame_use ?D s (s\<lparr>mem := m\<rparr>)" using keep by (auto simp: frame_use_def)
qed

lemma fresh_kernel_frame:
  assumes inv: "procs_inv s bs lost d ps" and use: "frame_use {} s s'" and g: "g \<in> free_pages s - free_pages s'"
  shows "kernel_frame s' (bs @ lost) d ps g"
proof -
  have heap: "heap_inv s bs lost" using inv by (simp add: procs_inv_def)
  then have "\<not> owned s (bs @ lost) g" using owned_not_free g by (auto simp: heap_inv_def)
  then have "g \<notin> space_frames (mem s) d" "q \<in> set ps \<Longrightarrow> g \<notin> private_frames (mem s) (pd_of (mem s) q)" for q
    using inv by (auto simp: procs_inv_def kernel_ok_def proc_ok_def own_space_def)
  then show ?thesis
    using fresh_owned [OF heap use g] procs_inv_use(4,5) [OF inv use] unfolding kernel_frame_def by auto
qed

section \<open>Property\<close>


text \<open>A frame taken for a kernel stack, and the processor using its end.\<close>

lemma top_of_frame:
  assumes "g < 2 ^ 20" "x \<in> span (page_addr g + 4096 - 76) 76"
  shows "frame_of x = g"
proof -
  have "x - page_addr g = (x - (page_addr g + 4096 - 76)) + 4020" by simp
  moreover have "unat (y + 4020) < 4096" if "unat y < 76" for y :: u32 using that by (simp add: unat_word_ariths)
  then have "unat ((x - (page_addr g + 4096 - 76)) + 4020) < 4096" using assms(2) by (simp only: span_iff)
  ultimately have "x \<in> page_span g" unfolding page_span_def span_iff by metis
  then show ?thesis using page_span_iff [OF assms(1)] by (simp add: frame_of_def drop_bit_eq_div unat_div)
qed


end
