(* ===== verification/HeapRegion.thy ===== *)
theory HeapRegion
  imports HeapFree
begin

text \<open>
  The heap over its life, as long as no request makes it take a second page: a step
  relation of the calls to \<open>malloc\<close> and \<open>free\<close> that a client makes with
  the pointers it holds, and what every state it reaches satisfies.  The list of
  blocks tiles the page of the heap, so nothing leaks, and two free blocks are never
  neighbours, so the page is whole again once everything has been given back.
\<close>

section \<open>Tilings\<close>

text \<open>The blocks cover the addresses from \<open>lo\<close> to \<open>hi\<close>, none of them empty.\<close>

fun tiles :: "nat \<Rightarrow> nat \<Rightarrow> hblk list \<Rightarrow> bool" where
  "tiles lo hi [] \<longleftrightarrow> lo = hi"
| "tiles lo hi (b # bs) \<longleftrightarrow> b_addr b = lo \<and> 0 < b_size b \<and> tiles (b_end b) hi bs"

lemma tiles_append: "tiles lo hi (xs @ ys) \<longleftrightarrow> (\<exists>k. tiles lo k xs \<and> tiles k hi ys)"
  by (induction xs arbitrary: lo) auto

lemma tiles_size: "tiles lo hi bs \<Longrightarrow> b \<in> set bs \<Longrightarrow> 0 < b_size b"
  by (induction bs arbitrary: lo) auto

lemma tiles_contiguous: "tiles lo hi bs \<Longrightarrow> contiguous bs"
  by (induction bs arbitrary: lo rule: contiguous.induct) auto

lemma tiles_merge: "tiles lo hi bs \<Longrightarrow> tiles lo hi (merge_free bs)"
proof (induction bs arbitrary: lo rule: merge_free_induct)
  case (two a b bs)
  show ?case
  proof (cases "\<not> b_used a \<and> \<not> b_used b")
    case True
    then show ?thesis using two(1) [OF True, of lo] two.prems by (auto simp: b_end_def ac_simps)
  next
    case False
    then have "merge_free (a # b # bs) = a # merge_free (b # bs)" by auto
    then show ?thesis using two(2) [OF False, of "b_end a"] two.prems by simp
  qed
qed auto

lemma tiles_freed: "tiles lo hi (pre @ freed b # post) = tiles lo hi (pre @ b # post)"
  by (simp add: tiles_append b_end_def)

lemma tiles_carve:
  assumes "tiles lo hi (pre @ b # post)" "fits n b" "0 < n"
  shows "tiles lo hi (pre @ carve n b @ post)"
  proof -
  have "tiles k l (carve n b) = tiles k l [b]" for k l
    using assms(2,3) tiles_size [OF assms(1), of b] by (auto simp: carve_def b_end_def fits_def)
  then have "tiles lo hi (pre @ carve n b @ post) = tiles lo hi (pre @ [b] @ post)"
    unfolding tiles_append by blast
  then show ?thesis using assms(1) by simp
qed

lemma no_adjacent_append:
  "no_adjacent_free (xs @ ys) \<longleftrightarrow> no_adjacent_free xs \<and> no_adjacent_free ys \<and>
    (xs = [] \<or> ys = [] \<or> b_used (last xs) \<or> b_used (hd ys))"
  by (induction xs rule: no_adjacent_free.induct) (cases ys; auto)+

lemma no_adjacent_carve:
  assumes "no_adjacent_free (pre @ b # post)" "fits n b"
  shows "no_adjacent_free (pre @ carve n b @ post)"
  using assms by (cases post) (auto simp: no_adjacent_append carve_def fits_def)

text \<open>A tiling with no block in use and no free neighbours is one free block.\<close>

lemma tiles_all_free:
  assumes "tiles lo hi bs" "no_adjacent_free bs" "\<forall>b \<in> set bs. \<not> b_used b" "lo < hi"
  shows "bs = [\<lparr>b_addr = lo, b_size = hi - lo - 12, b_used = False\<rparr>]"
proof (cases bs)
  case (Cons b cs)
  then have "cs = []" using assms(2,3) by (cases cs) auto
  then show ?thesis using assms(1,3) Cons by (cases b) (auto simp: b_end_def)
qed (use assms in simp)

section \<open>The pointers a client holds\<close>

definition ptr_of :: "hblk \<Rightarrow> u32" where
  "ptr_of b = of_nat (b_addr b + 12)"

abbreviation ptrs :: "hblk list \<Rightarrow> u32 set" where
  "ptrs bs \<equiv> ptr_of ` set (filter b_used bs)"

lemma unat_ptr_of:
  assumes "packed bs" "tiles lo hi bs" "b \<in> set bs"
  shows "unat (ptr_of b) = b_addr b + 12"
proof -
  have "b_end b \<le> 2 ^ 32" using assms(1,3) by (simp add: packed_def)
  then show ?thesis unfolding ptr_of_def
    using tiles_size [OF assms(2,3)] by (intro unat_of_nat32) (simp add: b_end_def)
qed

lemma ptrs_carve:
  assumes "fits n b"
  shows "ptrs (pre @ carve n b @ post) = insert (ptr_of b) (ptrs (pre @ b # post))"
proof -
  have "ptrs (carve n b) = {ptr_of b}" by (simp add: carve_def ptr_of_def del: set_filter)
  then show ?thesis using assms by (auto simp: fits_def image_Un)
qed

lemma ptrs_release:
  assumes "packed (pre @ b # post)" "tiles lo hi (pre @ b # post)" "b_used b"
  shows "ptrs (merge_free (pre @ freed b # post)) = ptrs (pre @ b # post) - {ptr_of b}"
proof -
  let ?bs = "pre @ b # post"
  have "ptr_of c \<noteq> ptr_of b" if "c \<in> set pre \<union> set post" for c
  proof
    assume eq: "ptr_of c = ptr_of b"
    have c: "c \<in> set ?bs" and b: "b \<in> set ?bs" using that by auto
    have "b_addr c = b_addr b"
      using unat_ptr_of [OF assms(1,2) c] unat_ptr_of [OF assms(1,2) b] eq by simp
    then have "c = b" by (rule packed_addr_inj [OF assms(1) c b])
    then show False using that packed_distinct [OF assms(1)] by auto
  qed
  then show ?thesis unfolding merge_used using assms(3) by auto
qed

section \<open>Steps of the heap\<close>

text \<open>
  A state of the kernel and the pointers held: a request that is served without
  taking a frame, or a pointer given back.
\<close>

inductive heap_step :: "'a heap_state_scheme \<times> u32 set \<Rightarrow> 'a heap_state_scheme \<times> u32 set \<Rightarrow> bool" where
  alloc: "0 < n \<Longrightarrow> malloc n s = Some (p, t) \<Longrightarrow> p \<noteq> 0 \<Longrightarrow> free_pages t = free_pages s \<Longrightarrow>
    heap_step (s, L) (t, insert p L)"
| release: "p \<in> L \<Longrightarrow> free p s = Some t \<Longrightarrow> heap_step (s, L) (t, L - {p})"

inductive_cases heap_stepE: "heap_step (s, L) (t, M)"

definition region_heap :: "nat \<Rightarrow> 'a heap_state_scheme \<Rightarrow> u32 set \<Rightarrow> hblk list \<Rightarrow> bool" where
  "region_heap i s L bs \<longleftrightarrow> heap_inv s bs [] \<and> heap_end s = heap_start s \<and>
     tiles (i * 4096) (i * 4096 + 4096) bs \<and> no_adjacent_free bs \<and> L = ptrs bs"

text \<open>A request that no block fits takes a frame.\<close>

lemma malloc_takes_frame:
  assumes "heap_inv s bs []" "\<forall>b \<in> set bs. \<not> fits (unat n) b" "0 < n" "malloc n s = Some (p, t)" "p \<noteq> 0"
  shows "free_pages t \<noteq> free_pages s"
proof -
  have ne: "free_pages s \<noteq> {}" using malloc_no_fit(1) [OF assms(1,2)] assms(4,5) by auto
  obtain s1 bs1 lost1 where s1: "malloc n s = malloc n s1" "heap_inv s1 bs1 lost1"
    "card (free_pages s1) < card (free_pages s)"
    by (rule malloc_grow_step [OF assms(1,2) ne])
  have "free_pages t \<subseteq> free_pages s1" using malloc_spec [OF s1(2) assms(3)] s1(1) assms(4) by auto
  then have "card (free_pages t) < card (free_pages s)"
    using s1(3) card_mono [OF finite_free_pages, of "free_pages t" s1] by simp
  then show ?thesis by auto
qed

lemma region_alloc:
  assumes "region_heap i s L bs" "0 < n" "malloc n s = Some (p, t)" "p \<noteq> 0" "free_pages t = free_pages s"
  shows "\<exists>bs'. region_heap i t (insert p L) bs'"
proof -
  have r: "heap_inv s bs []" "heap_end s = heap_start s" "tiles (i * 4096) (i * 4096 + 4096) bs"
    "no_adjacent_free bs" "L = ptrs bs" using assms(1) by (simp_all add: region_heap_def)
  have "\<exists>b \<in> set bs. fits (unat n) b" using malloc_takes_frame [OF r(1) _ assms(2-4)] assms(5) by blast
  then obtain pre b post where bs: "bs = pre @ b # post" and b: "fits (unat n) b" "\<forall>x \<in> set pre. \<not> fits (unat n) x"
    using split_list_first_prop [of bs "fits (unat n)"] by blast
  obtain m' where m': "malloc n s = Some (of_nat (b_addr b + 12), s\<lparr>mem := m'\<rparr>)"
    "heap_inv (s\<lparr>mem := m'\<rparr>) (pre @ carve (unat n) b @ post) []"
    by (rule malloc_fit_inv [OF r(1) [unfolded bs] b(2,1)])
  have t: "t = s\<lparr>mem := m'\<rparr>" "p = ptr_of b" using m'(1) assms(3) by (simp_all add: ptr_of_def)
  have n: "0 < unat n" using assms(2) by (simp add: word_less_nat_alt)
  have "region_heap i t (insert p L) (pre @ carve (unat n) b @ post)"
    unfolding region_heap_def
    using m'(2) r(2) tiles_carve [OF r(3) [unfolded bs] b(1) n] no_adjacent_carve [OF r(4) [unfolded bs] b(1)]
      ptrs_carve [OF b(1), of pre post] r(5) bs t by simp
  then show ?thesis by blast
qed

lemma region_release:
  assumes "region_heap i s L bs" "p \<in> L"
  obtains t bs' where "free p s = Some t" "region_heap i t (L - {p}) bs'"
proof -
  have r: "heap_inv s bs []" "heap_end s = heap_start s" "tiles (i * 4096) (i * 4096 + 4096) bs"
    "L = ptrs bs" using assms(1) by (simp_all add: region_heap_def)
  obtain b where b: "b \<in> set bs" "b_used b" "p = ptr_of b" using assms(2) r(4) by auto
  obtain pre post where bs: "bs = pre @ b # post" using b(1) by (metis split_list)
  have pk: "packed bs" using r(1) by (simp add: heap_inv_def)
  have u: "unat p = b_addr b + 12" unfolding b(3) by (rule unat_ptr_of [OF pk r(3) b(1)])
  let ?bs' = "merge_free (pre @ freed b # post)"
  obtain t where t: "free p s = Some t" "heap_inv t ?bs' []" "heap_end t = heap_start t"
    by (rule free_region [OF r(1) [unfolded bs] tiles_contiguous [OF r(3) [unfolded bs]] r(2) u])
  have "region_heap i t (L - {p}) ?bs'"
    unfolding region_heap_def
    using t(2,3) tiles_merge tiles_freed r(3,4) no_adjacent_merge ptrs_release [OF pk [unfolded bs] r(3) [unfolded bs] b(2)]
    unfolding bs b(3) by blast
  then show thesis by (rule that [OF t(1)])
qed

lemma region_step:
  assumes "heap_step (s, L) (t, M)" "region_heap i s L bs"
  shows "\<exists>bs'. region_heap i t M bs'"
  using assms(1)
proof (rule heap_stepE)
  fix n p
  assume "M = insert p L" "0 < n" "malloc n s = Some (p, t)" "p \<noteq> 0" "free_pages t = free_pages s"
  then show ?thesis using region_alloc [OF assms(2)] by blast
next
  fix p
  assume "M = L - {p}" "p \<in> L" "free p s = Some t"
  then show ?thesis using region_release [OF assms(2), of p] by (metis option.inject)
qed

lemma region_steps:
  assumes "heap_step\<^sup>*\<^sup>* (s, L) (t, M)" "region_heap i s L bs"
  shows "\<exists>bs'. region_heap i t M bs'"
  using assms(1)
proof (induction "(t, M)" arbitrary: t M rule: rtranclp_induct)
  case base
  then show ?case using assms(2) by blast
next
  case (step y)
  then show ?case using region_step by (metis prod.exhaust_sel)
qed

lemma region_init:
  assumes "pmm_inv s" "0 \<notin> free_pages s" "free_pages s \<noteq> {}"
  shows "region_heap (Min (free_pages s)) (heap_init s) {} [page_block (Min (free_pages s))]"
  using heap_init_inv [OF assms] by (simp add: region_heap_def b_end_def)

section \<open>Properties\<close>

text \<open>
  C13 (no leak, no fragmentation left behind): from \<open>heap_init\<close> on, after any
  sequence of non-zero requests served without a further frame and of pointers
  given back, the blocks in the list tile the page of the heap, the blocks in use
  are exactly those of the pointers held, no two free blocks are neighbours, and
  each pointer held can be given back.  Once none is held the page is one free block
  again, and a request of up to 4084 bytes gets the same address as the first one.
\<close>

theorem region_heap_reusable:
  assumes "pmm_inv s" "0 \<notin> free_pages s" "free_pages s \<noteq> {}" "heap_step\<^sup>*\<^sup>* (heap_init s, {}) (t, L)"
  shows "\<exists>bs. let page = Min (free_pages s) * 4096 in
    heap_inv t bs [] \<and> tiles page (page + 4096) bs \<and> no_adjacent_free bs \<and> L = ptrs bs \<and>
    (\<forall>p \<in> L. \<exists>t'. free p t = Some t') \<and>
    (L = {} \<longrightarrow> bs = [page_block (Min (free_pages s))] \<and>
      (\<forall>n. 0 < n \<and> unat n \<le> 4084 \<longrightarrow> (\<exists>t'. malloc n t = Some (of_nat (page + 12), t'))))"
proof -
  let ?i = "Min (free_pages s)"
  obtain bs where bs: "region_heap ?i t L bs"
    using region_steps [OF assms(4) region_init [OF assms(1-3)]] by blast
  then have r: "heap_inv t bs []" "tiles (?i * 4096) (?i * 4096 + 4096) bs" "no_adjacent_free bs" "L = ptrs bs"
    by (simp_all add: region_heap_def)
  have fr: "\<exists>t'. free p t = Some t'" if "p \<in> L" for p by (rule region_release [OF bs that]) blast
  have whole: "bs = [page_block ?i]" if "L = {}"
    using tiles_all_free [OF r(2,3)] r(4) that by (auto simp: page_block_def)
  have "\<exists>t'. malloc n t = Some (of_nat (?i * 4096 + 12), t')" if "L = {}" "0 < n \<and> unat n \<le> 4084" for n
    using malloc_fit_inv [of t "[]" "page_block ?i" "[]" "[]" n] r(1) whole [OF that(1)] that(2)
    by (auto simp: fits_def simp del: of_nat_mult of_nat_add)
  then show ?thesis using r fr whole unfolding Let_def by blast
qed

theorem region_heap_reusable_witness:
  "\<exists>p s1 s2. malloc 100 (heap_init before_heap) = Some (p, s1) \<and> free p s1 = Some s2 \<and>
    heap_inv s2 [page_block 1] []"
proof -
  have r: "region_heap 1 (heap_init before_heap) {} [page_block 1]"
    using region_init [OF before_heap_ok(1-3)] by (simp only: before_heap_Min)
  obtain s1 where s1: "malloc 100 (heap_init before_heap) = Some (4108, s1)"
    "free_pages s1 = free_pages (heap_init before_heap)"
    using malloc_first_fit [of "heap_init before_heap" "[]" "page_block 1" "[]" "[]" 100] heap_init_before(1)
    by (auto simp: fits_def)
  have a: "heap_step (heap_init before_heap, {}) (s1, {4108})" by (rule heap_step.alloc [OF _ s1(1) _ s1(2)]) simp_all
  obtain bs1 where "region_heap 1 s1 {4108} bs1" using region_step [OF a r] by blast
  then obtain s2 where s2: "free 4108 s1 = Some s2" by (rule region_release) simp_all
  have "heap_step (s1, {4108}) (s2, {4108} - {4108})" by (rule heap_step.release [OF _ s2]) simp
  then have "heap_step\<^sup>*\<^sup>* (heap_init before_heap, {}) (s2, {})" using a by simp
  from region_heap_reusable [OF before_heap_ok(1-3) this] have "heap_inv s2 [page_block 1] []"
    by (auto simp: Let_def before_heap_Min)
  then show ?thesis using s1(1) s2 by blast
qed

end
