(* ===== verification/ProcSys.thy ===== *)
theory ProcSys
  imports ProcFork
begin

text \<open>
  The process system as a step relation: what the kernel's process code, its allocator
  and its interrupt handlers do, and what the running process stores into its own
  half, in any order.  Every step keeps the invariant of the process list, so the address
  spaces stay isolated, and no step changes what a process that is not running sees.
\<close>

section \<open>The steps\<close>

text \<open>
  \<open>create_process\<close>, \<open>fork\<close> and the page-fault handler do not check that the frames
  they ask for exist, so each is taken with the frames it needs; a fault is one of an
  address below the kernel's half.  A store is one byte, wherever the running process's
  directory leads below 0xC0000000.
\<close>

inductive proc_step :: "'a proc_state_scheme \<Rightarrow> 'a proc_state_scheme \<Rightarrow> bool" where
  Create: "4 \<le> card (free_pages s) \<Longrightarrow> create_process eip esp ebp s = Some (p, s') \<Longrightarrow> proc_step s s'"
| Fork: "current_process s \<noteq> 0 \<Longrightarrow> fork_frames s \<le> card (free_pages s) \<Longrightarrow> k_fork s = Some (r, s') \<Longrightarrow> proc_step s s'"
| Fault: "current_process s \<noteq> 0 \<Longrightarrow> err AND 1 = 0 \<Longrightarrow> pdi addr < KERNEL_PD_INDEX \<Longrightarrow> 2 \<le> card (free_pages s) \<Longrightarrow>
    proc_step s (page_fault_handler err addr s)"
| Schedule: "proc_step s (schedule s)"
| Store: "current_process s \<noteq> 0 \<Longrightarrow> v < 0xC0000000 \<Longrightarrow> proc_walk s (current_process s) v = Some x \<Longrightarrow>
    proc_step s (s\<lparr>mem := (mem s)(x := b)\<rparr>)"
| Malloc: "0 < n \<Longrightarrow> malloc n s = Some (q, s') \<Longrightarrow> proc_step s s'"
| Interrupt: "interrupts_on s \<Longrightarrow> irq_handler call_handler r s = Some s' \<Longrightarrow> proc_step s s'"

inductive_cases proc_stepE: "proc_step s t"

text \<open>
  What a process sees: the bytes it reads below 0xC0000000, and the fields of its
  structure, its saved registers among them.
\<close>

definition user_read :: "'a proc_state_scheme \<Rightarrow> u32 \<Rightarrow> u32 \<Rightarrow> u8 option" where
  "user_read s q v = map_option (mem s) (proc_walk s q v)"

definition undisturbed :: "u32 \<Rightarrow> 'a proc_state_scheme \<Rightarrow> 'a proc_state_scheme \<Rightarrow> bool" where
  "undisturbed q s s' \<longleftrightarrow> (\<forall>v < 0xC0000000. user_read s' q v = user_read s q v) \<and>
     (\<forall>off. field_offset off \<longrightarrow> pfield (mem s') q off = pfield (mem s) q off)"

lemma undisturbed_refl [simp]: "undisturbed q s s"
  by (simp add: undisturbed_def)

lemma undisturbed_trans: "undisturbed q s t \<Longrightarrow> undisturbed q t u \<Longrightarrow> undisturbed q s u"
  by (simp add: undisturbed_def)

lemma undisturbed_mem: "mem s' = mem s \<Longrightarrow> undisturbed q s s'"
  by (simp add: undisturbed_def user_read_def proc_walk_def)

text \<open>A step that preserves what a process owns does not disturb it.\<close>

lemma preserves_undisturbed:
  assumes pres: "preserves s cs s' cs' D {}" and kern: "kernel_ok s cs d" and ok: "proc_ok s cs d q"
    and k: "kernel_page_dir s' = kernel_page_dir s"
    and D: "D \<inter> space_frames (mem s) d = {}" "D \<inter> private_frames (mem s) (pd_of (mem s) q) = {}"
  shows "undisturbed q s s'"
  unfolding undisturbed_def
proof (intro conjI allI impI)
  note K = proc_ok_keep [OF pres kern ok k D]
  show "pfield (mem s') q off = pfield (mem s) q off" if "field_offset off" for off by (rule K(2) [OF _ that]) simp
  fix v :: u32 assume v: "v < 0xC0000000"
  have ok': "proc_ok s' cs' d q" by (rule K(1)) simp
  have walk: "proc_walk s' q v = proc_walk s q v"
    unfolding proc_walk_dir [OF ok] proc_walk_dir [OF ok'] by (rule K(4)) simp
  have own: "own_space s cs d (pd_of (mem s) q)" using ok by (simp add: proc_ok_def)
  have "mem s' x = mem s x" if x: "proc_walk s q v = Some x" for x
  proof -
    have "mmu_walk (mem s) (page_addr (pd_of (mem s) q)) v = Some x" using x unfolding proc_walk_dir [OF ok] .
    then have "frame_of x \<in> private_frames (mem s) (pd_of (mem s) q)"
      using walk_user_frame(2) v low_half by (auto simp: private_frames_def)
    then show ?thesis using own_space_keep(4) [OF pres kern own D k in_frame] by blast
  qed
  then show "user_read s' q v = user_read s q v" unfolding user_read_def walk by (cases "proc_walk s q v") auto
qed

section \<open>The kernel's allocator\<close>

lemma procs_inv_preserved:
  fixes s :: "'a proc_state_scheme"
  assumes inv: "procs_inv s bs lost d ps" and pres: "preserves s (bs @ lost) s' (bs' @ lost') {} {}"
    and heap: "heap_inv s' bs' lost'"
    and same: "kernel_page_dir s' = kernel_page_dir s" "process_list s' = process_list s" "current_process s' = current_process s"
  shows "procs_inv s' bs' lost' d ps"
proof -
  have kern: "kernel_ok s (bs @ lost) d" using inv by (simp add: procs_inv_def)
  have ok: "proc_ok s (bs @ lost) d q" if "q \<in> set ps" for q using inv that by (simp add: procs_inv_def)
  note K = proc_ok_keep [OF pres kern ok same(1) Int_empty_left Int_empty_left]
  have nxt: "pfield (mem s') q P_NEXT = pfield (mem s) q P_NEXT" if "q \<in> set ps" for q by (rule K(2) [OF that]) simp_all
  have "proc_path (mem s') (process_list s) ps"
    by (rule proc_path_cong [OF _ nxt]) (use inv in \<open>simp_all add: procs_inv_def\<close>)
  moreover have "kernel_ok s' (bs' @ lost') d" by (rule kernel_ok_keep(1) [OF pres kern _ same(1)]) simp
  moreover have "proc_ok s' (bs' @ lost') d q" if "q \<in> set ps" for q by (rule K(1) [OF that]) simp_all
  moreover have "private_frames (mem s') (pd_of (mem s') q) = private_frames (mem s) (pd_of (mem s) q)" if "q \<in> set ps" for q
    by (rule K(3) [OF that]) simp_all
  ultimately show ?thesis using inv heap same unfolding procs_inv_def by simp
qed

lemma malloc_procs:
  fixes s :: "'a proc_state_scheme"
  assumes inv: "procs_inv s bs lost d ps" and n: "0 < n" "malloc n s = Some (p, s')"
  obtains bs' lost' where "procs_inv s' bs' lost' d ps" "preserves s (bs @ lost) s' (bs' @ lost') {} {}"
    "kernel_page_dir s' = kernel_page_dir s"
proof -
  have heap: "heap_inv s bs lost" using inv by (simp add: procs_inv_def)
  obtain bs' lost' where t: "heap_inv s' bs' lost'" "keeps_used (bs @ lost) (bs' @ lost') (mem s) (mem s')"
    "heap_within s (bs @ lost) s' (bs' @ lost')"
    using malloc_spec [OF heap n(1)] n(2) by auto
  then have f: "kernel_page_dir s' = kernel_page_dir s" "process_list s' = process_list s" "current_process s' = current_process s"
    by (auto simp: heap_within_def)
  note pres = preserves_malloc [OF heap t(1,3,2)]
  show thesis by (rule that [OF procs_inv_preserved [OF inv pres t(1) f] pres f(1)])
qed

section \<open>A store of the running process\<close>

lemma store_procs:
  fixes s :: "'a proc_state_scheme" and b :: u8
  assumes inv: "procs_inv s bs lost d ps" and cur: "current_process s \<noteq> 0" and v: "v < 0xC0000000"
    and x: "proc_walk s (current_process s) v = Some x"
  defines "s' \<equiv> s\<lparr>mem := (mem s)(x := b)\<rparr>"
  shows "procs_inv s' bs lost d ps" "preserves s (bs @ lost) s' (bs @ lost) {frame_of x} {}"
    "frame_of x \<in> private_frames (mem s) (pd_of (mem s) (current_process s))"
    "proc_walk s' (current_process s) w = proc_walk s (current_process s) w"
proof -
  let ?p = "current_process s" and ?Q = "pd_of (mem s) (current_process s)" and ?g = "frame_of x"
  have p: "?p \<in> set ps" using inv cur by (simp add: procs_inv_def)
  have ok: "proc_ok s (bs @ lost) d ?p" and pinv: "pmm_inv s" using inv p by (auto simp: procs_inv_def heap_inv_def)
  have own: "own_space s (bs @ lost) d ?Q" using ok by (simp add: proc_ok_def)
  have sp: "space_inv s ?Q" "pages_apart s ?Q" using own own_space_pages [OF own pinv] by (auto simp: own_space_def)
  have walk: "mmu_walk (mem s) (page_addr ?Q) v = Some x" using x unfolding proc_walk_dir [OF ok] .
  have g: "?g \<in> page_frames (mem s) ?Q" "?g \<in> user_frames (mem s) ?Q"
    using walk_user_frame [OF walk] v low_half by blast+
  then show D: "?g \<in> private_frames (mem s) ?Q" by (simp add: private_frames_def)
  have held: "held s ?g" and out: "{?g} \<inter> space_frames (mem s) ?Q = {}" and g20: "{?g} \<subseteq> {..<2 ^ 20}"
    using sp(2) g(1) frame_of_bound [of x] by (auto simp: pages_apart_def)
  have "only_changes (page_span ?g) (mem s) ((mem s)(x := b))" using in_frame [of x] by (auto simp: only_changes_def)
  note use = frame_use_write [OF pinv held this, folded s'_def]
  note S = frame_use_space [OF use(1) sp(1) out g20]
  have pages: "page_frames (mem s') ?Q = page_frames (mem s) ?Q" unfolding page_frames_walk S(4) ..
  have apart: "pages_apart s' ?Q"
    using sp(2) frame_use_held(1) [OF use(1)] unfolding pages_apart_def pages S(3) by blast
  have "table_of (mem s') ?Q i = table_of (mem s) ?Q i \<and> present (mem s') ?Q i = present (mem s) ?Q i" if "i < 1024" for i
    using table_of_cong [OF S(2) [OF that]] present_cong [OF S(2) [OF that]] by simp
  then have "user_frames (mem s') ?Q \<subseteq> user_frames (mem s) ?Q \<union> (free_pages s - free_pages s')"
    unfolding user_frames_def pages by fastforce
  note C = procs_inv_change [OF inv p use(1) _ S(1) apart S(2) this]
  show inv': "procs_inv s' bs lost d ps" "preserves s (bs @ lost) s' (bs @ lost) {?g} {}"
    using C(1,2) D by (simp_all add: s'_def)
  have ok': "proc_ok s' (bs @ lost) d ?p" using inv'(1) p by (simp add: procs_inv_def)
  have "pfield (mem s') ?p P_PAGE_DIR = pfield (mem s) ?p P_PAGE_DIR" by (rule C(3)) (use D p in \<open>simp_all add: s'_def\<close>)
  then show "proc_walk s' ?p w = proc_walk s ?p w"
    unfolding proc_walk_dir [OF ok] proc_walk_dir [OF ok'] using S(4) by simp
qed

section \<open>Interrupts\<close>

text \<open>The state the invariant and the translations depend on.\<close>

definition same_system :: "'a proc_state_scheme \<Rightarrow> 'a proc_state_scheme \<Rightarrow> bool" where
  "same_system s t \<longleftrightarrow> mem t = mem s \<and> pmm_bitmap t = pmm_bitmap s \<and> pmm_bitmap_size t = pmm_bitmap_size s \<and>
     total_pages t = total_pages s \<and> heap_start t = heap_start s \<and> heap_end t = heap_end s \<and>
     kernel_page_dir t = kernel_page_dir s \<and> process_list t = process_list s \<and> current_process t = current_process s"

lemma same_system_inv:
  assumes "same_system s t"
  shows "procs_inv t bs lost d ps = procs_inv s bs lost d ps"
proof -
  have f: "free_pages t = free_pages s" "bitmap_region t = bitmap_region s"
    using assms by (simp_all add: same_system_def free_pages_def bitmap_region_def)
  then have "pmm_inv t = pmm_inv s" "owned t cs g = owned s cs g" for cs g
    using assms by (simp_all add: same_system_def pmm_inv_def owned_def heap_area_def)
  then show ?thesis
    using assms f by (simp add: same_system_def procs_inv_def kernel_ok_def proc_ok_def own_space_def space_inv_def heap_inv_def)
qed

lemma mouse_irq_handler_same: "mouse_irq_handler s = Some t \<Longrightarrow> same_system s t"
  by (auto simp: mouse_irq_handler_def process_packet_def pic_send_eoi_def same_system_def hw_io_defs split: if_splits)

lemma call_handler_same: "call_handler h r s = Some t \<Longrightarrow> same_system s t"
  using mouse_irq_handler_same
  by (cases h) (auto simp: kybrd_handler_state timer_handler_def same_system_def)

lemma irq_handler_same: "irq_handler call_handler r s = Some t \<Longrightarrow> same_system s t"
  using call_handler_same [of _ r s]
  by (auto simp: irq_handler_def same_system_def hw_io_defs split: bind_splits option.splits if_splits)

section \<open>Every step\<close>

text \<open>A step that writes no process frame disturbs none, one of the running process no other.\<close>

lemma nobody_disturbed:
  assumes "procs_inv s bs lost d ps" "q \<in> set ps" "preserves s (bs @ lost) s' cs {} {}"
    and "kernel_page_dir s' = kernel_page_dir s"
  shows "undisturbed q s s'"
proof -
  have "kernel_ok s (bs @ lost) d" "proc_ok s (bs @ lost) d q" using assms(1,2) by (auto simp: procs_inv_def)
  from preserves_undisturbed [OF assms(3) this assms(4)] show ?thesis by simp
qed

lemma running_alone_disturbs:
  assumes inv: "procs_inv s bs lost d ps" and q: "q \<in> set ps" "q \<noteq> current_process s" and cur: "current_process s \<noteq> 0"
    and dir: "kernel_page_dir s' = kernel_page_dir s" and pres: "preserves s (bs @ lost) s' cs D {}"
    and D: "D \<subseteq> private_frames (mem s) (pd_of (mem s) (current_process s))"
  shows "undisturbed q s s'"
proof -
  have kern: "kernel_ok s (bs @ lost) d" and ok: "\<And>q. q \<in> set ps \<Longrightarrow> proc_ok s (bs @ lost) d q"
    using inv by (auto simp: procs_inv_def)
  have p: "current_process s \<in> set ps" using inv cur by (simp add: procs_inv_def)
  show ?thesis
  proof (rule preserves_undisturbed [OF pres kern ok [OF q(1)] dir])
    show "D \<inter> space_frames (mem s) d = {}"
      using ok [OF p] D by (auto simp: proc_ok_def own_space_def)
    show "D \<inter> private_frames (mem s) (pd_of (mem s) q) = {}"
      using inv p q D unfolding procs_inv_def by blast
  qed
qed

lemma proc_step_keeps:
  assumes "proc_step s s'" "procs_inv s bs lost d ps"
  shows "\<exists>bs' lost' ps'. procs_inv s' bs' lost' d ps' \<and> set ps \<subseteq> set ps' \<and>
    (\<forall>q \<in> set ps. q \<noteq> current_process s \<longrightarrow> undisturbed q s s')"
proof -
  note nobody = nobody_disturbed [OF assms(2), where s' = s']
    and running = running_alone_disturbs [OF assms(2), where s' = s']
  show ?thesis
    using assms(1)
  proof cases
    case (Create eip esp ebp p)
    then obtain bs' lost' where "procs_inv s' bs' lost' d (p # ps)" "preserves s (bs @ lost) s' (bs' @ lost') {} {}"
      "kernel_page_dir s' = kernel_page_dir s"
      using create_process_result [OF assms(2) Create(1), of eip esp ebp] by (metis option.inject prod.inject)
    then show ?thesis using nobody by (metis set_subset_Cons)
  next
    case (Fork r)
    then obtain c bs' lost' where c: "procs_inv s' bs' lost' d (c # ps)" "preserves s (bs @ lost) s' (bs' @ lost') {} {}"
      using fork_result [OF assms(2) Fork(1) Fork(2) [unfolded fork_frames_def]] by (metis option.inject prod.inject)
    have "kernel_page_dir s' = kernel_page_dir s" using assms(2) c(1) by (simp add: procs_inv_def kernel_ok_def)
    then show ?thesis using c nobody by (metis set_subset_Cons)
  next
    case (Fault err addr)
    from fault_result [OF assms(2) Fault(2-5)]
    have "procs_inv s' bs lost d ps" "kernel_page_dir s' = kernel_page_dir s"
      "preserves s (bs @ lost) s' (bs @ lost) (private_frames (mem s) (pd_of (mem s) (current_process s))) {}"
      unfolding Fault(1) by metis+
    then show ?thesis using running [OF _ _ Fault(2)] by blast
  next
    case Schedule
    then show ?thesis using schedule_procs(1,2) [OF assms(2)] undisturbed_mem by blast
  next
    case (Store v x b)
    note S = store_procs(1,2) [OF assms(2) Store(2-4), of b, folded Store(1)] store_procs(3) [OF assms(2) Store(2-4)]
    have "kernel_page_dir s' = kernel_page_dir s" by (simp add: Store(1))
    then show ?thesis using S running [OF _ _ Store(2) _ S(2)] by blast
  next
    case (Malloc n q)
    show ?thesis by (rule malloc_procs [OF assms(2) Malloc]) (use nobody in blast)
  next
    case (Interrupt r)
    have "same_system s s'" by (rule irq_handler_same [OF Interrupt(2)])
    then show ?thesis
      using assms(2) same_system_inv undisturbed_mem [of s' s] unfolding same_system_def by blast
  qed
qed

lemma proc_steps_inv:
  assumes "proc_step\<^sup>*\<^sup>* s s'" "procs_inv s bs lost d ps"
  shows "\<exists>bs' lost' ps'. procs_inv s' bs' lost' d ps' \<and> set ps \<subseteq> set ps'"
  using assms
proof (induction rule: rtranclp_induct)
  case (step t u)
  then obtain bs' lost' ps' where t: "procs_inv t bs' lost' d ps'" "set ps \<subseteq> set ps'" by blast
  then show ?case using proc_step_keeps [OF step.hyps(2) t(1)] by blast
qed blast

text \<open>The first process, created and scheduled.\<close>

lemma first_steps:
  assumes "create_process eip esp ebp booted_procs = Some (p, s1)"
  shows "proc_step\<^sup>*\<^sup>* booted_procs (schedule s1)"
proof -
  have "4 \<le> card (free_pages booted_procs)" using booted_procs_inv(2) by simp
  from proc_step.Create [OF this assms] proc_step.Schedule [of s1] show ?thesis
    by (metis (no_types) converse_rtranclp_into_rtranclp r_into_rtranclp)
qed

text \<open>A parent and its child: the address 0xBFF010 of their stacks leads both to a zero.\<close>

lemma parent_and_child:
  obtains p c s bs lost where "procs_inv s bs lost 0 [c, p]" "c \<noteq> p" "p \<noteq> 0" "c \<noteq> 0" "current_process s = p"
    "proc_step\<^sup>*\<^sup>* booted_procs s" "user_read s p 0xBFF010 = Some 0" "user_read s c 0xBFF010 = Some 0"
proof -
  obtain p s1 bs lost where p: "create_process 0x401000 0 0 booted_procs = Some (p, s1)"
    "procs_inv (schedule s1) bs lost 0 [p]" "current_process (schedule s1) = p" "p \<noteq> 0"
    "fresh_process booted_procs s1 0 0x401000 p" "fork_frames (schedule s1) = 6" "95 \<le> card (free_pages (schedule s1))"
    "mem (schedule s1) = mem s1"
    by (rule first_process)
  let ?t = "schedule s1"
  have nz: "current_process ?t \<noteq> 0" and room: "fork_frames ?t \<le> card (free_pages ?t)" using p(3,4,6,7) by simp_all
  obtain c s bs' lost' where c: "k_fork ?t = Some (sint (next_pid ?t), s)" "c \<noteq> 0" "c \<notin> set [p]"
    "procs_inv s bs' lost' 0 [c, p]" "preserves ?t (bs @ lost) s (bs' @ lost') {} {}"
    "fork_space ?t s 0 (pd_of (mem ?t) p) (pd_of (mem s) c)" "current_process s = p"
    by (rule fork_result [OF p(2) nz room [unfolded fork_frames_def], unfolded p(3)]) blast
  have steps: "proc_step\<^sup>*\<^sup>* booted_procs s"
    by (rule rtranclp.rtrancl_into_rtrancl [OF first_steps [OF p(1)]]) (rule proc_step.Fork [OF nz room c(1)])
  have ok: "proc_ok ?t (bs @ lost) 0 p" "kernel_ok ?t (bs @ lost) 0" "proc_ok s (bs' @ lost') 0 c"
    using p(2) c(4) by (auto simp: procs_inv_def)
  have k: "kernel_page_dir s = kernel_page_dir ?t" using ok(2) c(4) by (simp add: procs_inv_def kernel_ok_def)
  obtain f where f: "f \<in> free_pages booted_procs" "\<forall>x \<in> page_span f. mem s1 x = 0"
    "\<And>v. mmu_walk (mem s1) (page_addr (pd_of (mem s1) p)) v = new_walk (mem booted_procs) 0 f v"
    using p(5) by (auto simp: fresh_process_def)
  have f20: "f < 2 ^ 20" using f(1) booted_procs_inv(1) free_pages_bound by (auto simp: procs_inv_def heap_inv_def)
  let ?x = "page_addr f OR (0xBFF010 AND 0xFFF)"
  have idx: "pdi 0xBFF010 = 2" "drop_bit 12 (0xBFF010 :: u32) = 0xBFF" by (simp_all add: drop_bit_eq_div)
  have x: "mmu_walk (mem ?t) (page_addr (pd_of (mem ?t) p)) 0xBFF010 = Some ?x" unfolding p(8) f(3) idx(2) by simp
  have zero: "mem ?t ?x = 0" unfolding p(8) using f(2) in_frame [of ?x] page_offset(3) [OF f20] by metis
  have "user_read ?t p 0xBFF010 = Some 0" unfolding user_read_def proc_walk_dir [OF ok(1)] x using zero by simp
  moreover have "undisturbed p ?t s" by (rule preserves_undisturbed [OF c(5) ok(2,1) k]) simp_all
  ultimately have parent: "user_read s p 0xBFF010 = Some 0" by (simp add: undisturbed_def)
  have "present (mem ?t) (pd_of (mem ?t) p) 2" using p(5) unfolding p(8) by (simp add: fresh_process_def)
  then have "half_copied ?t s (pd_of (mem ?t) p) (pd_of (mem s) c) 0xBFF010" using c(6) idx(1) by (simp add: fork_space_def)
  then obtain y where "mmu_walk (mem s) (page_addr (pd_of (mem s) c)) 0xBFF010 = Some y" "mem s y = 0"
    unfolding half_copied_def x using zero by auto
  then have "user_read s c 0xBFF010 = Some 0" unfolding user_read_def proc_walk_dir [OF ok(3)] by simp
  then show thesis using that [OF c(4) _ p(4) c(2,7) steps parent] c(3) by simp
qed

section \<open>Properties\<close>





end
